(* ===== verification/Prelude.thy ===== *)
theory Prelude
  imports Main "HOL-Library.Word"
begin

text \<open>
  What every component shares: the configuration constants of \<^verbatim>\<open>src/config.h\<close>, the
  outcome type of a piece of C code (a value, undefined behaviour, or a thread blocked on a
  condition variable), byte buffers with their C string operations, and the little-endian
  layout of machine words in memory. The lemmas about them are declared \<open>simp\<close> or put
  into the collections below, so that the component proofs rest on automation.
\<close>

named_theorems config_simps \<open>values of the configuration constants\<close>
named_theorems c_simps \<open>definitions to unfold when a piece of C code is evaluated\<close>

section \<open>Configuration\<close>

definition MAX_QUEUE_NAME :: nat where
  "MAX_QUEUE_NAME = 256"

definition MAXLINE :: nat where
  "MAXLINE = 131073"

definition MAX_CONNECTIONS :: nat where
  "MAX_CONNECTIONS = 512"

declare MAX_QUEUE_NAME_def [config_simps] MAXLINE_def [config_simps]
  MAX_CONNECTIONS_def [config_simps]

section \<open>Outcomes of C code\<close>

text \<open>
  A run of a C function ends with a value, runs into undefined behaviour (\<open>UB\<close>, with its
  kind), or blocks on a condition variable. \<open>bindE\<close> sequences two pieces of code: the
  second runs only when the first returned.
\<close>

datatype ub = Out_of_bounds | Null_deref | Dangling | Signed_overflow

datatype stop = UB ub | Blocked

type_synonym 'a result = "stop + 'a"

fun bindE :: "'a result \<Rightarrow> ('a \<Rightarrow> 'b result) \<Rightarrow> 'b result" where
  "bindE (Inl e) f = Inl e"
| "bindE (Inr x) f = f x"

definition assertE :: "ub \<Rightarrow> bool \<Rightarrow> unit result" where
  "assertE u b = (if b then Inr () else Inl (UB u))"

lemma assertE_True [simp]: "assertE u True = Inr ()"
  by (simp add: assertE_def)

lemma assertE_False [simp]: "assertE u False = Inl (UB u)"
  by (simp add: assertE_def)

lemma assertE_eq_Inr [simp]: "assertE u b = Inr x \<longleftrightarrow> b"
  by (simp add: assertE_def)

lemma bindE_eq_Inr: "bindE m f = Inr y \<longleftrightarrow> (\<exists>x. m = Inr x \<and> f x = Inr y)"
  by (cases m) auto

lemma bindE_eq_Inl: "bindE m f = Inl e \<longleftrightarrow> m = Inl e \<or> (\<exists>x. m = Inr x \<and> f x = Inl e)"
  by (cases m) auto

lemma bindE_assoc: "bindE (bindE m f) g = bindE m (\<lambda>x. bindE (f x) g)"
  by (cases m) auto

lemma bindE_if: "bindE (if b then m else n) f = (if b then bindE m f else bindE n f)"
  by simp

lemma bindE_cong [fundef_cong]:
  "m = m' \<Longrightarrow> (\<And>x. m' = Inr x \<Longrightarrow> f x = f' x) \<Longrightarrow> bindE m f = bindE m' f'"
  by (cases m') auto

section \<open>Byte buffers\<close>

text \<open>
  A character array of the program is a function from offsets to bytes; its capacity is the
  constant the array is declared with, and every write goes through \<open>buf_store\<close>, which
  is undefined behaviour past the capacity.
\<close>

type_synonym byte = "8 word"
type_synonym buf = "nat \<Rightarrow> byte"

definition zero_buf :: buf where
  "zero_buf = (\<lambda>_. 0)"

definition mem_read :: "buf \<Rightarrow> nat \<Rightarrow> nat \<Rightarrow> byte list" where
  "mem_read f off n = map f [off..<off + n]"

definition mem_write :: "buf \<Rightarrow> nat \<Rightarrow> byte list \<Rightarrow> buf" where
  "mem_write f off bs = (\<lambda>i. if off \<le> i \<and> i < off + length bs then bs ! (i - off) else f i)"

definition buf_store :: "nat \<Rightarrow> buf \<Rightarrow> nat \<Rightarrow> byte list \<Rightarrow> buf result" where
  "buf_store cap f off bs =
     bindE (assertE Out_of_bounds (off + length bs \<le> cap)) (\<lambda>_. Inr (mem_write f off bs))"

definition buf_load :: "nat \<Rightarrow> buf \<Rightarrow> nat \<Rightarrow> nat \<Rightarrow> byte list result" where
  "buf_load cap f off n =
     bindE (assertE Out_of_bounds (off + n \<le> cap)) (\<lambda>_. Inr (mem_read f off n))"

lemma zero_buf_apply [simp]: "zero_buf i = 0"
  by (simp add: zero_buf_def)

lemma length_mem_read [simp]: "length (mem_read f off n) = n"
  by (simp add: mem_read_def)

lemma nth_mem_read [simp]: "i < n \<Longrightarrow> mem_read f off n ! i = f (off + i)"
  by (simp add: mem_read_def)

lemma mem_read_0 [simp]: "mem_read f off 0 = []"
  by (simp add: mem_read_def)

lemma mem_read_Suc: "mem_read f off (Suc n) = f off # mem_read f (Suc off) n"
  by (simp add: mem_read_def upt_conv_Cons del: upt_Suc)

lemma mem_read_add: "mem_read f off (m + n) = mem_read f off m @ mem_read f (off + m) n"
  by (rule nth_equalityI) (auto simp: nth_append)

lemma mem_write_nil [simp]: "mem_write f off [] = f"
  by (rule ext) (auto simp: mem_write_def)

lemma mem_write_inside: "off \<le> i \<Longrightarrow> i < off + length bs \<Longrightarrow> mem_write f off bs i = bs ! (i - off)"
  by (simp add: mem_write_def)

lemma mem_write_outside: "i < off \<or> off + length bs \<le> i \<Longrightarrow> mem_write f off bs i = f i"
  by (auto simp: mem_write_def)

lemma mem_read_write_same [simp]: "n = length bs \<Longrightarrow> mem_read (mem_write f off bs) off n = bs"
  by (rule nth_equalityI) (auto simp: mem_write_def)

lemma mem_read_write_disjoint:
  "off + n \<le> off' \<or> off' + length bs \<le> off \<Longrightarrow>
   mem_read (mem_write f off' bs) off n = mem_read f off n"
  by (rule nth_equalityI) (auto simp: mem_write_def)

lemma mem_write_append:
  "mem_write (mem_write f off bs) (off + length bs) cs = mem_write f off (bs @ cs)"
  by (rule ext) (auto simp: mem_write_def nth_append)

lemma mem_write_append':
  "off' = off + length bs \<Longrightarrow> mem_write (mem_write f off bs) off' cs = mem_write f off (bs @ cs)"
  by (simp add: mem_write_append)

lemma mem_read_write_prefix:
  "n \<le> length bs \<Longrightarrow> mem_read (mem_write f off bs) off n = take n bs"
  by (rule nth_equalityI) (auto simp: mem_write_def)

lemma buf_store_eq_Inr [simp]:
  "buf_store cap f off bs = Inr g \<longleftrightarrow> off + length bs \<le> cap \<and> g = mem_write f off bs"
  by (auto simp: buf_store_def assertE_def)

lemma buf_store_ok: "off + length bs \<le> cap \<Longrightarrow> buf_store cap f off bs = Inr (mem_write f off bs)"
  by simp

lemma buf_load_eq_Inr [simp]:
  "buf_load cap f off n = Inr bs \<longleftrightarrow> off + n \<le> cap \<and> bs = mem_read f off n"
  by (auto simp: buf_load_def assertE_def)

lemma buf_load_ok: "off + n \<le> cap \<Longrightarrow> buf_load cap f off n = Inr (mem_read f off n)"
  by simp

section \<open>C strings\<close>

text \<open>
  \<open>cstrlen cap f off\<close> is \<^verbatim>\<open>strlen(f + off)\<close> for an array of \<open>cap\<close> bytes: the distance
  to the first zero byte, \<open>None\<close> when there is none before the end of the array.
\<close>

function cstrlen :: "nat \<Rightarrow> buf \<Rightarrow> nat \<Rightarrow> nat option" where
  "cstrlen cap f off =
     (if off < cap then (if f off = 0 then Some 0 else map_option Suc (cstrlen cap f (Suc off)))
      else None)"
  by pat_completeness auto
termination
  by (relation "measure (\<lambda>(cap, f, off). cap - off)") auto

declare cstrlen.simps [simp del]

definition cstring :: "nat \<Rightarrow> buf \<Rightarrow> nat \<Rightarrow> byte list result" where
  "cstring cap f off =
     (case cstrlen cap f off of None \<Rightarrow> Inl (UB Out_of_bounds) | Some n \<Rightarrow> Inr (mem_read f off n))"

text \<open>\<^verbatim>\<open>strncpy(dst, src, n)\<close>: the bytes it stores, given the \<open>n\<close> bytes at \<open>src\<close>.\<close>

fun strncpy_bytes :: "byte list \<Rightarrow> byte list" where
  "strncpy_bytes [] = []"
| "strncpy_bytes (b # bs) = (if b = 0 then replicate (Suc (length bs)) 0 else b # strncpy_bytes bs)"

lemma length_strncpy_bytes [simp]: "length (strncpy_bytes bs) = length bs"
  by (induction bs) auto

definition nul_free :: "byte list \<Rightarrow> bool" where
  "nul_free bs \<longleftrightarrow> 0 \<notin> set bs"

lemma nul_free_simps [simp]:
  "nul_free []" "nul_free (b # bs) \<longleftrightarrow> b \<noteq> 0 \<and> nul_free bs"
  "nul_free (xs @ ys) \<longleftrightarrow> nul_free xs \<and> nul_free ys"
  by (auto simp: nul_free_def)

text \<open>The string a byte list holds: what comes before its first zero.\<close>

definition until_nul :: "byte list \<Rightarrow> byte list" where
  "until_nul bs = takeWhile (\<lambda>b. b \<noteq> 0) bs"

lemma nul_free_until_nul [simp]: "nul_free (until_nul bs)"
  by (auto simp: nul_free_def until_nul_def dest: set_takeWhileD)

lemma until_nul_nul_free [simp]: "nul_free bs \<Longrightarrow> until_nul bs = bs"
  by (auto simp: nul_free_def until_nul_def takeWhile_eq_all_conv)

lemma length_until_nul_le: "length (until_nul bs) \<le> length bs"
  by (simp add: until_nul_def length_takeWhile_le)

lemma until_nul_append_nul [simp]: "until_nul (bs @ 0 # cs) = until_nul bs"
  by (induction bs) (auto simp: until_nul_def)

lemma until_nul_strncpy [simp]: "until_nul (strncpy_bytes bs @ 0 # cs) = until_nul bs"
  by (induction bs) (auto simp: until_nul_def)

lemma cstrlen_SomeD:
  "cstrlen cap f off = Some n \<Longrightarrow> off + n < cap \<and> f (off + n) = 0 \<and> nul_free (mem_read f off n)"
proof (induction cap f off arbitrary: n rule: cstrlen.induct)
  case (1 cap f off)
  from "1.prems" show ?case
    by (subst (asm) cstrlen.simps) (auto split: if_splits simp: mem_read_Suc dest!: "1.IH")
qed

lemma cstrlen_nul:
  "nul_free (mem_read f off n) \<Longrightarrow> f (off + n) = 0 \<Longrightarrow> off + n < cap \<Longrightarrow> cstrlen cap f off = Some n"
proof (induction n arbitrary: off)
  case 0
  then show ?case by (subst cstrlen.simps) simp
next
  case (Suc n)
  then show ?case by (subst cstrlen.simps) (auto simp: mem_read_Suc)
qed

lemma cstring_write:
  assumes "nul_free bs" and "off + length bs < cap"
  shows "cstring cap (mem_write f off (bs @ 0 # cs)) off = Inr bs"
proof -
  have "mem_read (mem_write f off (bs @ 0 # cs)) off (length bs) = bs"
    by (simp add: mem_read_write_prefix)
  moreover have "mem_write f off (bs @ 0 # cs) (off + length bs) = 0"
    by (simp add: mem_write_def nth_append)
  ultimately have "cstrlen cap (mem_write f off (bs @ 0 # cs)) off = Some (length bs)"
    using assms by (auto intro: cstrlen_nul)
  then show ?thesis
    using \<open>mem_read _ off (length bs) = bs\<close> by (simp add: cstring_def)
qed

lemma cstring_eq_InrD:
  "cstring cap f off = Inr bs \<Longrightarrow>
   nul_free bs \<and> off + length bs < cap \<and> bs = mem_read f off (length bs) \<and> f (off + length bs) = 0"
  by (auto simp: cstring_def split: option.splits dest: cstrlen_SomeD)

lemma cstring_nul_free: "cstring cap f off = Inr bs \<Longrightarrow> nul_free bs"
  by (simp add: cstring_eq_InrD)

lemma cstring_terminated:
  assumes "f (off + n) = 0" and "off + n < cap"
  shows "\<exists>bs. cstring cap f off = Inr bs \<and> length bs \<le> n \<and> bs = until_nul (mem_read f off n)"
  using assms
proof (induction n arbitrary: off)
  case 0
  then show ?case by (auto simp: cstring_def cstrlen.simps [of cap f off] until_nul_def)
next
  case (Suc n)
  show ?case
  proof (cases "f off = 0")
    case True
    with Suc.prems show ?thesis
      by (auto simp: cstring_def cstrlen.simps [of cap f off] until_nul_def mem_read_Suc)
  next
    case False
    from Suc.prems have "f (Suc off + n) = 0" "Suc off + n < cap" by auto
    from Suc.IH [OF this] False Suc.prems(2) show ?thesis
      by (auto simp: cstring_def cstrlen.simps [of cap f off] until_nul_def mem_read_Suc
          split: option.splits)
  qed
qed

lemma cstring_nulless_Inl: "cstring cap f off = Inl e \<Longrightarrow> e = UB Out_of_bounds"
  by (auto simp: cstring_def split: option.splits)

section \<open>Words in memory\<close>

text \<open>
  The program runs on little-endian processors (README): \<open>le_bytes n w\<close> are the \<open>n\<close>
  bytes of a word in memory order, \<open>le_word\<close> reads them back. A store to a field of a
  packed struct and a load from it are these two on the bytes of the field. Network order
  is the reverse, \<open>be_bytes\<close>.
\<close>

definition le_bytes :: "nat \<Rightarrow> 'a::len word \<Rightarrow> byte list" where
  "le_bytes n w = map (\<lambda>k. ucast (drop_bit (8 * k) w)) [0..<n]"

fun le_word :: "byte list \<Rightarrow> 'a::len word" where
  "le_word [] = 0"
| "le_word (b # bs) = or (ucast b) (push_bit 8 (le_word bs))"

definition be_bytes :: "nat \<Rightarrow> 'a::len word \<Rightarrow> byte list" where
  "be_bytes n w = rev (le_bytes n w)"

definition be_word :: "byte list \<Rightarrow> 'a::len word" where
  "be_word bs = le_word (rev bs)"

lemma length_le_bytes [simp]: "length (le_bytes n w) = n"
  by (simp add: le_bytes_def)

lemma length_be_bytes [simp]: "length (be_bytes n w) = n"
  by (simp add: be_bytes_def)

lemma nth_le_bytes [simp]: "k < n \<Longrightarrow> le_bytes n w ! k = ucast (drop_bit (8 * k) w)"
  by (simp add: le_bytes_def)

lemma bit_le_word:
  "bit (le_word bs :: 'a::len word) i \<longleftrightarrow>
     i < LENGTH('a) \<and> i div 8 < length bs \<and> bit (bs ! (i div 8)) (i mod 8)"
proof (induction bs arbitrary: i)
  case Nil
  then show ?case by simp
next
  case (Cons b bs)
  show ?case
  proof (cases "i < 8")
    case True
    then show ?thesis by (auto simp: bit_simps)
  next
    case False
    then have "i div 8 = Suc ((i - 8) div 8)" and "i mod 8 = (i - 8) mod 8"
      by (simp_all add: le_div_geq le_mod_geq)
    with False Cons.IH [of "i - 8"] show ?thesis
      by (auto simp: bit_simps dest: bit_imp_le_length)
  qed
qed

lemma le_word_le_bytes:
  fixes w :: "'a::len word"
  assumes "LENGTH('a) \<le> 8 * n"
  shows "le_word (le_bytes n w) = w"
proof (rule bit_word_eqI)
  fix i assume "i < LENGTH('a)"
  moreover from this assms have "i div 8 < n" by auto
  ultimately show "bit (le_word (le_bytes n w) :: 'a word) i = bit w i"
    by (simp add: bit_le_word bit_simps)
qed

lemma le_bytes_le_word:
  assumes "8 * length bs \<le> LENGTH('a::len)"
  shows "le_bytes (length bs) (le_word bs :: 'a word) = bs"
proof (rule nth_equalityI)
  fix k assume "k < length (le_bytes (length bs) (le_word bs :: 'a word))"
  then have k: "k < length bs" by simp
  have "bit (ucast (drop_bit (8 * k) (le_word bs :: 'a word)) :: byte) i = bit (bs ! k) i"
    if "i < 8" for i
  proof -
    have "8 * k + i < LENGTH('a)" using assms k that by auto
    moreover have "(8 * k + i) div 8 = k" and "(8 * k + i) mod 8 = i" using that by auto
    ultimately show ?thesis
      using that k by (simp add: bit_simps bit_le_word)
  qed
  then have "ucast (drop_bit (8 * k) (le_word bs :: 'a word)) = bs ! k"
    by (auto intro: bit_word_eqI)
  with k show "le_bytes (length bs) (le_word bs :: 'a word) ! k = bs ! k" by simp
qed simp

lemma be_word_be_bytes: "LENGTH('a::len) \<le> 8 * n \<Longrightarrow> be_word (be_bytes n (w :: 'a word)) = w"
  by (simp add: be_word_def be_bytes_def le_word_le_bytes)

lemma be_bytes_be_word:
  "8 * length bs \<le> LENGTH('a::len) \<Longrightarrow> be_bytes (length bs) (be_word bs :: 'a word) = bs"
  using le_bytes_le_word [of "rev bs", where 'a = 'a]
  by (simp add: be_word_def be_bytes_def)

text \<open>\<^verbatim>\<open>htons\<close>, \<^verbatim>\<open>htonl\<close> and their inverses reverse the bytes of a word on such a host.\<close>

definition htons :: "16 word \<Rightarrow> 16 word" where
  "htons w = le_word (be_bytes 2 w)"

definition htonl :: "32 word \<Rightarrow> 32 word" where
  "htonl w = le_word (be_bytes 4 w)"

definition ntohs :: "16 word \<Rightarrow> 16 word" where
  "ntohs w = le_word (be_bytes 2 w)"

definition ntohl :: "32 word \<Rightarrow> 32 word" where
  "ntohl w = le_word (be_bytes 4 w)"

lemma le_bytes_htons [simp]: "le_bytes 2 (htons w) = be_bytes 2 w"
  using le_bytes_le_word [of "be_bytes 2 w", where 'a = 16] by (simp add: htons_def)

lemma le_bytes_htonl [simp]: "le_bytes 4 (htonl w) = be_bytes 4 w"
  using le_bytes_le_word [of "be_bytes 4 w", where 'a = 32] by (simp add: htonl_def)

lemma ntohs_le_word: "length bs = 2 \<Longrightarrow> ntohs (le_word bs) = be_word bs"
  using le_bytes_le_word [of bs, where 'a = 16]
  by (simp add: ntohs_def be_bytes_def be_word_def)

lemma ntohl_le_word: "length bs = 4 \<Longrightarrow> ntohl (le_word bs) = be_word bs"
  using le_bytes_le_word [of bs, where 'a = 32]
  by (simp add: ntohl_def be_bytes_def be_word_def)

lemma ntohs_htons [simp]: "ntohs (htons w) = w"
  by (simp add: ntohs_def be_bytes_def le_word_le_bytes)

lemma ntohl_htonl [simp]: "ntohl (htonl w) = w"
  by (simp add: ntohl_def be_bytes_def le_word_le_bytes)

end
