(* ===== verification/Util.thy ===== *)
theory Util
  imports Prelude
begin

text \<open>
  \<^verbatim>\<open>src/util.c\<close>: counting the set bits of a 16-bit value, the 64-bit byte swap, and
  \<^verbatim>\<open>read_until\<close>, the loop every read from the socket goes through. The receiving side
  of a socket is the list of what its \<^verbatim>\<open>read\<close> calls find (\<open>rx_event\<close>): a non-empty
  segment of bytes, or an error. The end of the list is the end of the stream.
\<close>

section \<open>Bit counting\<close>

text \<open>The loop with \<open>k = 16 - i\<close> iterations left.\<close>

fun bit_cardinality_loop :: "nat \<Rightarrow> 16 word \<Rightarrow> int \<Rightarrow> int" where
  "bit_cardinality_loop 0 bit_array c = c"
| "bit_cardinality_loop (Suc k) bit_array c =
     bit_cardinality_loop k (drop_bit 1 bit_array) (c + uint (and bit_array 0x1))"

definition bit_cardinality_16 :: "16 word \<Rightarrow> int" where
  "bit_cardinality_16 bit_array = bit_cardinality_loop 16 bit_array 0"

lemma uint_and_1: "uint (and w 1 :: 16 word) = of_bool (bit w 0)"
  by (simp add: and_one_eq mod2_eq_if bit_0)

lemma bit_cardinality_loop_sum:
  "bit_cardinality_loop k w c = c + (\<Sum>i<k. of_bool (bit w i))"
proof (induction k arbitrary: w c)
  case 0
  then show ?case by simp
next
  case (Suc k)
  have "(\<Sum>i<Suc k. of_bool (bit w i)) = (of_bool (bit w 0) :: int) + (\<Sum>i<k. of_bool (bit w (Suc i)))"
    by (rule sum.lessThan_Suc_shift)
  with Suc show ?case by (simp add: uint_and_1 bit_simps)
qed

lemma bit_cardinality_16_card: "bit_cardinality_16 w = int (card {i. bit w i})"
proof -
  have "{i. bit w i} = {i. i < 16 \<and> bit w i}"
    by (auto dest: bit_imp_le_length)
  then show ?thesis
    by (simp add: bit_cardinality_16_def bit_cardinality_loop_sum sum.If_cases of_bool_def
        lessThan_def Int_def)
qed

lemma bit_cardinality_16_bounds: "0 \<le> bit_cardinality_16 w" "bit_cardinality_16 w \<le> 16"
proof -
  have "{i. bit w i} \<subseteq> {..<16}" by (auto dest: bit_imp_le_length)
  then have "card {i. bit w i} \<le> 16" using card_mono [of "{..<16::nat}"] by fastforce
  then show "0 \<le> bit_cardinality_16 w" "bit_cardinality_16 w \<le> 16"
    by (simp_all add: bit_cardinality_16_card)
qed

section \<open>Byte order of 64-bit values\<close>

text \<open>
  The mask of \<^verbatim>\<open>right\<close> is the code's: \<^verbatim>\<open>0xffff\<close>, sixteen bits and not thirty-two.
\<close>

definition swipe_endianness_64 :: "64 word \<Rightarrow> 64 word" where
  "swipe_endianness_64 n =
     (let left = ucast (drop_bit 32 n) :: 32 word;
          right = ucast (and n 0xffff) :: 32 word;
          new_left = htonl right;
          new_right = htonl left
      in or (push_bit 32 (ucast new_left)) (ucast new_right))"

lemma le_bytes_64_split:
  "le_bytes 8 (or (push_bit 32 (ucast (hi :: 32 word))) (ucast (lo :: 32 word)) :: 64 word) =
     le_bytes 4 lo @ le_bytes 4 hi"
proof (rule nth_equalityI)
  fix k assume "k < length (le_bytes 8 (or (push_bit 32 (ucast hi)) (ucast lo) :: 64 word))"
  then have k: "k < 8" by simp
  show "le_bytes 8 (or (push_bit 32 (ucast hi)) (ucast lo) :: 64 word) ! k =
      (le_bytes 4 lo @ le_bytes 4 hi) ! k"
  proof (cases "k < 4")
    case True
    with k show ?thesis
      by (intro bit_word_eqI) (auto simp: nth_append bit_simps dest: bit_imp_le_length)
  next
    case False
    then obtain j where j: "k = j + 4" by (metis add.commute le_Suc_ex not_less)
    with k show ?thesis
      by (intro bit_word_eqI) (auto simp: nth_append bit_simps add.commute dest: bit_imp_le_length)
  qed
qed simp

text \<open>What ends up in memory: the high half swapped, then only the low sixteen bits swapped.\<close>

lemma le_bytes_swipe:
  "le_bytes 8 (swipe_endianness_64 n) =
     be_bytes 4 (ucast (drop_bit 32 n) :: 32 word) @ be_bytes 4 (ucast (and n 0xffff) :: 32 word)"
  by (simp add: swipe_endianness_64_def Let_def le_bytes_64_split)

lemma be_bytes_64_split:
  "be_bytes 8 (n :: 64 word) =
     be_bytes 4 (ucast (drop_bit 32 n) :: 32 word) @ be_bytes 4 (ucast n :: 32 word)"
proof -
  have n: "n = or (push_bit 32 (ucast (ucast (drop_bit 32 n) :: 32 word))) (ucast (ucast n :: 32 word))"
    by (rule bit_word_eqI) (auto simp: bit_simps dest: bit_imp_le_length)
  have "le_bytes 8 n = le_bytes 4 (ucast n :: 32 word) @ le_bytes 4 (ucast (drop_bit 32 n) :: 32 word)"
    by (subst n, subst le_bytes_64_split) simp
  then show ?thesis by (simp add: be_bytes_def)
qed

lemma be_bytes_inject: "LENGTH('a::len) \<le> 8 * k \<Longrightarrow> be_bytes k (v :: 'a word) = be_bytes k w \<longleftrightarrow> v = w"
  by (metis be_word_be_bytes)

lemma bit_0xffff: "bit (0xffff :: 64 word) i \<longleftrightarrow> i < 16"
proof -
  have "(0xffff :: 64 word) = mask 16" by (simp add: mask_eq_exp_minus_1)
  then show ?thesis by (simp only: bit_mask_iff) (auto dest: bit_imp_le_length)
qed

lemma bit_0xffff0000: "bit (0xffff0000 :: 64 word) i \<longleftrightarrow> 16 \<le> i \<and> i < 32"
proof -
  have "(0xffff0000 :: 64 word) = push_bit 16 (mask 16)"
    by (simp add: mask_eq_exp_minus_1 push_bit_eq_mult)
  then show ?thesis
    by (simp only: bit_push_bit_iff bit_mask_iff) auto
qed

lemma ucast_low_16: "(ucast (and n 0xffff) :: 32 word) = ucast (n :: 64 word) \<longleftrightarrow> and n 0xffff0000 = 0"
proof -
  have "(ucast (and n 0xffff) :: 32 word) = ucast n \<longleftrightarrow> (\<forall>i<32. bit n i \<longrightarrow> i < 16)"
    by (simp only: bit_eq_iff bit_unsigned_iff bit_and_iff bit_0xffff) (auto 0 3 simp: possible_bit_word)
  also have "\<dots> \<longleftrightarrow> (\<forall>i<64. 16 \<le> i \<longrightarrow> i < 32 \<longrightarrow> \<not> bit n i)"
    using linorder_not_less [of _ "16::nat"] by force
  also have "\<dots> \<longleftrightarrow> and n 0xffff0000 = 0"
    by (simp only: bit_eq_iff bit_and_iff bit_0xffff0000 bit_0_eq) (auto 0 3 simp: possible_bit_word)
  finally show ?thesis .
qed

lemma swipe_is_network_order_iff:
  "le_bytes 8 (swipe_endianness_64 n) = be_bytes 8 n \<longleftrightarrow> and n 0xffff0000 = 0"
  by (simp add: le_bytes_swipe be_bytes_64_split be_bytes_inject ucast_low_16)

section \<open>Reading from the socket\<close>

datatype rx_event = Chunk byte "byte list" | Rd_error

datatype read_result = Read_error | Read_bytes "byte list"

text \<open>
  \<^verbatim>\<open>read(fd, buf, n)\<close>: an error, no byte at the end of the stream, or the first bytes of the
  next segment, at most \<open>n\<close> of them; the rest of the segment stays. A count above
  \<^verbatim>\<open>SSIZE_MAX\<close> fails and reads nothing, as Linux and macOS do.
\<close>

definition SSIZE_MAX :: nat where
  "SSIZE_MAX = 2 ^ 63 - 1"

fun posix_read :: "nat \<Rightarrow> rx_event list \<Rightarrow> read_result \<times> rx_event list" where
  "posix_read n rx =
     (if SSIZE_MAX < n then (Read_error, rx)
      else case rx of
        [] \<Rightarrow> (Read_bytes [], [])
      | Rd_error # r \<Rightarrow> (Read_error, r)
      | Chunk b bs # r \<Rightarrow>
          (Read_bytes (take n (b # bs)),
           case drop n (b # bs) of [] \<Rightarrow> r | c # cs \<Rightarrow> Chunk c cs # r))"

declare posix_read.simps [simp del]

fun rx_size :: "rx_event list \<Rightarrow> nat" where
  "rx_size [] = 0"
| "rx_size (Rd_error # r) = Suc (rx_size r)"
| "rx_size (Chunk b bs # r) = Suc (length bs) + rx_size r"

lemma posix_read_size_le: "posix_read n rx = (res, rx') \<Longrightarrow> rx_size rx' \<le> rx_size rx"
  by (auto simp: posix_read.simps split: if_splits list.splits rx_event.splits dest!: arg_cong [where f = length])

lemma posix_read_bytes_size:
  assumes "posix_read n rx = (Read_bytes bs, rx')"
  shows "rx_size rx = length bs + rx_size rx'" "length bs \<le> n"
  using assms
  by (auto simp: posix_read.simps split: if_splits list.splits rx_event.splits
      dest!: arg_cong [where f = length])

lemma posix_read_error_size:
  "posix_read n rx = (Read_error, rx') \<Longrightarrow> n \<le> SSIZE_MAX \<Longrightarrow> rx_size rx = Suc (rx_size rx')"
  by (auto simp: posix_read.simps split: if_splits list.splits rx_event.splits)

text \<open>
  The loop of \<^verbatim>\<open>read_until\<close>, with its counter \<^verbatim>\<open>sum\<close> (here \<open>acc\<close>) at its width;
  \<^verbatim>\<open>_buf\<close> is \<open>buf + acc\<close> throughout. The result of \<^verbatim>\<open>read\<close> goes into a
  \<^verbatim>\<open>size_t\<close>, so the error value \<open>-1\<close> is added to the counter as any count would be.
\<close>

function read_loop ::
  "nat \<Rightarrow> 64 word \<Rightarrow> 64 word \<Rightarrow> buf \<Rightarrow> rx_event list \<Rightarrow> (64 word \<times> buf \<times> rx_event list) result"
where
  "read_loop cap sz acc buf rx =
     (if acc < sz then
        (case posix_read (unat (sz - acc)) rx of
           (Read_error, rx') \<Rightarrow> read_loop cap sz (acc + (- 1)) buf rx'
         | (Read_bytes bs, rx') \<Rightarrow>
             if bs = [] then Inr (0, buf, rx')
             else bindE (buf_store cap buf (unat acc) bs)
               (\<lambda>buf'. read_loop cap sz (acc + of_nat (length bs)) buf' rx'))
      else Inr (acc, buf, rx))"
  by pat_completeness auto

text \<open>
  The loop ends on every input: each round consumes input, except after an error that
  consumes nothing, where the counter goes down or, from zero, wraps past \<open>sz\<close>.
\<close>

definition read_rank :: "64 word \<Rightarrow> 64 word \<Rightarrow> nat" where
  "read_rank sz acc = (if acc < sz then Suc (unat acc) else 0)"

lemma read_rank_error: "acc < sz \<Longrightarrow> read_rank sz (acc - 1) < read_rank sz acc"
proof (cases "acc = 0")
  case True
  then show "acc < sz \<Longrightarrow> ?thesis" by (auto simp: read_rank_def dest: less_le_trans [OF _ word_order.extremum])
next
  case False
  then show "acc < sz \<Longrightarrow> ?thesis"
    by (auto simp: read_rank_def unat_minus_one unat_gt_0)
qed

termination read_loop
proof (relation "measures [\<lambda>(cap, sz, acc, buf, rx). rx_size rx,
     \<lambda>(cap, sz, acc, buf, rx). read_rank sz acc]", goal_cases)
  case 1
  then show ?case by simp
next
  case 2
  then show ?case
    by (auto dest!: posix_read_size_le [OF sym] read_rank_error simp: le_less)
next
  case 3
  then show ?case
    by (auto dest!: posix_read_bytes_size(1) [OF sym])
qed

declare read_loop.simps [simp del]

definition read_until ::
  "nat \<Rightarrow> buf \<Rightarrow> 64 word \<Rightarrow> rx_event list \<Rightarrow> (64 word \<times> buf \<times> rx_event list) result" where
  "read_until cap buf sz rx = read_loop cap sz 0 buf rx"

section \<open>What read_until returns\<close>

text \<open>The bytes that arrive before the first error, in order.\<close>

fun rx_bytes :: "rx_event list \<Rightarrow> byte list" where
  "rx_bytes [] = []"
| "rx_bytes (Rd_error # r) = []"
| "rx_bytes (Chunk b bs # r) = b # bs @ rx_bytes r"

lemma rx_bytes_le_size: "length (rx_bytes rx) \<le> rx_size rx"
  by (induction rx rule: rx_bytes.induct) auto

lemma posix_read_Chunk:
  assumes "posix_read n (Chunk b bs # r) = (Read_bytes cs, rx')"
  shows "rx_bytes (Chunk b bs # r) = cs @ rx_bytes rx'" "length cs \<le> n"
  using assms
  by (auto simp: posix_read.simps split: if_splits list.splits)
     (metis append_assoc append_Cons append_take_drop_id append_self_conv)+

lemma posix_read_segment:
  assumes "0 < n" "n \<le> SSIZE_MAX" "rx_bytes rx \<noteq> []"
  obtains cs rx' where "posix_read n rx = (Read_bytes cs, rx')" "cs \<noteq> []" "length cs \<le> n"
    "rx_bytes rx = cs @ rx_bytes rx'"
proof -
  from assms(3) obtain b bs r where rx: "rx = Chunk b bs # r"
    by (cases rx rule: rx_bytes.cases) auto
  with assms(2) obtain cs rx' where *: "posix_read n rx = (Read_bytes cs, rx')"
    by (auto simp: posix_read.simps)
  moreover from this assms(1,2) rx have "cs \<noteq> []"
    by (auto simp: posix_read.simps split: if_splits list.splits)
  ultimately show ?thesis
    using that posix_read_Chunk [of n b bs r cs rx'] rx by blast
qed

lemma unat_add_of_nat:
  "unat (acc :: 64 word) + k \<le> unat (sz :: 64 word) \<Longrightarrow> unat (acc + of_nat k) = unat acc + k"
proof -
  assume le: "unat acc + k \<le> unat sz"
  then have "unat acc + k < 2 ^ LENGTH(64)"
    using le_less_trans [OF le unsigned_less] by simp
  moreover have "acc + of_nat k = of_nat (unat acc + k)" by simp
  ultimately show ?thesis by (simp only: unat_of_nat mod_less)
qed

text \<open>One round of the loop that finds bytes.\<close>

lemma read_loop_segment:
  assumes "acc < sz" "unat sz \<le> cap" "unat sz \<le> SSIZE_MAX" "rx_bytes rx \<noteq> []"
  obtains cs rx1 where "cs \<noteq> []" "length cs \<le> unat sz - unat acc"
    "rx_bytes rx = cs @ rx_bytes rx1" "Rd_error \<in> set rx1 \<longrightarrow> Rd_error \<in> set rx"
    "unat (acc + of_nat (length cs)) = unat acc + length cs"
    "read_loop cap sz acc buf rx =
       read_loop cap sz (acc + of_nat (length cs)) (mem_write buf (unat acc) cs) rx1"
proof -
  let ?n = "unat sz - unat acc"
  have lt: "unat acc < unat sz" using assms(1) by (simp add: word_less_nat_alt)
  have n: "unat (sz - acc) = ?n" using assms(1) by (simp add: unat_sub less_imp_le)
  from lt assms(3) have pos: "0 < ?n" and le: "?n \<le> SSIZE_MAX" by auto
  obtain cs rx1 where
    rd: "posix_read ?n rx = (Read_bytes cs, rx1)" "cs \<noteq> []" "length cs \<le> ?n"
      "rx_bytes rx = cs @ rx_bytes rx1"
    by (rule posix_read_segment [OF pos le assms(4)])
  have err: "Rd_error \<in> set rx1 \<longrightarrow> Rd_error \<in> set rx"
    using rd(1) by (auto simp: posix_read.simps split: if_splits list.splits rx_event.splits)
  have acc: "unat (acc + of_nat (length cs)) = unat acc + length cs"
    using rd(3) lt by (intro unat_add_of_nat [where sz = sz]) auto
  have "read_loop cap sz acc buf rx =
      read_loop cap sz (acc + of_nat (length cs)) (mem_write buf (unat acc) cs) rx1"
    using assms(1,2) rd lt by (subst read_loop.simps) (simp add: n buf_store_ok)
  with rd err acc show ?thesis using that by blast
qed

text \<open>Whatever the segments are, the loop collects their bytes until it has \<open>sz\<close> of them.\<close>

lemma read_loop_collects:
  assumes "acc \<le> sz" "unat sz \<le> cap" "unat sz \<le> SSIZE_MAX"
    and "unat sz \<le> unat acc + length (rx_bytes rx)"
  shows "\<exists>rx'. read_loop cap sz acc buf rx =
             Inr (sz, mem_write buf (unat acc) (take (unat sz - unat acc) (rx_bytes rx)), rx') \<and>
           rx_bytes rx' = drop (unat sz - unat acc) (rx_bytes rx)"
  using assms
proof (induction "length (rx_bytes rx)" arbitrary: acc buf rx rule: less_induct)
  case less
  show ?case
  proof (cases "acc < sz")
    case False
    with less.prems(1) have "acc = sz" by simp
    then show ?thesis by (subst read_loop.simps) simp
  next
    case True
    with less.prems(4) have "rx_bytes rx \<noteq> []" by (auto simp: word_less_nat_alt)
    from read_loop_segment [OF True less.prems(2,3) this, of buf]
    obtain cs rx1 where rd: "cs \<noteq> []" "length cs \<le> unat sz - unat acc"
      "rx_bytes rx = cs @ rx_bytes rx1" "unat (acc + of_nat (length cs)) = unat acc + length cs"
      "read_loop cap sz acc buf rx =
         read_loop cap sz (acc + of_nat (length cs)) (mem_write buf (unat acc) cs) rx1"
      by blast
    have "\<exists>rx'. read_loop cap sz (acc + of_nat (length cs)) (mem_write buf (unat acc) cs) rx1 =
        Inr (sz, mem_write (mem_write buf (unat acc) cs) (unat acc + length cs)
          (take (unat sz - (unat acc + length cs)) (rx_bytes rx1)), rx') \<and>
        rx_bytes rx' = drop (unat sz - (unat acc + length cs)) (rx_bytes rx1)"
      using less.hyps [of rx1 "acc + of_nat (length cs)"] rd(1-4) less.prems True
      by (auto simp: word_le_nat_alt word_less_nat_alt)
    with rd(2) show ?thesis
      by (simp add: rd(5) rd(3) mem_write_append diff_diff_left)
  qed
qed

text \<open>A stream that ends too early: the bytes there are were stored, the result is 0.\<close>

lemma read_loop_eof:
  assumes "unat sz \<le> cap" "unat sz \<le> SSIZE_MAX" "Rd_error \<notin> set rx"
    and "unat acc + length (rx_bytes rx) < unat sz"
  shows "read_loop cap sz acc buf rx = Inr (0, mem_write buf (unat acc) (rx_bytes rx), [])"
  using assms
proof (induction "length (rx_bytes rx)" arbitrary: acc buf rx rule: less_induct)
  case less
  from less.prems(4) have acc: "acc < sz" by (simp add: word_less_nat_alt)
  show ?case
  proof (cases "rx_bytes rx = []")
    case True
    with less.prems(3) have "rx = []" by (cases rx rule: rx_bytes.cases) auto
    with acc less.prems(2) show ?thesis
      by (subst read_loop.simps) (auto simp: posix_read.simps unat_sub less_imp_le)
  next
    case False
    from read_loop_segment [OF acc less.prems(1,2) this, of buf]
    obtain cs rx1 where rd: "cs \<noteq> []" "rx_bytes rx = cs @ rx_bytes rx1"
      "Rd_error \<in> set rx1 \<longrightarrow> Rd_error \<in> set rx"
      "unat (acc + of_nat (length cs)) = unat acc + length cs"
      "read_loop cap sz acc buf rx =
         read_loop cap sz (acc + of_nat (length cs)) (mem_write buf (unat acc) cs) rx1"
      by blast
    have "read_loop cap sz (acc + of_nat (length cs)) (mem_write buf (unat acc) cs) rx1 =
        Inr (0, mem_write (mem_write buf (unat acc) cs) (unat acc + length cs) (rx_bytes rx1), [])"
      using less.hyps [of rx1 "acc + of_nat (length cs)"] rd(1-4) less.prems by auto
    then show ?thesis by (simp add: rd(5) rd(2) mem_write_append)
  qed
qed

lemma read_until_eof:
  assumes "unat sz \<le> cap" "unat sz \<le> SSIZE_MAX" "Rd_error \<notin> set rx"
    and "length (rx_bytes rx) < unat sz"
  shows "read_until cap buf sz rx = Inr (0, mem_write buf 0 (rx_bytes rx), [])"
  using read_loop_eof [of sz cap rx 0 buf] assms by (simp add: read_until_def)

text \<open>
  The caller's buffer is no limit: when more bytes arrive than it holds and \<open>sz\<close> asks for
  them, the loop writes past its end.
\<close>

lemma read_loop_overflows:
  assumes "unat acc \<le> cap" "cap < unat sz" "unat sz \<le> SSIZE_MAX"
    and "cap < unat acc + length (rx_bytes rx)"
  shows "read_loop cap sz acc buf rx = Inl (UB Out_of_bounds)"
  using assms
proof (induction "length (rx_bytes rx)" arbitrary: acc buf rx rule: less_induct)
  case less
  have acc: "acc < sz" using less.prems(1,2) by (simp add: word_less_nat_alt)
  have ne: "rx_bytes rx \<noteq> []" using less.prems(1,4) by auto
  have n: "unat (sz - acc) = unat sz - unat acc" using acc by (simp add: unat_sub less_imp_le)
  have pos: "0 < unat (sz - acc)" and le: "unat (sz - acc) \<le> SSIZE_MAX"
    using less.prems(1-3) n by auto
  obtain cs rx1 where rd: "posix_read (unat (sz - acc)) rx = (Read_bytes cs, rx1)" "cs \<noteq> []"
    "length cs \<le> unat (sz - acc)" "rx_bytes rx = cs @ rx_bytes rx1"
    by (rule posix_read_segment [OF pos le ne])
  show ?case
  proof (cases "unat acc + length cs \<le> cap")
    case False
    with acc rd show ?thesis by (subst read_loop.simps) (simp add: buf_store_def)
  next
    case True
    have a: "unat (acc + of_nat (length cs)) = unat acc + length cs"
      using rd(3) n less.prems(1,2) by (intro unat_add_of_nat [where sz = sz]) auto
    have "read_loop cap sz (acc + of_nat (length cs)) (mem_write buf (unat acc) cs) rx1 =
        Inl (UB Out_of_bounds)"
      using less.hyps [of rx1 "acc + of_nat (length cs)"] rd(2,4) less.prems True a by auto
    with acc rd True show ?thesis by (subst read_loop.simps) (simp add: buf_store_ok)
  qed
qed

text \<open>An error before the first byte: \<^verbatim>\<open>(size_t) -1\<close> ends the loop and is the result.\<close>

lemma read_until_error_first:
  assumes "0 < sz" "unat sz \<le> SSIZE_MAX"
  shows "read_until cap buf sz (Rd_error # rx) = Inr (- 1, buf, rx)"
proof -
  have "\<not> (- 1 :: 64 word) < sz" by simp
  then have "read_loop cap sz (- 1) buf rx = Inr (- 1, buf, rx)"
    by (subst read_loop.simps) simp
  with assms show ?thesis
    unfolding read_until_def by (subst read_loop.simps) (simp add: posix_read.simps)
qed

text \<open>A negative length, as a \<^verbatim>\<open>size_t\<close>, fails the same way and reads nothing.\<close>

lemma read_until_huge:
  assumes "SSIZE_MAX < unat sz"
  shows "read_until cap buf sz rx = Inr (- 1, buf, rx)"
proof -
  have "\<not> (- 1 :: 64 word) < sz" by simp
  then have "read_loop cap sz (- 1) buf rx = Inr (- 1, buf, rx)"
    by (subst read_loop.simps) simp
  moreover have "0 < sz" using assms by (auto simp: word_gt_0)
  ultimately show ?thesis
    using assms unfolding read_until_def by (subst read_loop.simps) (simp add: posix_read.simps)
qed

lemma read_until_0 [simp]: "read_until cap buf 0 rx = Inr (0, buf, rx)"
  unfolding read_until_def by (subst read_loop.simps) simp

lemma read_until_collects:
  assumes "unat sz \<le> cap" "unat sz \<le> SSIZE_MAX" "unat sz \<le> length (rx_bytes rx)"
  shows "\<exists>rx'. read_until cap buf sz rx = Inr (sz, mem_write buf 0 (take (unat sz) (rx_bytes rx)), rx') \<and>
           rx_bytes rx' = drop (unat sz) (rx_bytes rx)"
  using read_loop_collects [of 0 sz cap rx buf] assms by (simp add: read_until_def)

text \<open>The three values a call can return, that it never writes past \<open>sz\<close>, and what it consumes.\<close>

lemma read_loop_result:
  assumes "read_loop cap sz acc buf rx = Inr (n, buf', rx')" "acc \<le> sz \<or> acc = - 1"
  shows "(n = 0 \<or> n = sz \<or> n = - 1) \<and> rx_size rx' \<le> rx_size rx \<and>
    (acc < sz \<longrightarrow> unat sz \<le> SSIZE_MAX \<longrightarrow> n \<noteq> 0 \<longrightarrow> rx_size rx' < rx_size rx)"
  using assms
proof (induction cap sz acc buf rx arbitrary: n rule: read_loop.induct)
  case (1 cap sz acc buf rx)
  show ?case
  proof (cases "acc < sz")
    case False
    with "1.prems" show ?thesis by (subst (asm) read_loop.simps) auto
  next
    case acc: True
    obtain res rx1 where rd: "posix_read (unat (sz - acc)) rx = (res, rx1)" by fastforce
    show ?thesis
    proof (cases res)
      case Read_error
      have "acc + - 1 \<le> sz \<or> acc + - 1 = - 1"
        using acc by (cases "acc = 0") (auto simp: word_le_nat_alt unat_minus_one word_less_nat_alt)
      moreover have "read_loop cap sz (acc + - 1) buf rx1 = Inr (n, buf', rx')"
        using "1.prems" acc rd Read_error by (subst (asm) read_loop.simps) simp
      ultimately have IH: "(n = 0 \<or> n = sz \<or> n = - 1) \<and> rx_size rx' \<le> rx_size rx1"
        using "1.IH"(1) [OF acc rd [symmetric] Read_error] by blast
      have "unat (sz - acc) \<le> SSIZE_MAX \<Longrightarrow> rx_size rx1 < rx_size rx"
        using posix_read_error_size rd Read_error by fastforce
      moreover have "unat (sz - acc) \<le> unat sz" using acc by (simp add: unat_sub less_imp_le)
      ultimately show ?thesis
        using IH posix_read_size_le [OF rd] by auto
    next
      case (Read_bytes bs)
      note size = posix_read_bytes_size [OF rd [unfolded Read_bytes]]
      show ?thesis
      proof (cases "bs = []")
        case True
        with "1.prems" acc rd Read_bytes size show ?thesis
          by (subst (asm) read_loop.simps) auto
      next
        case False
        have "unat acc + length bs \<le> unat sz"
          using size(2) acc by (simp add: unat_sub less_imp_le word_less_nat_alt)
        then have le: "acc + of_nat (length bs) \<le> sz"
          by (simp add: word_le_nat_alt unat_add_of_nat)
        have eq: "bindE (buf_store cap buf (unat acc) bs)
            (\<lambda>b. read_loop cap sz (acc + of_nat (length bs)) b rx1) = Inr (n, buf', rx')"
          using "1.prems"(1) acc rd Read_bytes False by (subst (asm) read_loop.simps) simp
        then obtain b where b: "buf_store cap buf (unat acc) bs = Inr b"
          and rec: "read_loop cap sz (acc + of_nat (length bs)) b rx1 = Inr (n, buf', rx')"
          by (auto simp: bindE_eq_Inr)
        have "0 < length bs" using False by simp
        with "1.IH"(2) [OF acc rd [symmetric] Read_bytes False b rec disjI1 [OF le]] size
        show ?thesis by linarith
      qed
    qed
  qed
qed

lemma read_until_result:
  assumes "read_until cap buf sz rx = Inr (n, buf', rx')"
  shows "n = 0 \<or> n = sz \<or> n = - 1" "rx_size rx' \<le> rx_size rx"
    "sz \<noteq> 0 \<Longrightarrow> unat sz \<le> SSIZE_MAX \<Longrightarrow> n \<noteq> 0 \<Longrightarrow> rx_size rx' < rx_size rx"
  using read_loop_result [OF assms [unfolded read_until_def]] by (auto simp: word_gt_0)

lemma read_loop_no_ub:
  "unat sz \<le> cap \<Longrightarrow> \<exists>n buf' rx'. read_loop cap sz acc buf rx = Inr (n, buf', rx')"
proof (induction cap sz acc buf rx rule: read_loop.induct)
  case (1 cap sz acc buf rx)
  obtain res rx1 where rd: "posix_read (unat (sz - acc)) rx = (res, rx1)" by fastforce
  show ?case
  proof (cases "acc < sz")
    case True
    have "bs \<noteq> [] \<Longrightarrow> res = Read_bytes bs \<Longrightarrow> unat acc + length bs \<le> cap" for bs
      using posix_read_bytes_size(2) [of "unat (sz - acc)" rx bs rx1] rd "1.prems" True
      by (auto simp: unat_sub less_imp_le word_less_nat_alt)
    with True rd "1.IH"(1) [OF True rd [symmetric]] "1.IH"(2) [OF True rd [symmetric]] "1.prems"
    show ?thesis
      by (subst read_loop.simps) (auto simp: buf_store_ok split: read_result.splits)
  qed (subst read_loop.simps, simp)
qed

lemma read_until_no_ub:
  "unat sz \<le> cap \<Longrightarrow> \<exists>n buf' rx'. read_until cap buf sz rx = Inr (n, buf', rx')"
  by (simp add: read_until_def read_loop_no_ub)

section \<open>Properties\<close>

text \<open>C34. Exact reads: however the stream is cut into segments, as long as no read fails,
  \<^verbatim>\<open>read_until\<close> collects exactly the next \<open>sz\<close> bytes in order and leaves the rest; at the end
  of the stream it returns 0 with what there was in the buffer.\<close>

theorem read_until_reassembles:
  assumes "unat sz \<le> cap" "unat sz \<le> SSIZE_MAX" "Rd_error \<notin> set rx"
  shows "\<exists>rx'. read_until cap buf sz rx =
      Inr (if unat sz \<le> length (rx_bytes rx) then sz else 0, mem_write buf 0 (take (unat sz) (rx_bytes rx)), rx') \<and>
    rx_bytes rx' = drop (unat sz) (rx_bytes rx)"
proof (cases "unat sz \<le> length (rx_bytes rx)")
  case True
  with read_until_collects [OF assms(1,2), of rx buf] show ?thesis by simp
next
  case False
  with read_until_eof [OF assms, of buf] show ?thesis by simp
qed

theorem read_until_reassembles_witness:
  "\<exists>rx'. read_until 8 zero_buf 4 [Chunk 1 [2], Chunk 3 [], Chunk 4 [5, 6]] = Inr (4, mem_write zero_buf 0 [1, 2, 3, 4], rx') \<and>
     rx_bytes rx' = [5, 6]"
  using read_until_reassembles [of 4 8 "[Chunk 1 [2], Chunk 3 [], Chunk 4 [5, 6]]" zero_buf]
  by (simp add: SSIZE_MAX_def)

text \<open>C35. What callers of \<^verbatim>\<open>read_until\<close> have to expect on any input, failures included: for a
  buffer of at least \<open>sz\<close> bytes the call returns \<open>sz\<close>, 0 or, after a failed read,
  \<^verbatim>\<open>SIZE_MAX\<close>, and nothing is written outside the buffer; for a smaller buffer it is
  overrun as soon as enough bytes arrive; a read that fails at once gives \<^verbatim>\<open>SIZE_MAX\<close>.\<close>

theorem read_until_outcomes:
  assumes "0 < sz" "unat sz \<le> SSIZE_MAX"
  shows "(unat sz \<le> cap \<longrightarrow> (\<exists>n \<in> {sz, 0, - 1}. \<exists>buf' rx'. read_until cap buf sz rx = Inr (n, buf', rx'))) \<and>
    (cap < unat sz \<and> cap < length (rx_bytes rx) \<longrightarrow> read_until cap buf sz rx = Inl (UB Out_of_bounds)) \<and>
    read_until cap buf sz (Rd_error # rx) = Inr (- 1, buf, rx)"
proof (intro conjI impI)
  assume "unat sz \<le> cap"
  from read_until_no_ub [OF this, of buf rx] obtain n buf' rx' where r: "read_until cap buf sz rx = Inr (n, buf', rx')"
    by blast
  with read_until_result(1) [OF r] show "\<exists>n \<in> {sz, 0, - 1}. \<exists>buf' rx'. read_until cap buf sz rx = Inr (n, buf', rx')"
    by blast
next
  assume "cap < unat sz \<and> cap < length (rx_bytes rx)"
  then show "read_until cap buf sz rx = Inl (UB Out_of_bounds)"
    using read_loop_overflows [of 0 cap sz rx buf] assms(2) by (simp add: read_until_def)
qed (rule read_until_error_first [OF assms])

theorem read_until_outcomes_witness:
  "read_until 2 zero_buf 4 [Chunk 1 [2, 3]] = Inl (UB Out_of_bounds) \<and>
   read_until 8 zero_buf 4 [Rd_error, Chunk 1 []] = Inr (- 1, zero_buf, [Chunk 1 []])"
  using read_until_outcomes [of 4 2 zero_buf "[Chunk 1 [2, 3]]"] read_until_outcomes [of 4 8 zero_buf "[Chunk 1 []]"]
  by (simp add: SSIZE_MAX_def)

text \<open>\<^verbatim>\<open>bit_cardinality_16\<close> counts the bits that are set, and so is between 0 and 16.\<close>

lemma bit_cardinality_counts:
  "bit_cardinality_16 w = int (card {i. bit w i}) \<and> 0 \<le> bit_cardinality_16 w \<and> bit_cardinality_16 w \<le> 16"
  by (metis bit_cardinality_16_card bit_cardinality_16_bounds)

end
