(* ===== verification/Connection_State.thy ===== *)
theory Connection_State
  imports Util
begin

text \<open>
  \<^verbatim>\<open>src/connection_state.h\<close>: what a connection keeps. The socket \<^verbatim>\<open>connfd\<close> is represented by
  what its reads will find (\<open>rx\<close>) and what was written to it (\<open>tx\<close>, one list of bytes
  per \<^verbatim>\<open>write\<close>, each taken whole). The pool is the one the connections share and is passed
  beside the connection; a queue pointer is an index, \<open>None\<close> for \<^verbatim>\<open>NULL\<close>.
\<close>

definition ERROR_MSG_SIZE :: nat where
  "ERROR_MSG_SIZE = 128"

record connection_state =
  connfd :: int
  tid :: int
  current_queue :: "nat option"
  recvline :: buf
  sendline :: buf
  parsed :: buf
  current_queue_name :: buf
  error_msg :: string
  rx :: "rx_event list"
  tx :: "byte list list"

text \<open>The initialiser of \<^verbatim>\<open>state_machine_main\<close>: the arrays it does not name are zero.\<close>

definition init_connection :: "int \<Rightarrow> int \<Rightarrow> rx_event list \<Rightarrow> connection_state" where
  "init_connection fd thread input =
     \<lparr>connfd = fd, tid = thread, current_queue = None, recvline = zero_buf, sendline = zero_buf,
      parsed = zero_buf, current_queue_name = zero_buf(0 := 0), error_msg = ''Unknown'',
      rx = input, tx = []\<rparr>"

text \<open>\<^verbatim>\<open>write(connfd, sendline, n)\<close>\<close>

definition write_sendline :: "connection_state \<Rightarrow> nat \<Rightarrow> connection_state result" where
  "write_sendline cs n =
     bindE (buf_load MAXLINE (sendline cs) 0 n) (\<lambda>bs. Inr (cs\<lparr>tx := tx cs @ [bs]\<rparr>))"

text \<open>A store into \<^verbatim>\<open>cs->sendline\<close>.\<close>

definition put_sendline :: "nat \<Rightarrow> byte list \<Rightarrow> connection_state \<Rightarrow> connection_state result" where
  "put_sendline off bs cs =
     bindE (buf_store MAXLINE (sendline cs) off bs) (\<lambda>b. Inr (cs\<lparr>sendline := b\<rparr>))"

text \<open>\<^verbatim>\<open>read_until(cs->connfd, cs->recvline, n)\<close>\<close>

definition recv :: "connection_state \<Rightarrow> 64 word \<Rightarrow> (64 word \<times> connection_state) result" where
  "recv cs n =
     bindE (read_until MAXLINE (recvline cs) n (rx cs)) (\<lambda>(k, b, r).
       Inr (k, cs\<lparr>recvline := b, rx := r\<rparr>))"

lemma put_sendline_eq_Inr [simp]:
  "put_sendline off bs cs = Inr cs' \<longleftrightarrow>
     off + length bs \<le> MAXLINE \<and> cs' = cs\<lparr>sendline := mem_write (sendline cs) off bs\<rparr>"
  by (auto simp: put_sendline_def bindE_eq_Inr)

lemma put_sendline_ok:
  "off + length bs \<le> MAXLINE \<Longrightarrow>
   put_sendline off bs cs = Inr (cs\<lparr>sendline := mem_write (sendline cs) off bs\<rparr>)"
  by simp

lemma write_sendline_ok:
  "n \<le> MAXLINE \<Longrightarrow> write_sendline cs n = Inr (cs\<lparr>tx := tx cs @ [mem_read (sendline cs) 0 n]\<rparr>)"
  by (simp add: write_sendline_def buf_load_ok)

lemma write_sendline_eq_Inr:
  "write_sendline cs n = Inr cs' \<longleftrightarrow>
     n \<le> MAXLINE \<and> cs' = cs\<lparr>tx := tx cs @ [mem_read (sendline cs) 0 n]\<rparr>"
  by (auto simp: write_sendline_def bindE_eq_Inr)

text \<open>What a read keeps and what it uses up.\<close>

lemma recv_collects:
  assumes "unat n \<le> MAXLINE" "unat n \<le> length (rx_bytes (rx cs))"
  shows "\<exists>r. recv cs n = Inr (n, cs\<lparr>recvline := mem_write (recvline cs) 0 (take (unat n) (rx_bytes (rx cs))), rx := r\<rparr>) \<and>
    rx_bytes r = drop (unat n) (rx_bytes (rx cs))"
proof -
  have "unat n \<le> SSIZE_MAX" using assms(1) by (simp add: MAXLINE_def SSIZE_MAX_def)
  from read_until_collects [OF assms(1) this assms(2), of "recvline cs"]
  show ?thesis by (auto simp: recv_def)
qed

lemma recv_no_ub: "unat n \<le> MAXLINE \<Longrightarrow> \<exists>k cs'. recv cs n = Inr (k, cs')"
  using read_until_no_ub [of n MAXLINE "recvline cs" "rx cs"] by (auto simp: recv_def)

lemma recv_result:
  assumes "recv cs n = Inr (k, cs')"
  shows "k = 0 \<or> k = n \<or> k = - 1" "rx_size (rx cs') \<le> rx_size (rx cs)"
    "n \<noteq> 0 \<Longrightarrow> unat n \<le> SSIZE_MAX \<Longrightarrow> k \<noteq> 0 \<Longrightarrow> rx_size (rx cs') < rx_size (rx cs)"
    "\<exists>b r. cs' = cs\<lparr>recvline := b, rx := r\<rparr>"
  using assms read_until_result [of MAXLINE "recvline cs" n "rx cs"]
  by (auto simp: recv_def bindE_eq_Inr)

lemma recv_0 [simp]: "recv cs 0 = Inr (0, cs)"
  by (simp add: recv_def)

lemma recv_eof:
  assumes "unat n \<le> MAXLINE" "Rd_error \<notin> set (rx cs)" "length (rx_bytes (rx cs)) < unat n"
  shows "recv cs n = Inr (0, cs\<lparr>recvline := mem_write (recvline cs) 0 (rx_bytes (rx cs)), rx := []\<rparr>)"
proof -
  have "unat n \<le> SSIZE_MAX" using assms(1) by (simp add: MAXLINE_def SSIZE_MAX_def)
  with read_until_eof [OF assms(1) this assms(2,3)] show ?thesis by (simp add: recv_def)
qed

end
