(* ===== verification/Hardcoded_Values.thy ===== *)
theory Hardcoded_Values
  imports Prelude
begin

text \<open>
  \<^verbatim>\<open>src/hardcoded_values.c\<close>: the argument bytes of the replies that never change, and the
  sizes they are sent with. Each array of the program holds these bytes and the zero byte
  that ends a C string literal.
\<close>

definition CONNECTION_START_ARGS :: "byte list" where
  "CONNECTION_START_ARGS =
   [0x00, 0x09, 0x00, 0x00, 0x01, 0xd2, 0x0c, 0x63, 0x61, 0x70, 0x61, 0x62, 0x69, 0x6c, 0x69, 0x74,
    0x69, 0x65, 0x73, 0x46, 0x00, 0x00, 0x00, 0xc7, 0x12, 0x70, 0x75, 0x62, 0x6c, 0x69, 0x73, 0x68,
    0x65, 0x72, 0x5f, 0x63, 0x6f, 0x6e, 0x66, 0x69, 0x72, 0x6d, 0x73, 0x74, 0x01, 0x1a, 0x65, 0x78,
    0x63, 0x68, 0x61, 0x6e, 0x67, 0x65, 0x5f, 0x65, 0x78, 0x63, 0x68, 0x61, 0x6e, 0x67, 0x65, 0x5f,
    0x62, 0x69, 0x6e, 0x64, 0x69, 0x6e, 0x67, 0x73, 0x74, 0x01, 0x0a, 0x62, 0x61, 0x73, 0x69, 0x63,
    0x2e, 0x6e, 0x61, 0x63, 0x6b, 0x74, 0x01, 0x16, 0x63, 0x6f, 0x6e, 0x73, 0x75, 0x6d, 0x65, 0x72,
    0x5f, 0x63, 0x61, 0x6e, 0x63, 0x65, 0x6c, 0x5f, 0x6e, 0x6f, 0x74, 0x69, 0x66, 0x79, 0x74, 0x01,
    0x12, 0x63, 0x6f, 0x6e, 0x6e, 0x65, 0x63, 0x74, 0x69, 0x6f, 0x6e, 0x2e, 0x62, 0x6c, 0x6f, 0x63,
    0x6b, 0x65, 0x64, 0x74, 0x01, 0x13, 0x63, 0x6f, 0x6e, 0x73, 0x75, 0x6d, 0x65, 0x72, 0x5f, 0x70,
    0x72, 0x69, 0x6f, 0x72, 0x69, 0x74, 0x69, 0x65, 0x73, 0x74, 0x01, 0x1c, 0x61, 0x75, 0x74, 0x68,
    0x65, 0x6e, 0x74, 0x69, 0x63, 0x61, 0x74, 0x69, 0x6f, 0x6e, 0x5f, 0x66, 0x61, 0x69, 0x6c, 0x75,
    0x72, 0x65, 0x5f, 0x63, 0x6c, 0x6f, 0x73, 0x65, 0x74, 0x01, 0x10, 0x70, 0x65, 0x72, 0x5f, 0x63,
    0x6f, 0x6e, 0x73, 0x75, 0x6d, 0x65, 0x72, 0x5f, 0x71, 0x6f, 0x73, 0x74, 0x01, 0x0f, 0x64, 0x69,
    0x72, 0x65, 0x63, 0x74, 0x5f, 0x72, 0x65, 0x70, 0x6c, 0x79, 0x5f, 0x74, 0x6f, 0x74, 0x01, 0x0c,
    0x63, 0x6c, 0x75, 0x73, 0x74, 0x65, 0x72, 0x5f, 0x6e, 0x61, 0x6d, 0x65, 0x53, 0x00, 0x00, 0x00,
    0x10, 0x72, 0x61, 0x62, 0x62, 0x69, 0x74, 0x40, 0x6d, 0x79, 0x2d, 0x72, 0x61, 0x62, 0x62, 0x69,
    0x74, 0x09, 0x63, 0x6f, 0x70, 0x79, 0x72, 0x69, 0x67, 0x68, 0x74, 0x53, 0x00, 0x00, 0x00, 0x37,
    0x43, 0x6f, 0x70, 0x79, 0x72, 0x69, 0x67, 0x68, 0x74, 0x20, 0x28, 0x63, 0x29, 0x20, 0x32, 0x30,
    0x30, 0x37, 0x2d, 0x32, 0x30, 0x32, 0x32, 0x20, 0x56, 0x4d, 0x77, 0x61, 0x72, 0x65, 0x2c, 0x20,
    0x49, 0x6e, 0x63, 0x2e, 0x20, 0x6f, 0x72, 0x20, 0x69, 0x74, 0x73, 0x20, 0x61, 0x66, 0x66, 0x69,
    0x6c, 0x69, 0x61, 0x74, 0x65, 0x73, 0x2e, 0x0b, 0x69, 0x6e, 0x66, 0x6f, 0x72, 0x6d, 0x61, 0x74,
    0x69, 0x6f, 0x6e, 0x53, 0x00, 0x00, 0x00, 0x39, 0x4c, 0x69, 0x63, 0x65, 0x6e, 0x73, 0x65, 0x64,
    0x20, 0x75, 0x6e, 0x64, 0x65, 0x72, 0x20, 0x74, 0x68, 0x65, 0x20, 0x4d, 0x50, 0x4c, 0x20, 0x32,
    0x2e, 0x30, 0x2e, 0x20, 0x57, 0x65, 0x62, 0x73, 0x69, 0x74, 0x65, 0x3a, 0x20, 0x68, 0x74, 0x74,
    0x70, 0x73, 0x3a, 0x2f, 0x2f, 0x72, 0x61, 0x62, 0x62, 0x69, 0x74, 0x6d, 0x71, 0x2e, 0x63, 0x6f,
    0x6d, 0x08, 0x70, 0x6c, 0x61, 0x74, 0x66, 0x6f, 0x72, 0x6d, 0x53, 0x00, 0x00, 0x00, 0x11, 0x45,
    0x72, 0x6c, 0x61, 0x6e, 0x67, 0x2f, 0x4f, 0x54, 0x50, 0x20, 0x32, 0x35, 0x2e, 0x30, 0x2e, 0x34,
    0x07, 0x70, 0x72, 0x6f, 0x64, 0x75, 0x63, 0x74, 0x53, 0x00, 0x00, 0x00, 0x08, 0x52, 0x61, 0x62,
    0x62, 0x69, 0x74, 0x4d, 0x51, 0x07, 0x76, 0x65, 0x72, 0x73, 0x69, 0x6f, 0x6e, 0x53, 0x00, 0x00,
    0x00, 0x06, 0x33, 0x2e, 0x31, 0x30, 0x2e, 0x37, 0x00, 0x00, 0x00, 0x0e, 0x41, 0x4d, 0x51, 0x50,
    0x4c, 0x41, 0x49, 0x4e, 0x20, 0x50, 0x4c, 0x41, 0x49, 0x4e, 0x00, 0x00, 0x00, 0x05, 0x65, 0x6e,
    0x5f, 0x55, 0x53]"

definition CONNECTION_START_ARGS_SIZE :: nat where
  "CONNECTION_START_ARGS_SIZE = 499"

definition CONNECTION_TUNE_ARGS :: "byte list" where
  "CONNECTION_TUNE_ARGS =
   [0x07, 0xff, 0x00, 0x02, 0x00, 0x00, 0x00, 0x3c]"

definition CONNECTION_TUNE_ARGS_SIZE :: nat where
  "CONNECTION_TUNE_ARGS_SIZE = 8"

definition CONNECTION_OPEN_OK_ARGS :: "byte list" where
  "CONNECTION_OPEN_OK_ARGS =
   [0x00]"

definition CONNECTION_OPEN_OK_ARGS_SIZE :: nat where
  "CONNECTION_OPEN_OK_ARGS_SIZE = 1"

definition ARGS_EMPTY :: "byte list" where
  "ARGS_EMPTY =
   []"

definition ARGS_EMPTY_SIZE :: nat where
  "ARGS_EMPTY_SIZE = 0"

definition CHANNEL_OPEN_OK_ARGS :: "byte list" where
  "CHANNEL_OPEN_OK_ARGS =
   [0x00, 0x00, 0x00, 0x00]"

definition CHANNEL_OPEN_OK_ARGS_SIZE :: nat where
  "CHANNEL_OPEN_OK_ARGS_SIZE = 4"

definition BASIC_CONSUME_OK_ARGS :: "byte list" where
  "BASIC_CONSUME_OK_ARGS =
   [0x00, 0x00, 0x00, 0x00, 0x00, 0x00, 0x00, 0x01, 0x00]"

definition BASIC_CONSUME_OK_ARGS_SIZE :: nat where
  "BASIC_CONSUME_OK_ARGS_SIZE = 13"

definition BASIC_DELIVER_ARGS :: "byte list" where
  "BASIC_DELIVER_ARGS =
   [0x1f, 0x61, 0x6d, 0x71, 0x2e, 0x63, 0x74, 0x61, 0x67, 0x2d, 0x56, 0x64, 0x34, 0x59, 0x53, 0x35,
    0x52, 0x49, 0x32, 0x34, 0x5f, 0x2d, 0x71, 0x48, 0x68, 0x61, 0x6e, 0x51, 0x4e, 0x51, 0x4a, 0x67,
    0x00, 0x00, 0x00, 0x00, 0x00, 0x00, 0x00, 0x01, 0x00, 0x00, 0x07, 0x63, 0x68, 0x65, 0x65, 0x74,
    0x6f, 0x73]"

definition BASIC_DELIVER_ARGS_SIZE :: nat where
  "BASIC_DELIVER_ARGS_SIZE = 50"

definition CONTENT_HEADER_PROPERTIES :: "byte list" where
  "CONTENT_HEADER_PROPERTIES =
   [0x01]"

text \<open>The sizes against the bytes there are: all agree but that of the consume-ok arguments.\<close>

lemma length_hardcoded [simp]:
  "length CONNECTION_START_ARGS = 499"
  "length CONNECTION_TUNE_ARGS = 8"
  "length CONNECTION_OPEN_OK_ARGS = 1"
  "length ARGS_EMPTY = 0"
  "length CHANNEL_OPEN_OK_ARGS = 4"
  "length BASIC_CONSUME_OK_ARGS = 9"
  "length BASIC_DELIVER_ARGS = 50"
  "length CONTENT_HEADER_PROPERTIES = 1"
  by (simp_all add: CONNECTION_START_ARGS_def CONNECTION_TUNE_ARGS_def CONNECTION_OPEN_OK_ARGS_def ARGS_EMPTY_def CHANNEL_OPEN_OK_ARGS_def BASIC_CONSUME_OK_ARGS_def BASIC_DELIVER_ARGS_def CONTENT_HEADER_PROPERTIES_def)

lemmas hardcoded_sizes =
  CONNECTION_START_ARGS_SIZE_def
  CONNECTION_TUNE_ARGS_SIZE_def
  CONNECTION_OPEN_OK_ARGS_SIZE_def
  ARGS_EMPTY_SIZE_def
  CHANNEL_OPEN_OK_ARGS_SIZE_def
  BASIC_CONSUME_OK_ARGS_SIZE_def
  BASIC_DELIVER_ARGS_SIZE_def

end
