(* ===== verification/Amqp_Message.thy ===== *)
theory Amqp_Message
  imports Connection_State Hardcoded_Values
begin

text \<open>
  \<^verbatim>\<open>src/amqp_message.c\<close>: the AMQP frames the broker reads and writes. A packed struct is its
  bytes in memory order; a \<^verbatim>\<open>memcpy\<close> between a struct and a buffer followed by the byte-order
  conversions of the code becomes \<open>le_word\<close>/\<open>le_bytes\<close> on those bytes with the
  conversions where the code has them.
\<close>

section \<open>Constants\<close>

definition METHOD :: byte where [c_simps]: "METHOD = 1"
definition CONTENT_HEADER :: byte where [c_simps]: "CONTENT_HEADER = 2"
definition BODY :: byte where [c_simps]: "BODY = 3"
definition HEARTBEAT :: byte where [c_simps]: "HEARTBEAT = 4"

definition CONNECTION :: "16 word" where [c_simps]: "CONNECTION = 10"
definition CHANNEL :: "16 word" where [c_simps]: "CHANNEL = 20"
definition EXCHANGE :: "16 word" where [c_simps]: "EXCHANGE = 40"
definition QUEUE :: "16 word" where [c_simps]: "QUEUE = 50"
definition BASIC :: "16 word" where [c_simps]: "BASIC = 60"
definition TX :: "16 word" where [c_simps]: "TX = 80"

definition CONNECTION_START :: "16 word" where [c_simps]: "CONNECTION_START = 10"
definition CONNECTION_START_OK :: "16 word" where [c_simps]: "CONNECTION_START_OK = 11"
definition CONNECTION_TUNE :: "16 word" where [c_simps]: "CONNECTION_TUNE = 30"
definition CONNECTION_TUNE_OK :: "16 word" where [c_simps]: "CONNECTION_TUNE_OK = 31"
definition CONNECTION_OPEN :: "16 word" where [c_simps]: "CONNECTION_OPEN = 40"
definition CONNECTION_OPEN_OK :: "16 word" where [c_simps]: "CONNECTION_OPEN_OK = 41"
definition CONNECTION_CLOSE :: "16 word" where [c_simps]: "CONNECTION_CLOSE = 50"
definition CONNECTION_CLOSE_OK :: "16 word" where [c_simps]: "CONNECTION_CLOSE_OK = 51"
definition CHANNEL_OPEN :: "16 word" where [c_simps]: "CHANNEL_OPEN = 10"
definition CHANNEL_OPEN_OK :: "16 word" where [c_simps]: "CHANNEL_OPEN_OK = 11"
definition CHANNEL_CLOSE :: "16 word" where [c_simps]: "CHANNEL_CLOSE = 40"
definition CHANNEL_CLOSE_OK :: "16 word" where [c_simps]: "CHANNEL_CLOSE_OK = 41"
definition QUEUE_DECLARE :: "16 word" where [c_simps]: "QUEUE_DECLARE = 10"
definition QUEUE_DECLARE_OK :: "16 word" where [c_simps]: "QUEUE_DECLARE_OK = 11"
definition BASIC_CONSUME :: "16 word" where [c_simps]: "BASIC_CONSUME = 20"
definition BASIC_CONSUME_OK :: "16 word" where [c_simps]: "BASIC_CONSUME_OK = 21"
definition BASIC_PUBLISH :: "16 word" where [c_simps]: "BASIC_PUBLISH = 40"
definition BASIC_DELIVER :: "16 word" where [c_simps]: "BASIC_DELIVER = 60"
definition BASIC_ACK :: "16 word" where [c_simps]: "BASIC_ACK = 80"

section \<open>Headers\<close>

record amqp_protocol_header =
  amqp :: "byte list"
  id_major :: byte
  id_minor :: byte
  version_major :: byte
  version_minor :: byte

record amqp_message_header =
  msg_type :: byte
  channel :: "16 word"
  msg_length :: "32 word"

record amqp_method_header =
  class_id :: "16 word"
  method_id :: "16 word"

record amqp_content_header_header =
  content_class :: "16 word"
  weight :: "16 word"
  body_size :: "64 word"
  property_flags :: "16 word"

definition default_amqp_header :: amqp_protocol_header where
  "default_amqp_header =
     \<lparr>amqp = [0x41, 0x4D, 0x51, 0x50], id_major = 0, id_minor = 0, version_major = 9, version_minor = 1\<rparr>"

definition protocol_header_bytes :: "amqp_protocol_header \<Rightarrow> byte list" where
  "protocol_header_bytes h = amqp h @ [id_major h, id_minor h, version_major h, version_minor h]"

text \<open>\<^verbatim>\<open>memcmp\<close>: the sign of the first difference.\<close>

fun memcmp :: "byte list \<Rightarrow> byte list \<Rightarrow> int" where
  "memcmp (a # as) (b # bs) = (if a = b then memcmp as bs else if a < b then - 1 else 1)"
| "memcmp _ _ = 0"

definition parse_protocol_header :: "buf \<Rightarrow> 64 word \<Rightarrow> int" where
  "parse_protocol_header s n =
     (if n < 8 then 1 else memcmp (mem_read s 0 8) (protocol_header_bytes default_amqp_header))"

definition read_protocol_header :: "connection_state \<Rightarrow> (int \<times> connection_state) result" where
  "read_protocol_header cs =
     bindE (recv cs 8) (\<lambda>(n, cs). Inr (parse_protocol_header (recvline cs) n, cs))"

text \<open>The struct of a message header over its seven bytes, converted to host order.\<close>

definition message_header_of :: "byte list \<Rightarrow> amqp_message_header" where
  "message_header_of bs =
     \<lparr>msg_type = bs ! 0, channel = ntohs (le_word (take 2 (drop 1 bs))),
      msg_length = ntohl (le_word (take 4 (drop 3 bs)))\<rparr>"

definition parse_message_header :: "buf \<Rightarrow> 64 word \<Rightarrow> amqp_message_header option" where
  "parse_message_header s n = (if n < 7 then None else Some (message_header_of (mem_read s 0 7)))"

definition unparse_message_header :: "amqp_message_header \<Rightarrow> byte list" where
  "unparse_message_header h =
     [msg_type h] @ le_bytes 2 (htons (channel h)) @ le_bytes 4 (htonl (msg_length h))"

definition read_message_header :: "connection_state \<Rightarrow> (amqp_message_header option \<times> connection_state) result" where
  "read_message_header cs =
     bindE (recv cs 7) (\<lambda>(n, cs). Inr (parse_message_header (recvline cs) n, cs))"

definition unparse_method_header :: "amqp_method_header \<Rightarrow> byte list" where
  "unparse_method_header h = le_bytes 2 (htons (class_id h)) @ le_bytes 2 (htons (method_id h))"

section \<open>Methods\<close>

text \<open>A 16-bit field of a struct in a buffer: load, store, and the conversion in place.\<close>

definition load16 :: "buf \<Rightarrow> nat \<Rightarrow> 16 word" where
  "load16 b off = le_word (mem_read b off 2)"

definition swap16 :: "nat \<Rightarrow> buf \<Rightarrow> buf" where
  "swap16 off b = mem_write b off (le_bytes 2 (ntohs (load16 b off)))"

text \<open>
  \<^verbatim>\<open>parse_method\<close>: copies \<^verbatim>\<open>header_size + n - 1\<close> bytes (in \<^verbatim>\<open>size_t\<close>) to the parsed buffer and
  converts class and method id there.
\<close>

definition parse_method :: "buf \<Rightarrow> 64 word \<Rightarrow> buf \<Rightarrow> (amqp_method_header option \<times> buf) result" where
  "parse_method s n p =
     (if n < 4 then Inr (None, p)
      else let k = unat (4 + n - 1) in
        bindE (buf_load MAXLINE s 0 k) (\<lambda>bs.
        bindE (buf_store MAXLINE p 0 bs) (\<lambda>p.
        let p = swap16 0 p; p = swap16 2 p
        in Inr (Some \<lparr>class_id = load16 p 0, method_id = load16 p 2\<rparr>, p))))"

text \<open>
  The argument of \<^verbatim>\<open>read_method\<close> and its like is an \<^verbatim>\<open>int\<close>; it becomes a \<^verbatim>\<open>size_t\<close> by sign
  extension. The arguments of the method stay in \<^verbatim>\<open>cs->parsed\<close>, from offset 4.
\<close>

definition read_method :: "connection_state \<Rightarrow> int \<Rightarrow> (amqp_method_header option \<times> connection_state) result" where
  "read_method cs len =
     bindE (recv cs (word_of_int len)) (\<lambda>(n, cs).
     if n = 0 then Inr (None, cs)
     else bindE (parse_method (recvline cs) n (parsed cs)) (\<lambda>(m, p).
       let cs = cs\<lparr>parsed := p\<rparr> in
       if m = None then Inr (None, cs)
       else bindE (recv cs 1) (\<lambda>(k, cs).
         if k = 0 then Inr (None, cs) else Inr (m, cs))))"

text \<open>
  The senders. \<open>arguments\<close> is the object the pointer leads to, from where it points: reading
  more than it has is undefined behaviour.
\<close>

definition send_method ::
  "connection_state \<Rightarrow> 16 word \<Rightarrow> 16 word \<Rightarrow> 16 word \<Rightarrow> byte list \<Rightarrow> nat \<Rightarrow> connection_state result" where
  "send_method cs cls mth chan arguments args_size =
     (let message_header = \<lparr>msg_type = METHOD, channel = chan, msg_length = of_nat (args_size + 4)\<rparr>;
          method_header = \<lparr>class_id = cls, method_id = mth\<rparr>;
          unparsed = unparse_message_header message_header @ unparse_method_header method_header;
          header_size = 7 + 4 in
      bindE (put_sendline 0 unparsed cs) (\<lambda>cs.
      bindE (assertE Out_of_bounds (args_size \<le> length arguments)) (\<lambda>_.
      bindE (put_sendline header_size (take args_size arguments) cs) (\<lambda>cs.
      bindE (put_sendline (header_size + args_size) [0xce] cs) (\<lambda>cs.
        write_sendline cs (header_size + args_size + 1))))))"

text \<open>\<^verbatim>\<open>fill_short_string\<close> into the local array of 300 bytes of its caller.\<close>

definition fill_short_string :: "buf \<Rightarrow> buf \<Rightarrow> (nat \<times> buf) result" where
  "fill_short_string str amqp_str =
     bindE (cstring MAX_QUEUE_NAME str 0) (\<lambda>bs.
     bindE (buf_store 300 amqp_str 0 [of_nat (length bs)]) (\<lambda>a.
     bindE (buf_store 300 a 1 (bs @ [0])) (\<lambda>a.
       Inr (length bs, a))))"

definition send_queue_declare_ok ::
  "connection_state \<Rightarrow> 16 word \<Rightarrow> buf \<Rightarrow> 32 word \<Rightarrow> 32 word \<Rightarrow> connection_state result" where
  "send_queue_declare_ok cs chan queue_name message_count consumer_count =
     bindE (fill_short_string queue_name zero_buf) (\<lambda>(name_size, arguments).
     let count_bytes = le_bytes 4 (htonl message_count) @ le_bytes 4 (htonl consumer_count) in
     bindE (buf_store 300 arguments (2 + name_size - 1) count_bytes) (\<lambda>arguments.
     let args_size = 2 + name_size - 1 + 8 in
     bindE (buf_load 300 arguments 0 args_size) (\<lambda>bs.
       send_method cs QUEUE QUEUE_DECLARE_OK chan bs args_size)))"

section \<open>Arguments of methods\<close>

text \<open>
  The three parsers take the queue name out of the arguments, at offset 4 of the parsed
  buffer, into \<^verbatim>\<open>cs->current_queue_name\<close>; offsets are those of the code past the two bytes of
  the ticket.
\<close>

definition parse_queue_declare_args :: "buf \<Rightarrow> buf \<Rightarrow> buf result" where
  "parse_queue_declare_args p queue_name =
     (let short_str = 4 + 2; sz = unat (p short_str) in
      bindE (buf_load MAXLINE p (short_str + 1) sz) (\<lambda>bs.
      bindE (buf_store MAX_QUEUE_NAME queue_name 0 bs) (\<lambda>q.
        buf_store MAX_QUEUE_NAME q sz [0])))"

definition parse_basic_publish_args :: "buf \<Rightarrow> buf \<Rightarrow> buf result" where
  "parse_basic_publish_args p queue_name =
     (let exchange_short_str = 4 + 2;
          queue_short_str = 4 + 3 + unat (p exchange_short_str);
          sz = unat (p queue_short_str) in
      bindE (buf_load MAXLINE p (queue_short_str + 1) sz) (\<lambda>bs.
      bindE (buf_store MAX_QUEUE_NAME queue_name 0 (strncpy_bytes bs)) (\<lambda>q.
        buf_store MAX_QUEUE_NAME q sz [0])))"

definition parse_basic_consume_args :: "buf \<Rightarrow> buf \<Rightarrow> buf result" where
  "parse_basic_consume_args p queue_name =
     (let short_str = 4 + 2; sz = unat (p short_str) in
      bindE (buf_load MAXLINE p (short_str + 1) sz) (\<lambda>bs.
      bindE (buf_store MAX_QUEUE_NAME queue_name 0 (strncpy_bytes bs)) (\<lambda>q.
        buf_store MAX_QUEUE_NAME q sz [0])))"

section \<open>Content\<close>

definition load64 :: "buf \<Rightarrow> nat \<Rightarrow> 64 word" where
  "load64 b off = le_word (mem_read b off 8)"

definition unparse_content_header_header :: "amqp_content_header_header \<Rightarrow> byte list" where
  "unparse_content_header_header h =
     le_bytes 2 (htons (content_class h)) @ le_bytes 2 (htons (weight h)) @
     le_bytes 8 (swipe_endianness_64 (body_size h)) @ le_bytes 2 (htons (property_flags h))"

text \<open>\<^verbatim>\<open>parse_content_header\<close> is given the length the frame announces.\<close>

definition parse_content_header ::
  "buf \<Rightarrow> 64 word \<Rightarrow> buf \<Rightarrow> (amqp_content_header_header option \<times> buf) result" where
  "parse_content_header s n p =
     (if n < 14 then Inr (None, p)
      else bindE (buf_load MAXLINE s 0 14) (\<lambda>bs.
           bindE (buf_store MAXLINE p 0 bs) (\<lambda>p.
           let p = swap16 0 p; p = swap16 2 p;
               p = mem_write p 4 (le_bytes 8 (swipe_endianness_64 (load64 p 4)));
               p = swap16 12 p
           in Inr (Some \<lparr>content_class = load16 p 0, weight = load16 p 2, body_size = load64 p 4,
                         property_flags = load16 p 12\<rparr>, p))))"

definition read_content_header ::
  "connection_state \<Rightarrow> int \<Rightarrow> (amqp_content_header_header option \<times> connection_state) result" where
  "read_content_header cs len =
     bindE (recv cs (word_of_int len)) (\<lambda>(n, cs).
     bindE (parse_content_header (recvline cs) (word_of_int len) (parsed cs)) (\<lambda>(header, p).
     let cs = cs\<lparr>parsed := p\<rparr> in
     bindE (recv cs 1) (\<lambda>(n, cs). Inr (if n = 0 then None else header, cs))))"

definition send_content_header ::
  "connection_state \<Rightarrow> 16 word \<Rightarrow> 16 word \<Rightarrow> 16 word \<Rightarrow> 64 word \<Rightarrow> 16 word \<Rightarrow> byte list \<Rightarrow>
   connection_state result" where
  "send_content_header cs cls chan wgt bsize flags properties =
     (let properties_size = nat (bit_cardinality_16 flags);
          message_header = \<lparr>msg_type = CONTENT_HEADER, channel = chan, msg_length = of_nat (14 + properties_size)\<rparr>;
          header_header = \<lparr>content_class = cls, weight = wgt, body_size = bsize, property_flags = flags\<rparr> in
      bindE (put_sendline 0 (unparse_message_header message_header) cs) (\<lambda>cs.
      bindE (put_sendline 7 (unparse_content_header_header header_header) cs) (\<lambda>cs.
      bindE (assertE Out_of_bounds (properties_size \<le> length properties)) (\<lambda>_.
      bindE (put_sendline (7 + 14) (take properties_size properties) cs) (\<lambda>cs.
      bindE (put_sendline (7 + 14 + properties_size) [0xce] cs) (\<lambda>cs.
        write_sendline cs (7 + 14 + properties_size + 1)))))))"

text \<open>
  \<^verbatim>\<open>read_body\<close> returns \<^verbatim>\<open>cs->parsed\<close>. \<^verbatim>\<open>length + 1\<close> is \<^verbatim>\<open>int\<close> arithmetic, and \<^verbatim>\<open>n\<close> is an \<^verbatim>\<open>int\<close> that
  goes back to a \<^verbatim>\<open>size_t\<close> in the \<^verbatim>\<open>memcpy\<close>.
\<close>

definition read_body :: "connection_state \<Rightarrow> int \<Rightarrow> connection_state result" where
  "read_body cs len =
     bindE (assertE Signed_overflow (len < 2 ^ 31 - 1)) (\<lambda>_.
     bindE (recv cs (word_of_int (len + 1))) (\<lambda>(k, cs).
     let n = sint (ucast k :: 32 word); m = unat (word_of_int n :: 64 word) in
     bindE (buf_load MAXLINE (recvline cs) 0 m) (\<lambda>bs.
     bindE (buf_store MAXLINE (parsed cs) 0 bs) (\<lambda>body.
     bindE (assertE Out_of_bounds (0 \<le> len)) (\<lambda>_.
     bindE (buf_store MAXLINE body (nat len) [0]) (\<lambda>body.
       Inr (cs\<lparr>parsed := body\<rparr>)))))))"

definition send_body :: "connection_state \<Rightarrow> int \<Rightarrow> byte list \<Rightarrow> nat \<Rightarrow> connection_state result" where
  "send_body cs chan payload n =
     (let message_header = \<lparr>msg_type = BODY, channel = word_of_int chan, msg_length = of_nat n\<rparr> in
      bindE (put_sendline 0 (unparse_message_header message_header) cs) (\<lambda>cs.
      bindE (assertE Out_of_bounds (n \<le> length payload)) (\<lambda>_.
      bindE (put_sendline 7 (take n payload) cs) (\<lambda>cs.
      bindE (put_sendline (7 + n) [0xce] cs) (\<lambda>cs.
        write_sendline cs (7 + n + 1))))))"

section \<open>Struct layouts are network order\<close>

lemma unparse_message_header_be:
  "unparse_message_header h = [msg_type h] @ be_bytes 2 (channel h) @ be_bytes 4 (msg_length h)"
  by (simp add: unparse_message_header_def)

lemma unparse_method_header_be:
  "unparse_method_header h = be_bytes 2 (class_id h) @ be_bytes 2 (method_id h)"
  by (simp add: unparse_method_header_def)

lemma length_unparse [simp]:
  "length (unparse_message_header h) = 7" "length (unparse_method_header m) = 4"
  "length (unparse_content_header_header c) = 14"
  by (simp_all add: unparse_message_header_def unparse_method_header_def unparse_content_header_header_def)

lemma message_header_of_be:
  "length bs = 7 \<Longrightarrow> message_header_of bs =
     \<lparr>msg_type = bs ! 0, channel = be_word (take 2 (drop 1 bs)), msg_length = be_word (take 4 (drop 3 bs))\<rparr>"
  by (simp add: message_header_of_def ntohs_le_word ntohl_le_word)

definition method_header_of :: "byte list \<Rightarrow> amqp_method_header" where
  "method_header_of bs = \<lparr>class_id = be_word (take 2 bs), method_id = be_word (take 2 (drop 2 bs))\<rparr>"

text \<open>
  A fixed-width codec: what is encoded is decoded again, and every string of the right
  length is the encoding of something. A reader can then take such headers off a stream.
\<close>

locale fixed_codec =
  fixes enc :: "'h \<Rightarrow> byte list" and dec :: "byte list \<Rightarrow> 'h" and width :: nat
  assumes width_law: "length (enc h) = width"
    and dec_enc: "dec (enc h) = h"
    and enc_dec: "length bs = width \<Longrightarrow> enc (dec bs) = bs"
begin

lemma enc_inject: "enc h = enc h' \<longleftrightarrow> h = h'"
  by (metis dec_enc)

lemma dec_stream: "dec (take width (enc h @ rest)) = h" "drop width (enc h @ rest) = rest"
  by (simp_all add: width_law [of h, symmetric] dec_enc)

lemma stream_inject: "enc h @ r = enc h' @ r' \<longleftrightarrow> h = h' \<and> r = r'"
  by (simp add: append_eq_append_conv width_law enc_inject)

end

lemma take_append_length: "n = length xs \<Longrightarrow> take n (xs @ ys) = xs" "n = length xs \<Longrightarrow> drop n (xs @ ys) = ys"
  by simp_all

interpretation message_codec: fixed_codec unparse_message_header message_header_of 7
proof
  show "message_header_of (unparse_message_header h) = h" for h
    by (simp add: message_header_of_be) (simp add: unparse_message_header_be be_word_be_bytes)
next
  fix bs :: "byte list"
  assume len: "length bs = 7"
  then have "be_bytes 2 (be_word (take 2 (drop 1 bs)) :: 16 word) = take 2 (drop 1 bs)"
    "be_bytes 4 (be_word (take 4 (drop 3 bs)) :: 32 word) = take 4 (drop 3 bs)"
    using be_bytes_be_word [of "take 2 (drop 1 bs)", where 'a = 16]
      be_bytes_be_word [of "take 4 (drop 3 bs)", where 'a = 32] by simp_all
  moreover have "[bs ! 0] @ take 2 (drop 1 bs) @ take 4 (drop 3 bs) = bs"
    using len by (auto simp: list_eq_iff_nth_eq nth_append nth_Cons split: nat.split)
  ultimately show "unparse_message_header (message_header_of bs) = bs"
    by (simp add: unparse_message_header_be message_header_of_be len)
qed simp

interpretation method_codec: fixed_codec unparse_method_header method_header_of 4
proof
  show "method_header_of (unparse_method_header h) = h" for h
    by (simp add: method_header_of_def unparse_method_header_be be_word_be_bytes)
next
  fix bs :: "byte list"
  assume len: "length bs = 4"
  then have "be_bytes 2 (be_word (take 2 bs) :: 16 word) = take 2 bs"
    "be_bytes 2 (be_word (take 2 (drop 2 bs)) :: 16 word) = take 2 (drop 2 bs)"
    using be_bytes_be_word [of "take 2 bs", where 'a = 16]
      be_bytes_be_word [of "take 2 (drop 2 bs)", where 'a = 16] by simp_all
  moreover have "take 2 bs @ take 2 (drop 2 bs) = bs"
    using len by (auto simp: list_eq_iff_nth_eq nth_append)
  ultimately show "unparse_method_header (method_header_of bs) = bs"
    by (simp add: unparse_method_header_be method_header_of_def)
qed simp

section \<open>Frames sent\<close>

text \<open>The frame of the protocol: type, channel, length, payload, end mark.\<close>

definition frame :: "byte \<Rightarrow> 16 word \<Rightarrow> byte list \<Rightarrow> byte list" where
  "frame t ch payload =
     [t] @ be_bytes 2 ch @ be_bytes 4 (of_nat (length payload) :: 32 word) @ payload @ [0xce]"

text \<open>Stores one after the other from the start of the line, then the write.\<close>

lemma sendline_run:
  assumes "length bs + 1 \<le> MAXLINE"
  shows "\<exists>b. bindE (put_sendline (length bs) [x] (cs\<lparr>sendline := mem_write b0 0 bs\<rparr>))
      (\<lambda>cs. write_sendline cs (length bs + 1)) = Inr (cs\<lparr>sendline := b, tx := tx cs @ [bs @ [x]]\<rparr>)"
  using assms
  by (auto simp: put_sendline_ok mem_write_append' write_sendline_ok)

lemma send_method_frame:
  assumes "n \<le> length arguments" "n + 12 \<le> MAXLINE"
  shows "\<exists>b. send_method cs cls mth chan arguments n =
    Inr (cs\<lparr>sendline := b, tx := tx cs @ [frame METHOD chan (be_bytes 2 cls @ be_bytes 2 mth @ take n arguments)]\<rparr>)"
proof -
  let ?h = "unparse_message_header \<lparr>msg_type = METHOD, channel = chan, msg_length = of_nat (n + 4)\<rparr> @
    unparse_method_header \<lparr>class_id = cls, method_id = mth\<rparr>"
  let ?bs = "?h @ take n arguments"
  have len: "length ?bs = 11 + n" using assms(1) by simp
  have fr: "frame METHOD chan (be_bytes 2 cls @ be_bytes 2 mth @ take n arguments) = ?bs @ [0xce]"
    using assms(1) by (simp add: frame_def unparse_message_header_be unparse_method_header_be add.commute)
  have "send_method cs cls mth chan arguments n =
      bindE (put_sendline (length ?bs) [0xce] (cs\<lparr>sendline := mem_write (sendline cs) 0 ?bs\<rparr>))
        (\<lambda>cs. write_sendline cs (length ?bs + 1))"
    unfolding send_method_def Let_def len
    using assms by (simp add: put_sendline_ok mem_write_append')
  moreover have "length ?bs + 1 \<le> MAXLINE" using len assms(2) by simp
  ultimately show ?thesis
    unfolding fr using sendline_run [where bs = ?bs and x = "0xce" and cs = cs and ?b0.0 = "sendline cs"] by simp
qed

lemma send_body_frame:
  assumes "n \<le> length payload" "n + 8 \<le> MAXLINE"
  shows "\<exists>b. send_body cs chan payload n =
    Inr (cs\<lparr>sendline := b, tx := tx cs @ [frame BODY (word_of_int chan) (take n payload)]\<rparr>)"
proof -
  let ?h = "unparse_message_header \<lparr>msg_type = BODY, channel = word_of_int chan, msg_length = of_nat n\<rparr>"
  let ?bs = "?h @ take n payload"
  have len: "length ?bs = 7 + n" using assms(1) by simp
  have fr: "frame BODY (word_of_int chan) (take n payload) = ?bs @ [0xce]"
    using assms(1) by (simp add: frame_def unparse_message_header_be min_absorb2)
  have "send_body cs chan payload n =
      bindE (put_sendline (length ?bs) [0xce] (cs\<lparr>sendline := mem_write (sendline cs) 0 ?bs\<rparr>))
        (\<lambda>cs. write_sendline cs (length ?bs + 1))"
    unfolding send_body_def Let_def len
    using assms by (simp add: put_sendline_ok mem_write_append')
  moreover have "length ?bs + 1 \<le> MAXLINE" using len assms(2) by simp
  ultimately show ?thesis
    unfolding fr using sendline_run [where bs = ?bs and x = "0xce" and cs = cs and ?b0.0 = "sendline cs"] by simp
qed

lemma send_body_overflow:
  assumes "n \<le> length payload" "MAXLINE < n + 8"
  shows "send_body cs chan payload n = Inl (UB Out_of_bounds)"
  using assms
  by (auto simp: send_body_def Let_def put_sendline_def buf_store_def assertE_def MAXLINE_def bindE_assoc)

lemma send_content_header_frame:
  assumes "nat (bit_cardinality_16 flags) \<le> length properties"
  shows "\<exists>b. send_content_header cs cls chan wgt bsize flags properties =
    Inr (cs\<lparr>sendline := b, tx := tx cs @ [frame CONTENT_HEADER chan
      (be_bytes 2 cls @ be_bytes 2 wgt @ le_bytes 8 (swipe_endianness_64 bsize) @ be_bytes 2 flags @
       take (nat (bit_cardinality_16 flags)) properties)]\<rparr>)"
proof -
  let ?n = "nat (bit_cardinality_16 flags)"
  let ?h = "unparse_message_header \<lparr>msg_type = CONTENT_HEADER, channel = chan, msg_length = of_nat (14 + ?n)\<rparr> @
    unparse_content_header_header \<lparr>content_class = cls, weight = wgt, body_size = bsize, property_flags = flags\<rparr>"
  let ?bs = "?h @ take ?n properties"
  have n: "?n \<le> 16" using bit_cardinality_16_bounds [of flags] by simp
  have len: "length ?bs = 7 + 14 + ?n" using assms by simp
  have fr: "frame CONTENT_HEADER chan (be_bytes 2 cls @ be_bytes 2 wgt @ le_bytes 8 (swipe_endianness_64 bsize) @
      be_bytes 2 flags @ take ?n properties) = ?bs @ [0xce]"
    using assms by (simp add: frame_def unparse_message_header_be unparse_content_header_header_def
        add.commute min_absorb2)
  have "send_content_header cs cls chan wgt bsize flags properties =
      bindE (put_sendline (length ?bs) [0xce] (cs\<lparr>sendline := mem_write (sendline cs) 0 ?bs\<rparr>))
        (\<lambda>cs. write_sendline cs (length ?bs + 1))"
    unfolding send_content_header_def Let_def len
    using assms n by (simp add: put_sendline_ok mem_write_append' MAXLINE_def)
  moreover have "length ?bs + 1 \<le> MAXLINE" using len n by (simp add: MAXLINE_def)
  ultimately show ?thesis
    unfolding fr using sendline_run [where bs = ?bs and x = "0xce" and cs = cs and ?b0.0 = "sendline cs"] by simp
qed

section \<open>Frames received\<close>

lemma read_message_header_frame:
  assumes "rx_bytes (rx cs) = frame t ch payload @ rest"
  shows "\<exists>b r. read_message_header cs =
      Inr (Some \<lparr>msg_type = t, channel = ch, msg_length = of_nat (length payload)\<rparr>, cs\<lparr>recvline := b, rx := r\<rparr>) \<and>
    rx_bytes r = payload @ [0xce] @ rest"
proof -
  let ?h = "\<lparr>msg_type = t, channel = ch, msg_length = of_nat (length payload)\<rparr>"
  have f: "rx_bytes (rx cs) = unparse_message_header ?h @ payload @ [0xce] @ rest"
    by (simp add: assms frame_def unparse_message_header_be)
  have "unat (7 :: 64 word) \<le> MAXLINE" "unat (7 :: 64 word) \<le> length (rx_bytes (rx cs))"
    by (simp_all add: MAXLINE_def f)
  from recv_collects [OF this] obtain r where
    r: "recv cs 7 = Inr (7, cs\<lparr>recvline := mem_write (recvline cs) 0 (take 7 (rx_bytes (rx cs))), rx := r\<rparr>)"
      "rx_bytes r = drop 7 (rx_bytes (rx cs))" by auto
  have "take 7 (rx_bytes (rx cs)) = unparse_message_header ?h" by (simp add: f)
  moreover have "rx_bytes r = payload @ [0xce] @ rest" by (simp add: r(2) f)
  ultimately show ?thesis
    using r(1) message_codec.dec_enc [of ?h]
    by (auto simp: read_message_header_def parse_message_header_def)
qed

lemma load16_write: "length bs = 2 \<Longrightarrow> load16 (mem_write p off bs) off = le_word bs"
  by (simp add: load16_def)

lemma load16_write_other:
  "off + 2 \<le> off' \<or> off' + length bs \<le> off \<Longrightarrow> load16 (mem_write p off' bs) off = load16 p off"
  by (simp add: load16_def mem_read_write_disjoint)

lemma load16_swap16: "load16 (swap16 off p) off = ntohs (load16 p off)"
  by (simp add: swap16_def load16_write le_word_le_bytes)

lemma load16_swap16_other:
  "off + 2 \<le> off' \<or> off' + 2 \<le> off \<Longrightarrow> load16 (swap16 off' p) off = load16 p off"
  by (simp add: swap16_def load16_write_other)

lemma swap16_outside: "i < off \<or> off + 2 \<le> i \<Longrightarrow> swap16 off p i = p i"
  by (simp add: swap16_def mem_write_outside)

lemma parse_method_eq:
  assumes "4 \<le> n" "unat (4 + n - 1) \<le> MAXLINE"
  shows "\<exists>p'. parse_method s n p =
      Inr (Some \<lparr>class_id = ntohs (load16 (mem_write p 0 (mem_read s 0 (unat (4 + n - 1)))) 0),
                method_id = ntohs (load16 (mem_write p 0 (mem_read s 0 (unat (4 + n - 1)))) 2)\<rparr>, p') \<and>
    (\<forall>i \<ge> 4. p' i = mem_write p 0 (mem_read s 0 (unat (4 + n - 1))) i)"
  using assms
  by (auto simp: parse_method_def Let_def buf_load_ok buf_store_ok load16_swap16 load16_swap16_other
      swap16_outside not_less)

lemma unat_header_minus_1: "unat n + 4 \<le> MAXLINE + 1 \<Longrightarrow> 4 \<le> n \<Longrightarrow> unat (4 + n - 1 :: 64 word) = unat n + 3"
proof -
  assume a: "unat n + 4 \<le> MAXLINE + 1" "4 \<le> n"
  have "4 + n - 1 = n + of_nat 3" by simp
  moreover have "unat n + 3 \<le> unat (of_nat MAXLINE :: 64 word)" using a by (simp add: MAXLINE_def)
  ultimately show ?thesis using unat_add_of_nat [of n 3 "of_nat MAXLINE"] by (simp add: add.commute)
qed

lemma word_of_int_nat: "word_of_int (int n) = word_of_nat n"
  by simp

lemma unat_of_nat_MAXLINE: "n \<le> MAXLINE \<Longrightarrow> unat (word_of_nat n :: 64 word) = n"
  by (simp add: unat_of_nat MAXLINE_def)

lemma mem_read_prefix: "k \<le> n \<Longrightarrow> mem_read f off k = take k (mem_read f off n)"
  by (rule nth_equalityI) auto

lemma read_method_frame:
  assumes rx: "rx_bytes (rx cs) = payload @ [e] @ rest"
    and len: "4 \<le> length payload" "length payload \<le> MAXLINE - 3"
  shows "\<exists>b p r. read_method cs (int (length payload)) =
      Inr (Some (method_header_of payload), cs\<lparr>recvline := b, parsed := p, rx := r\<rparr>) \<and>
    rx_bytes r = rest \<and> (\<forall>i < length payload. 4 \<le> i \<longrightarrow> p i = payload ! i)"
proof -
  let ?n = "word_of_nat (length payload) :: 64 word"
  have n: "unat ?n = length payload" using len by (intro unat_of_nat_MAXLINE) (simp add: MAXLINE_def)
  have n4: "4 \<le> ?n" using len n by (simp add: word_le_nat_alt)
  obtain b1 r1 where r1: "recv cs ?n = Inr (?n, cs\<lparr>recvline := b1, rx := r1\<rparr>)"
      "b1 = mem_write (recvline cs) 0 payload" "rx_bytes r1 = [e] @ rest"
    using recv_collects [of ?n cs] n len rx by (auto simp: MAXLINE_def)
  have k: "unat (4 + ?n - 1) = length payload + 3"
    using unat_header_minus_1 [of ?n] n n4 len by (simp add: MAXLINE_def)
  let ?w = "mem_write (parsed cs) 0 (mem_read b1 0 (length payload + 3))"
  obtain p where p: "parse_method b1 ?n (parsed cs) =
      Inr (Some \<lparr>class_id = ntohs (load16 ?w 0), method_id = ntohs (load16 ?w 2)\<rparr>, p)"
    "\<forall>i \<ge> 4. p i = ?w i"
    using parse_method_eq [OF n4, of b1 "parsed cs"] k len by (auto simp: MAXLINE_def)
  have w: "?w i = payload ! i" if "i < length payload" for i
    using that by (simp add: mem_write_def r1(2))
  have "mem_read ?w 0 2 = take 2 payload" "mem_read ?w 2 2 = take 2 (drop 2 payload)"
    using len w by (auto intro!: nth_equalityI)
  then have h: "\<lparr>class_id = ntohs (load16 ?w 0), method_id = ntohs (load16 ?w 2)\<rparr> = method_header_of payload"
    using len by (simp add: load16_def ntohs_le_word method_header_of_def)
  let ?cs = "cs\<lparr>recvline := b1, rx := r1, parsed := p\<rparr>"
  obtain b2 r2 where r2: "recv ?cs 1 = Inr (1, ?cs\<lparr>recvline := b2, rx := r2\<rparr>)" "rx_bytes r2 = rest"
    using recv_collects [of 1 ?cs] r1(3) by (auto simp: MAXLINE_def)
  have "read_method cs (int (length payload)) = Inr (Some (method_header_of payload), ?cs\<lparr>recvline := b2, rx := r2\<rparr>)"
    using n4 p(1) h r2(1) by (simp add: read_method_def r1(1)) (auto simp: Let_def)
  then show ?thesis
    using r2(2) p(2) w by (intro exI [of _ b2] exI [of _ p] exI [of _ r2]) simp
qed

lemma ucast_sint_small: "k \<le> MAXLINE \<Longrightarrow> sint (ucast (word_of_nat k :: 64 word) :: 32 word) = int k"
  by (simp add: unsigned_of_nat take_bit_nat_eq_self MAXLINE_def signed_of_nat signed_take_bit_int_eq_self)

lemma read_body_frame:
  assumes rx: "rx_bytes (rx cs) = payload @ [e] @ rest" and len: "length payload < MAXLINE"
  shows "\<exists>b p r. read_body cs (int (length payload)) = Inr (cs\<lparr>recvline := b, parsed := p, rx := r\<rparr>) \<and>
    rx_bytes r = rest \<and> cstring MAXLINE p 0 = Inr (until_nul payload)"
proof -
  let ?n = "word_of_nat (Suc (length payload)) :: 64 word"
  have n: "unat ?n = Suc (length payload)" using len by (intro unat_of_nat_MAXLINE) simp
  obtain b1 r1 where r1: "recv cs ?n = Inr (?n, cs\<lparr>recvline := b1, rx := r1\<rparr>)"
      "b1 = mem_write (recvline cs) 0 (payload @ [e])" "rx_bytes r1 = rest"
    using recv_collects [of ?n cs] n len rx by (auto simp: MAXLINE_def)
  have s: "sint (ucast ?n :: 32 word) = int (Suc (length payload))"
    using len by (intro ucast_sint_small) simp
  let ?p = "mem_write (mem_write (parsed cs) 0 (payload @ [e])) (length payload) [0]"
  have wi: "word_of_int (int (length payload) + 1) = ?n" by simp
  have "read_body cs (int (length payload)) = Inr (cs\<lparr>recvline := b1, parsed := ?p, rx := r1\<rparr>)"
    using len n unfolding read_body_def wi r1(1)
    by (simp only: bindE.simps split Let_def s word_of_int_nat n) (simp add: r1(2) buf_load_ok buf_store_ok MAXLINE_def)
  moreover have "cstring MAXLINE ?p 0 = Inr (until_nul payload)"
    using cstring_terminated [of ?p 0 "length payload" MAXLINE] len
    by (auto simp: mem_write_def nth_append intro!: arg_cong [where f = until_nul] nth_equalityI)
  ultimately show ?thesis using r1(3) by blast
qed

lemma send_queue_declare_ok_frame:
  assumes "cstring MAX_QUEUE_NAME qn 0 = Inr nm"
  shows "\<exists>b. send_queue_declare_ok cs chan qn mc cc = Inr (cs\<lparr>sendline := b, tx := tx cs @
    [frame METHOD chan (be_bytes 2 QUEUE @ be_bytes 2 QUEUE_DECLARE_OK @
       [word_of_nat (length nm)] @ nm @ be_bytes 4 mc @ be_bytes 4 cc)]\<rparr>)"
proof -
  have len: "length nm < 256" using cstring_eq_InrD [OF assms] by (simp add: MAX_QUEUE_NAME_def)
  let ?args = "[word_of_nat (length nm)] @ nm @ be_bytes 4 mc @ be_bytes 4 cc"
  let ?a = "mem_write (mem_write (mem_write zero_buf 0 [word_of_nat (length nm)]) 1 (nm @ [0]))
      (1 + length nm) (be_bytes 4 mc @ be_bytes 4 cc)"
  have "mem_read ?a 0 (9 + length nm) = ?args"
  proof (rule nth_equalityI)
    fix i assume "i < length (mem_read ?a 0 (9 + length nm))"
    then show "mem_read ?a 0 (9 + length nm) ! i = ?args ! i"
      by (cases i) (auto simp: mem_write_def nth_append)
  qed simp
  moreover have "take (9 + length nm) ?args = ?args" by simp
  ultimately show ?thesis
    using send_method_frame [of "9 + length nm" ?args cs QUEUE QUEUE_DECLARE_OK chan] len
    by (simp add: send_queue_declare_ok_def fill_short_string_def assms buf_store_ok buf_load_ok
        Let_def MAXLINE_def add.commute del: take_append)
qed

section \<open>Names in the arguments\<close>

text \<open>
  The parsers never leave their buffers, and the name buffer ends up holding the short string
  of the arguments up to its first zero byte.
\<close>

lemma cstring_short:
  assumes "length bs < cap" "bs = ds \<or> bs = strncpy_bytes ds"
  shows "cstring cap (mem_write (mem_write q 0 bs) (length bs) [0]) 0 = Inr (until_nul ds)"
proof -
  let ?q = "mem_write (mem_write q 0 bs) (length bs) [0]"
  have "?q (0 + length bs) = 0" by (simp add: mem_write_def)
  from cstring_terminated [where f = ?q and off = 0 and n = "length bs" and cap = cap] this assms(1)
  have "cstring cap ?q 0 = Inr (until_nul (mem_read ?q 0 (length bs)))" by auto
  moreover have "mem_read ?q 0 (length bs) = bs"
    by (rule nth_equalityI) (auto simp: mem_write_def)
  moreover have "until_nul (strncpy_bytes ds) = until_nul ds"
    using until_nul_strncpy [of ds "[]"] until_nul_append_nul [of "strncpy_bytes ds" "[]"] by simp
  ultimately show ?thesis using assms(2) by auto
qed

lemma unat_byte_less: "unat (b :: byte) < 256"
  using unsigned_less [of b] by simp

lemma parse_queue_declare_args_name:
  "\<exists>q. parse_queue_declare_args p qn = Inr q \<and>
     cstring MAX_QUEUE_NAME q 0 = Inr (until_nul (mem_read p 7 (unat (p 6))))"
proof -
  have "unat (p 6) < 256" by (rule unat_byte_less)
  with cstring_short [of "mem_read p 7 (unat (p 6))" MAX_QUEUE_NAME "mem_read p 7 (unat (p 6))" qn]
  show ?thesis
    by (simp add: parse_queue_declare_args_def Let_def buf_load_ok buf_store_ok MAXLINE_def MAX_QUEUE_NAME_def)
qed

lemma parse_basic_consume_args_name:
  "\<exists>q. parse_basic_consume_args p qn = Inr q \<and>
     cstring MAX_QUEUE_NAME q 0 = Inr (until_nul (mem_read p 7 (unat (p 6))))"
proof -
  have "unat (p 6) < 256" by (rule unat_byte_less)
  with cstring_short [of "strncpy_bytes (mem_read p 7 (unat (p 6)))" MAX_QUEUE_NAME "mem_read p 7 (unat (p 6))" qn]
  show ?thesis
    by (simp add: parse_basic_consume_args_def Let_def buf_load_ok buf_store_ok MAXLINE_def MAX_QUEUE_NAME_def)
qed

lemma parse_basic_publish_args_name:
  "\<exists>q. parse_basic_publish_args p qn = Inr q \<and>
     cstring MAX_QUEUE_NAME q 0 =
       Inr (until_nul (mem_read p (8 + unat (p 6)) (unat (p (7 + unat (p 6))))))"
proof -
  let ?s = "unat (p (7 + unat (p 6)))"
  have "?s < 256" "unat (p 6) < 256" by (rule unat_byte_less)+
  with cstring_short [of "strncpy_bytes (mem_read p (8 + unat (p 6)) ?s)" MAX_QUEUE_NAME
      "mem_read p (8 + unat (p 6)) ?s" qn]
  show ?thesis
    by (simp add: parse_basic_publish_args_def Let_def buf_load_ok buf_store_ok MAXLINE_def MAX_QUEUE_NAME_def)
qed

section \<open>What every read leaves, and when it is safe\<close>

text \<open>
  Reads only touch the receive buffer, the parsed buffer and the input, and a header that
  was read used some input up.
\<close>

definition read_frame :: "connection_state \<Rightarrow> connection_state \<Rightarrow> bool" where
  "read_frame cs cs' \<longleftrightarrow>
     connfd cs' = connfd cs \<and> tid cs' = tid cs \<and> current_queue cs' = current_queue cs \<and>
     current_queue_name cs' = current_queue_name cs \<and> error_msg cs' = error_msg cs \<and>
     tx cs' = tx cs \<and> sendline cs' = sendline cs \<and> rx_size (rx cs') \<le> rx_size (rx cs)"

lemma read_frame_refl [simp]: "read_frame cs cs"
  by (simp add: read_frame_def)

lemma read_frame_parsed [simp]: "read_frame cs (cs'\<lparr>parsed := p\<rparr>) = read_frame cs cs'"
  "read_frame (cs\<lparr>parsed := p\<rparr>) cs' = read_frame cs cs'"
  by (simp_all add: read_frame_def)

lemma read_frame_trans: "read_frame a b \<Longrightarrow> read_frame b c \<Longrightarrow> read_frame a c"
  by (simp add: read_frame_def)

lemma read_frame_recv: "recv cs n = Inr (k, cs') \<Longrightarrow> read_frame cs cs'"
  using recv_result(2,4) [of cs n k cs'] by (auto simp: read_frame_def)

lemma read_message_header_frame_only:
  "read_message_header cs = Inr (h, cs') \<Longrightarrow>
   read_frame cs cs' \<and> (h \<noteq> None \<longrightarrow> rx_size (rx cs') < rx_size (rx cs))"
proof -
  assume "read_message_header cs = Inr (h, cs')"
  then obtain n where n: "recv cs 7 = Inr (n, cs')" "h = parse_message_header (recvline cs') n"
    by (auto simp: read_message_header_def bindE_eq_Inr)
  then have "h \<noteq> None \<Longrightarrow> n \<noteq> 0" by (auto simp: parse_message_header_def split: if_splits)
  with recv_result(3) [OF n(1)] read_frame_recv [OF n(1)] show ?thesis
    by (auto simp: SSIZE_MAX_def)
qed

lemma read_message_header_no_ub: "\<exists>h cs'. read_message_header cs = Inr (h, cs')"
  using recv_no_ub [of 7 cs] by (auto simp: read_message_header_def MAXLINE_def)

lemma read_protocol_header_frame_only:
  "read_protocol_header cs = Inr (e, cs') \<Longrightarrow>
   read_frame cs cs' \<and> (e = 0 \<longrightarrow> rx_size (rx cs') < rx_size (rx cs))"
proof -
  assume "read_protocol_header cs = Inr (e, cs')"
  then obtain n where n: "recv cs 8 = Inr (n, cs')" "e = parse_protocol_header (recvline cs') n"
    by (auto simp: read_protocol_header_def bindE_eq_Inr)
  then have "e = 0 \<Longrightarrow> n \<noteq> 0" by (auto simp: parse_protocol_header_def split: if_splits)
  with recv_result(3) [OF n(1)] read_frame_recv [OF n(1)] show ?thesis
    by (auto simp: SSIZE_MAX_def)
qed

lemma read_protocol_header_no_ub: "\<exists>e cs'. read_protocol_header cs = Inr (e, cs')"
  using recv_no_ub [of 8 cs] by (auto simp: read_protocol_header_def MAXLINE_def)

lemma read_method_frame_only: "read_method cs len = Inr (m, cs') \<Longrightarrow> read_frame cs cs'"
  unfolding read_method_def
  by (auto simp: bindE_eq_Inr Let_def split: if_splits prod.splits
      dest!: read_frame_recv intro: read_frame_trans)

lemma read_content_header_frame_only: "read_content_header cs len = Inr (m, cs') \<Longrightarrow> read_frame cs cs'"
  unfolding read_content_header_def
  by (auto simp: bindE_eq_Inr Let_def split: if_splits prod.splits
      dest!: read_frame_recv intro: read_frame_trans)

lemma read_body_frame_only: "read_body cs len = Inr cs' \<Longrightarrow> read_frame cs cs'"
  unfolding read_body_def
  by (auto simp: bindE_eq_Inr Let_def split: if_splits prod.splits
      dest!: read_frame_recv intro: read_frame_trans)

lemma unat_negative: "len < 0 \<Longrightarrow> - (2 ^ 31) \<le> len \<Longrightarrow> SSIZE_MAX < unat (word_of_int len :: 64 word)"
proof -
  assume a: "len < 0" "- (2 ^ 31) \<le> len"
  have "uint (word_of_int len :: 64 word) = len mod 2 ^ 64" by (simp add: uint_word_of_int)
  also have "\<dots> = len + 2 ^ 64"
    using a mod_pos_pos_trivial [of "len + 2 ^ 64" "2 ^ 64"] by simp
  finally have "unat (word_of_int len :: 64 word) = nat (len + 2 ^ 64)" by (metis nat_uint_eq)
  then show ?thesis using a by (simp add: SSIZE_MAX_def zless_nat_eq_int_zless)
qed

lemma word_of_int_length: "0 \<le> len \<Longrightarrow> word_of_int len = (word_of_nat (nat len) :: 64 word)"
  by (rule of_nat_nat [symmetric])

lemma unat_length: "0 \<le> len \<Longrightarrow> len < 2 ^ 31 \<Longrightarrow> unat (word_of_int len :: 64 word) = nat len"
  using unat_of_nat [of "nat len", where 'a = 64] by (simp add: nat_less_iff)

lemma recv_negative:
  "len < 0 \<Longrightarrow> - (2 ^ 31) \<le> len \<Longrightarrow> recv cs (word_of_int len) = Inr (- 1, cs)"
  using read_until_huge [OF unat_negative] by (simp add: recv_def)

lemma recv_int_no_ub:
  assumes "- (2 ^ 31) \<le> len" "len \<le> int MAXLINE"
  shows "\<exists>n cs'. recv cs (word_of_int len) = Inr (n, cs') \<and> (n = 0 \<or> n = word_of_int len \<or> n = - 1)"
proof (cases "len < 0")
  case True
  then show ?thesis using recv_negative [OF True assms(1)] by blast
next
  case False
  then have "unat (word_of_int len :: 64 word) \<le> MAXLINE"
    using assms(2) unat_length [of len] by (simp add: MAXLINE_def)
  with recv_no_ub [of "word_of_int len" cs] recv_result(1) show ?thesis by metis
qed

text \<open>Methods: safe up to three bytes less than the buffers hold.\<close>

lemma read_method_no_ub:
  assumes "- (2 ^ 31) \<le> len" "len \<le> int MAXLINE - 3"
  shows "\<exists>m cs'. read_method cs len = Inr (m, cs')"
proof -
  obtain n cs1 where r: "recv cs (word_of_int len) = Inr (n, cs1)"
    and n: "n = 0 \<or> n = word_of_int len \<or> n = - 1"
    using recv_int_no_ub [of len cs] assms by auto
  have "\<exists>m p. parse_method (recvline cs1) n (parsed cs1) = Inr (m, p)" if "n \<noteq> 0"
  proof (cases "4 \<le> n")
    case True
    have "unat (4 + n - 1) \<le> MAXLINE"
    proof (cases "n = - 1")
      case True
      then show ?thesis by (simp add: MAXLINE_def)
    next
      case False
      with n that have n: "n = word_of_int len" by blast
      have "0 \<le> len"
        using False r recv_negative [of len cs] assms(1) n by (cases "len < 0") auto
      then have "unat n + 4 \<le> MAXLINE + 1" using assms(2) n unat_length [of len] by (simp add: MAXLINE_def)
      from unat_header_minus_1 [OF this True] this show ?thesis by simp
    qed
    from parse_method_eq [OF True this] show ?thesis by blast
  qed (simp add: parse_method_def not_le)
  then obtain m p where p: "n \<noteq> 0 \<Longrightarrow> parse_method (recvline cs1) n (parsed cs1) = Inr (m, p)"
    by blast
  obtain k cs2 where "recv (cs1\<lparr>parsed := p\<rparr>) 1 = Inr (k, cs2)"
    using recv_no_ub [of 1 "cs1\<lparr>parsed := p\<rparr>"] by (auto simp: MAXLINE_def)
  with p show ?thesis by (cases "n = 0"; cases "m = None"; cases "k = 0") (simp_all add: read_method_def r Let_def)
qed

text \<open>Beyond that, a frame that arrives whole overruns a buffer.\<close>

lemma read_method_overflow:
  assumes "int MAXLINE - 3 < len" "len < 2 ^ 31" "len \<le> int (length (rx_bytes (rx cs)))"
  shows "read_method cs len = Inl (UB Out_of_bounds)"
proof -
  let ?n = "word_of_int len :: 64 word"
  have n: "unat ?n = nat len" using assms by (intro unat_length) (auto simp: MAXLINE_def)
  have le: "unat ?n \<le> SSIZE_MAX" using n assms(2) by (simp add: SSIZE_MAX_def)
  show ?thesis
  proof (cases "len \<le> int MAXLINE")
    case True
    have "unat ?n \<le> MAXLINE" "unat ?n \<le> length (rx_bytes (rx cs))"
      using n True assms(3) by auto
    from recv_collects [OF this] obtain b r where
      r: "recv cs ?n = Inr (?n, cs\<lparr>recvline := b, rx := r\<rparr>)" by blast
    have pos: "4 \<le> ?n" using assms(1) n by (simp add: word_le_nat_alt MAXLINE_def)
    have "unat (4 + ?n - 1) = unat ?n + 3"
    proof -
      have "4 + ?n - 1 = ?n + of_nat 3" by simp
      moreover have "unat ?n + 3 \<le> unat (2 ^ 32 :: 64 word)" using n assms(2) by simp
      ultimately show ?thesis using unat_add_of_nat by metis
    qed
    then have "\<not> unat (4 + ?n - 1) \<le> MAXLINE" using n assms(1) by simp
    then have "parse_method b ?n (parsed cs) = Inl (UB Out_of_bounds)"
      using pos by (simp add: parse_method_def Let_def buf_load_def not_less [symmetric])
    moreover have "?n \<noteq> 0" using pos by auto
    ultimately show ?thesis by (simp add: read_method_def r)
  next
    case False
    have "MAXLINE < unat ?n" "MAXLINE < length (rx_bytes (rx cs))" using n False assms(3) by auto
    then have "read_until MAXLINE (recvline cs) ?n (rx cs) = Inl (UB Out_of_bounds)"
      unfolding read_until_def using le by (intro read_loop_overflows) auto
    then show ?thesis by (simp add: read_method_def recv_def)
  qed
qed

lemma read_content_header_no_ub:
  assumes "- (2 ^ 31) \<le> len" "len \<le> int MAXLINE"
  shows "\<exists>m cs'. read_content_header cs len = Inr (m, cs')"
proof -
  obtain n cs1 where r: "recv cs (word_of_int len) = Inr (n, cs1)"
    using recv_int_no_ub [OF assms] by blast
  have "\<exists>m p. parse_content_header s k q = Inr (m, p)" for s k q
    by (simp add: parse_content_header_def buf_load_ok buf_store_ok MAXLINE_def Let_def)
  then obtain m p where p: "parse_content_header (recvline cs1) (word_of_int len) (parsed cs1) = Inr (m, p)"
    by blast
  obtain k cs2 where "recv (cs1\<lparr>parsed := p\<rparr>) 1 = Inr (k, cs2)"
    using recv_no_ub [of 1 "cs1\<lparr>parsed := p\<rparr>"] by (auto simp: MAXLINE_def)
  with p show ?thesis by (simp add: read_content_header_def r Let_def)
qed

text \<open>
  Bodies: safe when the length fits and no read fails. A failed read becomes a copy of
  \<^verbatim>\<open>(size_t) -1\<close> bytes.
\<close>

lemma read_body_eof:
  assumes "length (rx_bytes (rx cs)) \<le> n" "n < MAXLINE" "Rd_error \<notin> set (rx cs)"
  shows "read_body cs (int n) = Inr (cs\<lparr>recvline := mem_write (recvline cs) 0 (rx_bytes (rx cs)),
    rx := [], parsed := (parsed cs)(n := 0)\<rparr>)"
proof -
  have w: "word_of_int (int n + 1) = (word_of_nat (Suc n) :: 64 word)" by simp
  have u: "unat (word_of_nat (Suc n) :: 64 word) = Suc n" using assms(2) by (intro unat_of_nat_MAXLINE) simp
  have "recv cs (word_of_int (int n + 1)) =
      Inr (0, cs\<lparr>recvline := mem_write (recvline cs) 0 (rx_bytes (rx cs)), rx := []\<rparr>)"
    unfolding w using assms u by (intro recv_eof) auto
  moreover have "mem_write (parsed cs) n [0] = (parsed cs)(n := 0)"
    by (rule ext) (auto simp: mem_write_def)
  ultimately show ?thesis
    using assms(2) by (simp add: read_body_def Let_def buf_load_ok buf_store_ok MAXLINE_def)
qed

lemma read_body_no_ub:
  assumes "0 \<le> len" "len < int MAXLINE" "Rd_error \<notin> set (rx cs)"
  shows "\<exists>cs'. read_body cs len = Inr cs'"
proof (cases "nat len < length (rx_bytes (rx cs))")
  case True
  let ?bs = "rx_bytes (rx cs)"
  have "?bs = take (nat len) ?bs @ [?bs ! nat len] @ drop (Suc (nat len)) ?bs"
    using True by (simp add: id_take_nth_drop)
  moreover have "int (length (take (nat len) ?bs)) = len" "length (take (nat len) ?bs) < MAXLINE"
    using True assms(1,2) by auto
  ultimately show ?thesis using read_body_frame [of cs "take (nat len) ?bs"] by metis
next
  case False
  with read_body_eof [of cs "nat len"] assms show ?thesis by auto
qed

lemma unat_failed_length: "unat (word_of_int (sint (ucast (- 1 :: 64 word) :: 32 word)) :: 64 word) = 2 ^ 64 - 1"
proof -
  have "(ucast (- 1 :: 64 word) :: 32 word) = - 1" by (transfer, simp)
  then show ?thesis by (simp add: unsigned_minus_1_eq_mask mask_eq_exp_minus_1)
qed

lemma read_body_error:
  assumes "0 \<le> len" "len < int MAXLINE" "rx cs = Rd_error # r"
  shows "read_body cs len = Inl (UB Out_of_bounds)"
proof -
  let ?n = "word_of_int (len + 1) :: 64 word"
  have "unat ?n = nat (len + 1)" using assms by (intro unat_length) (auto simp: MAXLINE_def)
  then have "0 < ?n" "unat ?n \<le> SSIZE_MAX"
    using assms by (auto simp: word_less_nat_alt SSIZE_MAX_def MAXLINE_def)
  from read_until_error_first [OF this] assms(3)
  have r: "recv cs ?n = Inr (- 1, cs\<lparr>rx := r\<rparr>)" by (simp add: recv_def)
  have "buf_load MAXLINE b 0 (2 ^ 64 - 1) = Inl (UB Out_of_bounds)" for b
    by (simp add: buf_load_def MAXLINE_def)
  then show ?thesis
    using assms(1,2) unfolding read_body_def r
    by (simp only: bindE.simps split Let_def unat_failed_length) (simp add: MAXLINE_def)
qed

lemma read_body_negative:
  assumes "len < 0" "- (2 ^ 31) \<le> len"
  shows "read_body cs len = Inl (UB Out_of_bounds)"
proof (cases "len = - 1")
  case True
  have "recv cs 0 = Inr (0, cs)" by (rule recv_0)
  with True show ?thesis by (simp add: read_body_def buf_load_ok buf_store_ok)
next
  case False
  then have "len + 1 < 0" "- (2 ^ 31) \<le> len + 1" using assms by auto
  note r = recv_negative [OF this, of cs]
  have "buf_load MAXLINE b 0 (2 ^ 64 - 1) = Inl (UB Out_of_bounds)" for b
    by (simp add: buf_load_def MAXLINE_def)
  then show ?thesis
    using assms unfolding read_body_def r
    by (simp only: bindE.simps split Let_def unat_failed_length) (simp add: MAXLINE_def)
qed

section \<open>Properties\<close>

text \<open>The header of a frame survives the wire: what \<^verbatim>\<open>unparse_message_header\<close> and
  \<^verbatim>\<open>unparse_method_header\<close> write is read back unchanged, and every seven, or four, bytes are
  the encoding of the header they are read as.\<close>

lemma headers_roundtrip:
  "parse_message_header (mem_write b 0 (unparse_message_header h)) 7 = Some h \<and>
   method_header_of (unparse_method_header m) = m \<and>
   unparse_message_header (message_header_of (mem_read b 0 7)) = mem_read b 0 7 \<and>
   unparse_method_header (method_header_of (mem_read b 0 4)) = mem_read b 0 4"
  by (simp add: parse_message_header_def message_codec.dec_enc message_codec.enc_dec method_codec.dec_enc
      method_codec.enc_dec message_codec.width_law)

text \<open>C31. A method goes through: the frame \<^verbatim>\<open>send_method\<close> writes, received in any segments, is
  read by \<^verbatim>\<open>read_message_header\<close> and \<^verbatim>\<open>read_method\<close> as a frame of the same channel with the
  same class, method and arguments, and nothing of what follows is consumed.\<close>

theorem method_roundtrip:
  assumes "n \<le> length args" "n + 12 \<le> MAXLINE"
  shows "\<exists>s fr. send_method cs cls mth ch args n = Inr (cs\<lparr>sendline := s, tx := tx cs @ [fr]\<rparr>) \<and>
    (\<forall>peer rest. rx_bytes (rx peer) = fr @ rest \<longrightarrow> (\<exists>p1 p2.
      read_message_header peer = Inr (Some \<lparr>msg_type = METHOD, channel = ch, msg_length = of_nat (n + 4)\<rparr>, p1) \<and>
      read_method p1 (int (n + 4)) = Inr (Some \<lparr>class_id = cls, method_id = mth\<rparr>, p2) \<and>
      mem_read (parsed p2) 4 n = take n args \<and> rx_bytes (rx p2) = rest))"
proof -
  let ?payload = "be_bytes 2 cls @ be_bytes 2 mth @ take n args"
  let ?fr = "frame METHOD ch ?payload"
  from send_method_frame [OF assms] obtain s where
    s: "send_method cs cls mth ch args n = Inr (cs\<lparr>sendline := s, tx := tx cs @ [?fr]\<rparr>)" by blast
  have len: "length ?payload = n + 4" using assms(1) by simp
  have "\<exists>p1 p2. read_message_header peer = Inr (Some \<lparr>msg_type = METHOD, channel = ch, msg_length = of_nat (n + 4)\<rparr>, p1) \<and>
      read_method p1 (int (n + 4)) = Inr (Some \<lparr>class_id = cls, method_id = mth\<rparr>, p2) \<and>
      mem_read (parsed p2) 4 n = take n args \<and> rx_bytes (rx p2) = rest"
    if "rx_bytes (rx peer) = ?fr @ rest" for peer rest
  proof -
    from read_message_header_frame [OF that] obtain b r where
      1: "read_message_header peer = Inr (Some \<lparr>msg_type = METHOD, channel = ch, msg_length = of_nat (n + 4)\<rparr>,
          peer\<lparr>recvline := b, rx := r\<rparr>)"
      and r: "rx_bytes r = ?payload @ [0xce] @ rest" unfolding len by blast
    let ?p1 = "peer\<lparr>recvline := b, rx := r\<rparr>"
    have "rx_bytes (rx ?p1) = ?payload @ [0xce] @ rest" using r by simp
    moreover have "4 \<le> length ?payload" "length ?payload \<le> MAXLINE - 3"
      unfolding len using assms(2) by (simp_all add: MAXLINE_def)
    ultimately obtain b2 p r2 where
      2: "read_method ?p1 (int (n + 4)) =
          Inr (Some (method_header_of ?payload), ?p1\<lparr>recvline := b2, parsed := p, rx := r2\<rparr>)"
      and p: "rx_bytes r2 = rest" "\<forall>i < n + 4. 4 \<le> i \<longrightarrow> p i = ?payload ! i"
      using read_method_frame [of ?p1 ?payload "0xce" rest] unfolding len by blast
    have "mem_read p 4 n = take n args"
    proof (rule nth_equalityI)
      fix i assume "i < length (mem_read p 4 n)"
      then have "p (4 + i) = ?payload ! (4 + i)" using p(2) by simp
      with \<open>i < length (mem_read p 4 n)\<close> show "mem_read p 4 n ! i = take n args ! i"
        by (simp add: nth_append)
    qed (use assms(1) in simp)
    moreover have "method_header_of ?payload = \<lparr>class_id = cls, method_id = mth\<rparr>"
      by (simp add: method_header_of_def be_word_be_bytes)
    ultimately show ?thesis using 1 2 p(1) by auto
  qed
  with s show ?thesis by blast
qed

theorem method_roundtrip_witness:
  "\<exists>s fr. send_method (init_connection 4 2 []) BASIC BASIC_ACK 1 [7, 8, 9] 2 =
      Inr (init_connection 4 2 []\<lparr>sendline := s, tx := [fr]\<rparr>) \<and>
    (\<forall>peer. rx_bytes (rx peer) = fr \<longrightarrow> (\<exists>p1 p2.
      read_message_header peer = Inr (Some \<lparr>msg_type = METHOD, channel = 1, msg_length = 6\<rparr>, p1) \<and>
      read_method p1 6 = Inr (Some \<lparr>class_id = BASIC, method_id = BASIC_ACK\<rparr>, p2) \<and>
      mem_read (parsed p2) 4 2 = [7, 8]))"
  using method_roundtrip [of 2 "[7, 8, 9]" "init_connection 4 2 []" BASIC BASIC_ACK 1]
  by (fastforce simp: MAXLINE_def init_connection_def)

text \<open>C32. How long a method may be: when the client sends as many bytes as its frame header
  announces, reading the method stays within the buffers exactly when the announced length
  is at most three less than their size; a longer one, which nothing rejects, writes past
  the end of \<^verbatim>\<open>parsed\<close> or \<^verbatim>\<open>recvline\<close>.\<close>

theorem long_methods_overrun:
  assumes "0 \<le> len" "len < 2 ^ 31" "len \<le> int (length (rx_bytes (rx cs)))"
  shows "read_method cs len = Inl (UB Out_of_bounds) \<longleftrightarrow> int MAXLINE - 3 < len"
proof (cases "int MAXLINE - 3 < len")
  case True
  with read_method_overflow [OF _ assms(2,3)] show ?thesis by simp
next
  case False
  with read_method_no_ub [of len cs] assms(1) show ?thesis by auto
qed

theorem long_methods_overrun_witness:
  "read_method (init_connection 4 2 [Chunk 0 (replicate 131073 0)]) 131071 = Inl (UB Out_of_bounds) \<and>
   read_method (init_connection 4 2 [Chunk 0 (replicate 131073 0)]) 131070 \<noteq> Inl (UB Out_of_bounds)"
  using long_methods_overrun [of 131071 "init_connection 4 2 [Chunk 0 (replicate 131073 0)]"]
    long_methods_overrun [of 131070 "init_connection 4 2 [Chunk 0 (replicate 131073 0)]"]
  by (simp add: MAXLINE_def init_connection_def)

text \<open>C33. What becomes of failed and short reads of a frame. A header of which the first read fails is
  not noticed: the old bytes of \<^verbatim>\<open>recvline\<close> are taken for it; a header cut short by the end of
  the stream is. A body cut short by the end of the stream is not noticed: the old contents of
  \<^verbatim>\<open>parsed\<close>, ended at the announced length, are the message. A body of which the first
  read fails, or one of negative length, overruns the buffer.\<close>

theorem failed_reads_unnoticed:
  assumes "n < MAXLINE" "length bs < n" "len < 0" "- (2 ^ 31) \<le> len" "length hs < 6"
  shows "read_message_header (cs\<lparr>rx := Rd_error # r\<rparr>) =
      Inr (Some (message_header_of (mem_read (recvline cs) 0 7)), cs\<lparr>rx := r\<rparr>) \<and>
    read_message_header (cs\<lparr>rx := [Chunk b hs]\<rparr>) =
      Inr (None, cs\<lparr>recvline := mem_write (recvline cs) 0 (b # hs), rx := []\<rparr>) \<and>
    read_body (cs\<lparr>rx := [Chunk b bs]\<rparr>) (int n) =
      Inr (cs\<lparr>recvline := mem_write (recvline cs) 0 (b # bs), rx := [], parsed := (parsed cs)(n := 0)\<rparr>) \<and>
    read_body (cs\<lparr>rx := Rd_error # r\<rparr>) (int n) = Inl (UB Out_of_bounds) \<and>
    read_body cs len = Inl (UB Out_of_bounds)"
proof (intro conjI)
  have "read_until MAXLINE (recvline cs) 7 (Rd_error # r) = Inr (- 1, recvline cs, r)"
    by (rule read_until_error_first) (simp_all add: SSIZE_MAX_def)
  then show "read_message_header (cs\<lparr>rx := Rd_error # r\<rparr>) =
      Inr (Some (message_header_of (mem_read (recvline cs) 0 7)), cs\<lparr>rx := r\<rparr>)"
    by (simp add: read_message_header_def recv_def parse_message_header_def)
  show "read_message_header (cs\<lparr>rx := [Chunk b hs]\<rparr>) =
      Inr (None, cs\<lparr>recvline := mem_write (recvline cs) 0 (b # hs), rx := []\<rparr>)"
    using recv_eof [of 7 "cs\<lparr>rx := [Chunk b hs]\<rparr>"] assms(5)
    by (simp add: read_message_header_def parse_message_header_def MAXLINE_def)
  show "read_body (cs\<lparr>rx := [Chunk b bs]\<rparr>) (int n) =
      Inr (cs\<lparr>recvline := mem_write (recvline cs) 0 (b # bs), rx := [], parsed := (parsed cs)(n := 0)\<rparr>)"
    using read_body_eof [of "cs\<lparr>rx := [Chunk b bs]\<rparr>" n] assms(1,2) by simp
  show "read_body (cs\<lparr>rx := Rd_error # r\<rparr>) (int n) = Inl (UB Out_of_bounds)"
    using read_body_error [of "int n" "cs\<lparr>rx := Rd_error # r\<rparr>" r] assms(1) by simp
  show "read_body cs len = Inl (UB Out_of_bounds)" by (rule read_body_negative [OF assms(3,4)])
qed

theorem failed_reads_unnoticed_witness:
  "read_body (init_connection 4 2 []\<lparr>parsed := (\<lambda>_. 0x41), rx := [Chunk 0x42 []]\<rparr>) (int 3) =
    Inr (init_connection 4 2 []\<lparr>recvline := mem_write zero_buf 0 [0x42], rx := [], parsed := (\<lambda>_. 0x41)(3 := 0)\<rparr>)"
  using failed_reads_unnoticed [where n = 3 and bs = "[]" and hs = "[]" and len = "- 1" and b = "0x42"
      and cs = "init_connection 4 2 []\<lparr>parsed := (\<lambda>_. 0x41)\<rparr>"]
  by (simp add: MAXLINE_def init_connection_def)

end
