(* ===== verification/Round_Robin.thy ===== *)
theory Round_Robin
  imports Prelude
begin

text \<open>
  \<^verbatim>\<open>src/round_robin.c\<close>: the scheduler of a queue, a ring of subscribed threads kept as an
  array of nodes whose links are thread ids. Locks and condition variables have no state
  here: each function runs under the scheduler's mutex, and what it signals is part of its
  result.
\<close>

section \<open>The scheduler and its operations\<close>

record round_robin_node =
  prev :: int
  nxt :: int
  thread_id :: int

record round_robin_scheduler =
  count :: int
  first :: int
  last_sub :: int
  current :: int
  subs :: "int \<Rightarrow> round_robin_node"

text \<open>\<^verbatim>\<open>&rr->subs[i]\<close>: an index outside the array is undefined behaviour.\<close>

definition rr_index :: "int \<Rightarrow> unit result" where
  "rr_index i = assertE Out_of_bounds (0 \<le> i \<and> i < int MAX_CONNECTIONS)"

definition set_prev :: "int \<Rightarrow> int \<Rightarrow> round_robin_scheduler \<Rightarrow> round_robin_scheduler" where
  "set_prev i v rr = rr\<lparr>subs := (subs rr)(i := (subs rr i)\<lparr>prev := v\<rparr>)\<rparr>"

definition set_nxt :: "int \<Rightarrow> int \<Rightarrow> round_robin_scheduler \<Rightarrow> round_robin_scheduler" where
  "set_nxt i v rr = rr\<lparr>subs := (subs rr)(i := (subs rr i)\<lparr>nxt := v\<rparr>)\<rparr>"

definition set_thread_id :: "int \<Rightarrow> int \<Rightarrow> round_robin_scheduler \<Rightarrow> round_robin_scheduler" where
  "set_thread_id i v rr = rr\<lparr>subs := (subs rr)(i := (subs rr i)\<lparr>thread_id := v\<rparr>)\<rparr>"

definition init_round_robin_scheduler :: "round_robin_scheduler \<Rightarrow> round_robin_scheduler" where
  "init_round_robin_scheduler rr = rr\<lparr>count := 0, last_sub := - 1, first := - 1, current := - 1\<rparr>"

definition add_subscriber :: "round_robin_scheduler \<Rightarrow> int \<Rightarrow> round_robin_scheduler result" where
  "add_subscriber rr tid =
     bindE (rr_index tid) (\<lambda>_.
     bindE (if count rr = 0
            then Inr (rr\<lparr>first := tid, last_sub := tid, current := tid\<rparr>)
            else bindE (rr_index (last_sub rr)) (\<lambda>_.
                 bindE (rr_index (first rr)) (\<lambda>_.
                   Inr (set_prev (first rr) tid (set_nxt (last_sub rr) tid rr)))))
       (\<lambda>rr. let rr = set_prev tid (last_sub rr) rr;
                 rr = set_nxt tid (first rr) rr;
                 rr = set_thread_id tid tid rr
             in Inr (rr\<lparr>last_sub := tid, count := count rr + 1\<rparr>)))"

definition remove_subscriber :: "round_robin_scheduler \<Rightarrow> int \<Rightarrow> round_robin_scheduler result" where
  "remove_subscriber rr tid =
     bindE (rr_index tid) (\<lambda>_.
     let prev_id = prev (subs rr tid); next_id = nxt (subs rr tid) in
     bindE (rr_index prev_id) (\<lambda>_.
     bindE (rr_index next_id) (\<lambda>_.
       let rr = set_nxt prev_id next_id rr;
           rr = set_prev next_id prev_id rr;
           rr = (if current rr = tid then rr\<lparr>current := next_id\<rparr> else rr);
           rr = (if first rr = tid then rr\<lparr>first := next_id\<rparr> else rr);
           rr = (if last_sub rr = tid then rr\<lparr>last_sub := prev_id\<rparr> else rr);
           rr = rr\<lparr>count := count rr - 1\<rparr>
       in Inr (if count rr = 0 then rr\<lparr>first := - 1, last_sub := - 1\<rparr> else rr))))"

text \<open>\<^verbatim>\<open>next_thread\<close> returns the thread whose condition variable it broadcasts.\<close>

definition next_thread :: "round_robin_scheduler \<Rightarrow> (int \<times> round_robin_scheduler) result" where
  "next_thread rr =
     bindE (rr_index (current rr)) (\<lambda>_.
     let n = nxt (subs rr (current rr)) in
     bindE (rr_index n) (\<lambda>_. Inr (n, rr\<lparr>current := n\<rparr>)))"

text \<open>
  \<^verbatim>\<open>wait_round\<close> waits on the thread's condition variable unless it is its round; once woken
  it returns without looking again. \<open>must_wait_round\<close> is its test.
\<close>

definition must_wait_round :: "round_robin_scheduler \<Rightarrow> int \<Rightarrow> bool" where
  "must_wait_round rr tid \<longleftrightarrow> current rr \<noteq> tid"

definition wait_round :: "round_robin_scheduler \<Rightarrow> int \<Rightarrow> unit result" where
  "wait_round rr tid =
     bindE (rr_index tid) (\<lambda>_. if must_wait_round rr tid then Inl Blocked else Inr ())"

text \<open>The threads that get the next \<open>n\<close> rounds, for any \<open>next\<close> operation.\<close>

fun take_turns :: "('s \<Rightarrow> ('t \<times> 's) result) \<Rightarrow> nat \<Rightarrow> 's \<Rightarrow> ('t list \<times> 's) result" where
  "take_turns nx 0 s = Inr ([], s)"
| "take_turns nx (Suc n) s =
     bindE (nx s) (\<lambda>(t, s'). bindE (take_turns nx n s') (\<lambda>(ts, s''). Inr (t # ts, s'')))"

section \<open>The ring it represents\<close>

text \<open>
  The abstract scheduler is the list of subscribed threads in the order they subscribed,
  and the thread whose round it is. \<open>links s xs\<close>: each node of the path \<open>xs\<close> points to
  the next one and back.
\<close>

fun links :: "(int \<Rightarrow> round_robin_node) \<Rightarrow> int list \<Rightarrow> bool" where
  "links s (x # y # zs) \<longleftrightarrow> nxt (s x) = y \<and> prev (s y) = x \<and> links s (y # zs)"
| "links s _ \<longleftrightarrow> True"

definition rr_ring :: "round_robin_scheduler \<Rightarrow> int list \<Rightarrow> bool" where
  "rr_ring rr xs \<longleftrightarrow>
     distinct xs \<and> (\<forall>t \<in> set xs. 0 \<le> t \<and> t < int MAX_CONNECTIONS) \<and>
     count rr = int (length xs) \<and>
     (if xs = [] then first rr = - 1 \<and> last_sub rr = - 1
      else first rr = hd xs \<and> last_sub rr = last xs \<and> current rr \<in> set xs \<and>
           links (subs rr) (xs @ [hd xs]))"

lemma links_Cons: "links s (x # ys) \<longleftrightarrow>
    (ys = [] \<or> nxt (s x) = hd ys \<and> prev (s (hd ys)) = x) \<and> links s ys"
  by (cases ys) auto

lemma links_append:
  "links s (xs @ ys) \<longleftrightarrow> links s xs \<and> links s ys \<and>
     (xs = [] \<or> ys = [] \<or> nxt (s (last xs)) = hd ys \<and> prev (s (hd ys)) = last xs)"
  by (induction xs) (auto simp: links_Cons hd_append)

text \<open>A path only looks at the forward links of all but its last node, and the backward
  links of all but its first.\<close>

lemma links_cong:
  "(\<And>x. x \<in> set (butlast xs) \<Longrightarrow> nxt (s x) = nxt (s' x)) \<Longrightarrow>
   (\<And>y. y \<in> set (tl xs) \<Longrightarrow> prev (s y) = prev (s' y)) \<Longrightarrow> links s xs = links s' xs"
  by (induction xs rule: links.induct) auto

lemma links_nth:
  "links s xs \<Longrightarrow> Suc i < length xs \<Longrightarrow> nxt (s (xs ! i)) = xs ! Suc i \<and> prev (s (xs ! Suc i)) = xs ! i"
  by (induction xs arbitrary: i rule: links.induct) (auto simp: nth_Cons split: nat.splits)

lemma not_in_butlast_last: "distinct xs \<Longrightarrow> xs \<noteq> [] \<Longrightarrow> last xs \<notin> set (butlast xs)"
  by (metis append_butlast_last_id distinct_append disjoint_iff list.set_intros(1))

lemma not_in_tl_hd: "distinct xs \<Longrightarrow> xs \<noteq> [] \<Longrightarrow> hd xs \<notin> set (tl xs)"
  by (cases xs) auto

lemma rr_index_ok: "0 \<le> i \<Longrightarrow> i < int MAX_CONNECTIONS \<Longrightarrow> rr_index i = Inr ()"
  by (simp add: rr_index_def)

lemma rr_index_eq_Inr [simp]: "rr_index i = Inr u \<longleftrightarrow> 0 \<le> i \<and> i < int MAX_CONNECTIONS"
  by (simp add: rr_index_def)

lemma rr_ring_index: "rr_ring rr xs \<Longrightarrow> t \<in> set xs \<Longrightarrow> rr_index t = Inr ()"
  by (simp add: rr_ring_def rr_index_ok)

lemmas rr_ops = set_prev_def set_nxt_def set_thread_id_def

lemma init_ring: "rr_ring (init_round_robin_scheduler rr) []"
  by (simp add: rr_ring_def init_round_robin_scheduler_def)

lemma rr_ring_length: "rr_ring rr xs \<Longrightarrow> length xs \<le> MAX_CONNECTIONS"
proof -
  assume "rr_ring rr xs"
  then have "distinct xs" "set xs \<subseteq> {0..<int MAX_CONNECTIONS}"
    by (auto simp: rr_ring_def)
  then have "length xs \<le> card {0..<int MAX_CONNECTIONS}"
    by (metis card_mono distinct_card finite_atLeastLessThan_int)
  then show ?thesis by simp
qed

lemma add_ring:
  assumes ring: "rr_ring rr xs" and t: "0 \<le> t" "t < int MAX_CONNECTIONS" "t \<notin> set xs"
  shows "\<exists>rr'. add_subscriber rr t = Inr rr' \<and> rr_ring rr' (xs @ [t]) \<and>
           current rr' = (if xs = [] then t else current rr)"
proof (cases "xs = []")
  case True
  with ring t show ?thesis
    by (auto simp: add_subscriber_def rr_ring_def rr_ops rr_index_ok)
next
  case False
  let ?l = "last xs" and ?f = "hd xs"
  from ring False have d: "distinct xs" and c: "count rr \<noteq> 0" and f: "first rr = ?f"
    and l: "last_sub rr = ?l" and lk: "links (subs rr) xs"
    by (auto simp: rr_ring_def links_append)
  have ne: "t \<noteq> ?l" "t \<noteq> ?f" using t False by auto
  have idx: "rr_index ?l = Inr ()" "rr_index ?f = Inr ()" "rr_index t = Inr ()"
    using rr_ring_index [OF ring] False t by (auto simp: rr_index_ok)
  have "\<exists>rr'. add_subscriber rr t = Inr rr' \<and> count rr' = count rr + 1 \<and> first rr' = ?f \<and>
      last_sub rr' = t \<and> current rr' = current rr \<and>
      subs rr' = (let s1 = (subs rr)(?l := (subs rr ?l)\<lparr>nxt := t\<rparr>);
                      s2 = s1(?f := (s1 ?f)\<lparr>prev := t\<rparr>)
                  in s2(t := (s2 t)\<lparr>prev := ?l, nxt := ?f, thread_id := t\<rparr>))"
    using c idx by (simp add: add_subscriber_def f l rr_ops Let_def rr_index_ok)
  then obtain rr' where rr': "add_subscriber rr t = Inr rr'"
    and fields: "count rr' = count rr + 1" "first rr' = ?f" "last_sub rr' = t" "current rr' = current rr"
    and s: "subs rr' = (let s1 = (subs rr)(?l := (subs rr ?l)\<lparr>nxt := t\<rparr>);
                            s2 = s1(?f := (s1 ?f)\<lparr>prev := t\<rparr>)
                        in s2(t := (s2 t)\<lparr>prev := ?l, nxt := ?f, thread_id := t\<rparr>))"
    by blast
  have "links (subs rr') xs = links (subs rr) xs"
    using t not_in_butlast_last [OF d False] not_in_tl_hd [OF d False]
    by (intro links_cong) (auto simp: s Let_def dest: in_set_butlastD list.set_sel(2) [OF False])
  then have "links (subs rr') xs" using lk by simp
  then have "links (subs rr') (xs @ [t] @ [?f])"
    using ne False by (auto simp: links_append s Let_def)
  with ring t False rr' fields show ?thesis
    by (auto simp: rr_ring_def)
qed

text \<open>
  Removal takes a node out of the ring. For a ring \<open>as @ t # bs\<close> the neighbours of
  \<open>t\<close> are the ends of \<open>bs @ as\<close>, the other nodes in ring order from \<open>t\<close> on.
\<close>

lemma links_rotate:
  "as @ bs \<noteq> [] \<Longrightarrow> links s ((as @ bs) @ [hd (as @ bs)]) = links s ((bs @ as) @ [hd (bs @ as)])"
  by (cases "as = []"; cases "bs = []") (auto simp: links_append)

lemma remove_links:
  assumes d: "distinct (t # ys)" and ne: "ys \<noteq> []" and lk: "links s (t # ys @ [t])"
    and s1: "s1 = s(last ys := (s (last ys))\<lparr>nxt := hd ys\<rparr>)"
    and s2: "s2 = s1(hd ys := (s1 (hd ys))\<lparr>prev := last ys\<rparr>)"
  shows "links s2 (ys @ [hd ys])" "prev (s t) = last ys" "nxt (s t) = hd ys"
proof -
  from lk ne have l: "links s ys" "prev (s t) = last ys" "nxt (s t) = hd ys"
    by (auto simp: links_Cons links_append)
  have "links s2 ys = links s ys"
    using d not_in_butlast_last [of ys] not_in_tl_hd [of ys] ne
    by (intro links_cong) (auto simp: s1 s2)
  with l ne show "links s2 (ys @ [hd ys])" "prev (s t) = last ys" "nxt (s t) = hd ys"
    by (auto simp: links_append s1 s2)
qed

lemma remove_ring:
  assumes ring: "rr_ring rr (as @ t # bs)"
  shows "\<exists>rr'. remove_subscriber rr t = Inr rr' \<and> rr_ring rr' (as @ bs) \<and>
           (as @ bs \<noteq> [] \<longrightarrow> current rr' = (if current rr = t then hd (bs @ as) else current rr))"
proof (cases "as @ bs = []")
  case True
  with ring show ?thesis
    by (auto simp: remove_subscriber_def rr_ring_def rr_ops rr_index_ok Let_def)
next
  case False
  let ?xs = "as @ t # bs" and ?ys = "bs @ as"
  let ?p = "last ?ys" and ?n = "hd ?ys"
  from ring have d: "distinct ?xs" and c: "count rr = int (length ?xs)" and f: "first rr = hd ?xs"
    and l: "last_sub rr = last ?xs" and cur: "current rr \<in> set ?xs"
    and "links (subs rr) (?xs @ [hd ?xs])"
    by (auto simp: rr_ring_def)
  then have lk: "links (subs rr) (t # ?ys @ [t])"
    using links_rotate [of as "t # bs" "subs rr"] by simp
  have ys: "?ys \<noteq> []" "distinct (t # ?ys)" using False d by auto
  note rl = remove_links [OF ys(2,1) lk refl refl]
  have idx: "rr_index t = Inr ()" "rr_index ?p = Inr ()" "rr_index ?n = Inr ()"
    using rr_ring_index [OF ring] last_in_set [OF ys(1)] hd_in_set [OF ys(1)]
    by (simp_all only: set_append list.set Un_iff insert_iff simp_thms) blast+
  have cnt: "count rr - 1 \<noteq> 0" "count rr - 1 = int (length (as @ bs))"
    using c False by (cases as; cases bs; simp)+
  define rr' where "rr' = rr\<lparr>
      count := count rr - 1,
      first := (if hd ?xs = t then ?n else hd ?xs),
      last_sub := (if last ?xs = t then ?p else last ?xs),
      current := (if current rr = t then ?n else current rr),
      subs := (let s1 = (subs rr)(?p := (subs rr ?p)\<lparr>nxt := ?n\<rparr>)
               in s1(?n := (s1 ?n)\<lparr>prev := ?p\<rparr>))\<rparr>"
  have "remove_subscriber rr t = Inr rr'"
    using idx cnt
    by (simp add: remove_subscriber_def rr_ops Let_def rl(2,3) f l rr'_def rr_index_ok)
  moreover have "first rr' = hd (as @ bs)" "last_sub rr' = last (as @ bs)"
    using d False by (cases as; auto simp: rr'_def hd_append last_append)+
  moreover have "links (subs rr') ((as @ bs) @ [hd (as @ bs)])"
    using rl(1) links_rotate [of as bs] False by (simp add: rr'_def Let_def)
  moreover have "current rr' \<in> set (as @ bs)"
    using cur hd_in_set [OF ys(1)] by (auto simp: rr'_def)
  moreover have "current rr' = (if current rr = t then ?n else current rr)"
    by (simp add: rr'_def)
  ultimately show ?thesis
    using ring cnt False by (auto simp: rr_ring_def rr'_def)
qed

lemma next_ring:
  assumes ring: "rr_ring rr xs" and i: "i < length xs" "current rr = xs ! i"
  shows "next_thread rr = Inr (xs ! (Suc i mod length xs), rr\<lparr>current := xs ! (Suc i mod length xs)\<rparr>)"
    "rr_ring (rr\<lparr>current := xs ! (Suc i mod length xs)\<rparr>) xs"
proof -
  have ne: "xs \<noteq> []" using i by auto
  with ring have "links (subs rr) (xs @ [hd xs])" by (simp add: rr_ring_def)
  from links_nth [OF this, of i] i(1) ne
  have n: "nxt (subs rr (xs ! i)) = xs ! (Suc i mod length xs)"
    by (cases "Suc i = length xs") (auto simp: nth_append hd_conv_nth)
  have m: "xs ! (Suc i mod length xs) \<in> set xs" using ne by simp
  show "next_thread rr = Inr (xs ! (Suc i mod length xs), rr\<lparr>current := xs ! (Suc i mod length xs)\<rparr>)"
    using rr_ring_index [OF ring m] rr_ring_index [OF ring nth_mem [OF i(1)]]
    by (simp add: next_thread_def i(2) n rr_index_ok Let_def)
  show "rr_ring (rr\<lparr>current := xs ! (Suc i mod length xs)\<rparr>) xs"
    using ring m by (auto simp: rr_ring_def)
qed

lemma count_list_distinct: "distinct xs \<Longrightarrow> t \<in> set xs \<Longrightarrow> count_list xs t = 1"
  by (induction xs) (auto simp: count_list_0_iff)

section \<open>The contract of a scheduler\<close>

text \<open>
  What a queue needs from its scheduler: \<open>nx\<close> hands the round on around the ring. The
  fairness of whatever runs on top follows from this law alone.
\<close>

locale turn_taking =
  fixes nx :: "'s \<Rightarrow> ('t \<times> 's) result"
    and ring :: "'s \<Rightarrow> 't list \<Rightarrow> bool"
    and cur :: "'s \<Rightarrow> 't"
  assumes next_law: "ring s xs \<Longrightarrow> i < length xs \<Longrightarrow> cur s = xs ! i \<Longrightarrow>
    \<exists>s'. nx s = Inr (xs ! (Suc i mod length xs), s') \<and> ring s' xs \<and>
         cur s' = xs ! (Suc i mod length xs)"
begin

lemma turns:
  assumes "ring s xs" "i < length xs" "cur s = xs ! i"
  shows "\<exists>s'. take_turns nx n s = Inr (map (\<lambda>k. xs ! ((Suc i + k) mod length xs)) [0..<n], s') \<and>
           ring s' xs \<and> cur s' = xs ! ((i + n) mod length xs)"
  using assms
proof (induction n arbitrary: s i)
  case 0
  then show ?case by simp
next
  case (Suc n)
  let ?i = "Suc i mod length xs"
  from next_law [OF Suc.prems] obtain s1 where
    s1: "nx s = Inr (xs ! ?i, s1)" "ring s1 xs" "cur s1 = xs ! ?i" by blast
  have lt: "?i < length xs" using Suc.prems(2) by (simp add: mod_less_divisor [OF le_less_trans [OF le0]])
  from Suc.IH [OF s1(2) lt s1(3)] obtain s2 where
    s2: "take_turns nx n s1 = Inr (map (\<lambda>k. xs ! ((Suc ?i + k) mod length xs)) [0..<n], s2)"
      "ring s2 xs" "cur s2 = xs ! ((?i + n) mod length xs)" by blast
  have "(Suc ?i + k) mod length xs = (Suc i + Suc k) mod length xs" for k
    by (metis add_Suc add_Suc_right mod_add_left_eq)
  moreover have "(?i + n) mod length xs = (i + Suc n) mod length xs"
    by (metis add_Suc add_Suc_right mod_add_left_eq)
  moreover have "map f [0..<Suc n] = f 0 # map (\<lambda>k. f (Suc k)) [0..<n]" for f :: "nat \<Rightarrow> 't"
    by (simp add: upt_conv_Cons map_Suc_upt [symmetric] del: upt_Suc)
  ultimately show ?case
    using s1(1) s2 by (simp del: upt_Suc)
qed

lemma full_round:
  assumes "ring s xs" "i < length xs" "cur s = xs ! i"
  shows "\<exists>s'. take_turns nx (length xs) s = Inr (rotate (Suc i) xs, s') \<and> ring s' xs \<and> cur s' = cur s"
proof -
  have "map (\<lambda>k. xs ! ((Suc i + k) mod length xs)) [0..<length xs] = rotate (Suc i) xs"
    by (rule nth_equalityI) (simp_all add: nth_rotate del: rotate_Suc)
  with turns [OF assms, of "length xs"] assms show ?thesis by simp
qed

lemma take_turns_add:
  "take_turns nx m s = Inr (ts, s1) \<Longrightarrow> take_turns nx n s1 = Inr (us, s2) \<Longrightarrow>
   take_turns nx (m + n) s = Inr (ts @ us, s2)"
  by (induction m arbitrary: s ts) (auto simp: bindE_eq_Inr)

lemma rounds_fair:
  assumes "ring s xs" "distinct xs" "i < length xs" "cur s = xs ! i"
  shows "\<exists>ts s'. take_turns nx (k * length xs) s = Inr (ts, s') \<and> ring s' xs \<and> cur s' = cur s \<and>
           (\<forall>t \<in> set xs. count_list ts t = k) \<and> set ts \<subseteq> set xs"
proof (induction k)
  case 0
  with assms show ?case by simp
next
  case (Suc k)
  then obtain ts s1 where ts: "take_turns nx (k * length xs) s = Inr (ts, s1)" "ring s1 xs"
    "cur s1 = cur s" "\<forall>t \<in> set xs. count_list ts t = k" "set ts \<subseteq> set xs" by blast
  from full_round [OF ts(2) assms(3)] ts(3) assms(4) obtain s2 where
    s2: "take_turns nx (length xs) s1 = Inr (rotate (Suc i) xs, s2)" "ring s2 xs" "cur s2 = cur s"
    by auto
  have "count_list (rotate (Suc i) xs) t = 1" if "t \<in> set xs" for t
    using that assms(2) by (simp add: count_list_distinct del: rotate_Suc)
  with take_turns_add [OF ts(1) s2(1)] ts s2 show ?case
    by (simp add: add.commute [of "length xs"] count_list_append del: rotate_Suc)
qed

end

interpretation rr: turn_taking next_thread rr_ring current
proof
  fix s xs and i :: nat
  assume "rr_ring s xs" "i < length xs" "current s = xs ! i"
  from next_ring [OF this]
  show "\<exists>s'. next_thread s = Inr (xs ! (Suc i mod length xs), s') \<and> rr_ring s' xs \<and>
      current s' = xs ! (Suc i mod length xs)" by simp
qed

section \<open>Refinement of the abstract ring\<close>

datatype rr_op = Subscribe int | Unsubscribe int | Next_round

fun rr_exec :: "rr_op \<Rightarrow> round_robin_scheduler \<Rightarrow> round_robin_scheduler result" where
  "rr_exec (Subscribe t) rr = add_subscriber rr t"
| "rr_exec (Unsubscribe t) rr = remove_subscriber rr t"
| "rr_exec Next_round rr = bindE (next_thread rr) (\<lambda>(t, rr'). Inr rr')"

fun rr_run :: "rr_op list \<Rightarrow> round_robin_scheduler \<Rightarrow> round_robin_scheduler result" where
  "rr_run [] rr = Inr rr"
| "rr_run (p # ps) rr = bindE (rr_exec p rr) (rr_run ps)"

text \<open>The abstract machine: the ring as a list, and the thread whose round it is.\<close>

definition ring_succ :: "int list \<Rightarrow> int \<Rightarrow> int" where
  "ring_succ xs t = hd (tl (dropWhile (\<lambda>x. x \<noteq> t) xs) @ xs)"

fun ring_exec :: "rr_op \<Rightarrow> int list \<times> int \<Rightarrow> int list \<times> int" where
  "ring_exec (Subscribe t) (xs, c) = (xs @ [t], if xs = [] then t else c)"
| "ring_exec (Unsubscribe t) (xs, c) = (remove1 t xs, if c = t then ring_succ xs t else c)"
| "ring_exec Next_round (xs, c) = (xs, ring_succ xs c)"

fun ring_run :: "rr_op list \<Rightarrow> int list \<times> int \<Rightarrow> int list \<times> int" where
  "ring_run [] a = a"
| "ring_run (p # ps) a = ring_run ps (ring_exec p a)"

text \<open>How the broker uses it: a thread subscribes once, and only subscribed threads leave.\<close>

fun op_ok :: "rr_op \<Rightarrow> int list \<times> int \<Rightarrow> bool" where
  "op_ok (Subscribe t) (xs, c) \<longleftrightarrow> t \<notin> set xs \<and> 0 \<le> t \<and> t < int MAX_CONNECTIONS"
| "op_ok (Unsubscribe t) (xs, c) \<longleftrightarrow> t \<in> set xs"
| "op_ok Next_round (xs, c) \<longleftrightarrow> xs \<noteq> []"

fun ops_ok :: "rr_op list \<Rightarrow> int list \<times> int \<Rightarrow> bool" where
  "ops_ok [] a \<longleftrightarrow> True"
| "ops_ok (p # ps) a \<longleftrightarrow> op_ok p a \<and> ops_ok ps (ring_exec p a)"

definition rr_abs :: "round_robin_scheduler \<Rightarrow> int list \<times> int \<Rightarrow> bool" where
  "rr_abs rr a \<longleftrightarrow> rr_ring rr (fst a) \<and> (fst a \<noteq> [] \<longrightarrow> current rr = snd a)"

lemma ring_succ_split: "t \<notin> set as \<Longrightarrow> ring_succ (as @ t # bs) t = hd (bs @ as @ [t])"
proof -
  assume "t \<notin> set as"
  then have "dropWhile (\<lambda>x. x \<noteq> t) (as @ t # bs) = t # bs" by (induction as) auto
  then show ?thesis by (simp add: ring_succ_def hd_append)
qed

lemma ring_succ_nth:
  assumes "distinct xs" "i < length xs"
  shows "ring_succ xs (xs ! i) = xs ! (Suc i mod length xs)"
proof -
  have "xs ! i \<notin> set (take i xs)" using assms by (simp add: in_set_conv_nth nth_eq_iff_index_eq)
  from ring_succ_split [OF this, of "drop (Suc i) xs"] assms(2)
  have eq: "ring_succ xs (xs ! i) = hd (drop (Suc i) xs @ take i xs @ [xs ! i])"
    by (simp add: id_take_nth_drop [symmetric])
  show ?thesis
  proof (cases "Suc i = length xs")
    case True
    then have "take i xs @ [xs ! i] = xs"
      using take_Suc_conv_app_nth [OF assms(2)] by simp
    with True assms(2) show ?thesis by (cases "xs = []") (auto simp: eq hd_conv_nth)
  next
    case False
    with assms(2) show ?thesis by (simp add: eq hd_append hd_drop_conv_nth)
  qed
qed

lemma rr_exec_refines:
  assumes "rr_abs rr a" "op_ok p a"
  shows "\<exists>rr'. rr_exec p rr = Inr rr' \<and> rr_abs rr' (ring_exec p a)"
proof (cases a)
  case (Pair xs c)
  with assms have ring: "rr_ring rr xs" and c: "xs \<noteq> [] \<Longrightarrow> current rr = c"
    by (auto simp: rr_abs_def)
  have d: "distinct xs" using ring by (simp add: rr_ring_def)
  show ?thesis
  proof (cases p)
    case (Subscribe t)
    with assms(2) Pair add_ring [OF ring, of t] c show ?thesis
      by (auto simp: rr_abs_def)
  next
    case (Unsubscribe t)
    with assms(2) Pair obtain as bs where xs: "xs = as @ t # bs" "t \<notin> set as"
      by (auto dest: split_list_first)
    from remove_ring [OF ring [unfolded xs(1)]] c [unfolded xs(1)] xs
    show ?thesis
      by (auto simp: rr_abs_def Pair Unsubscribe remove1_append ring_succ_split hd_append)
  next
    case Next_round
    with assms(2) Pair have ne: "xs \<noteq> []" by simp
    with ring obtain i where i: "i < length xs" "current rr = xs ! i"
      by (auto simp: rr_ring_def in_set_conv_nth)
    from next_ring [OF ring i] ring_succ_nth [OF d i(1)] c [OF ne] i(2) show ?thesis
      by (auto simp: rr_abs_def Pair Next_round)
  qed
qed

lemma rr_run_refines:
  "rr_abs rr a \<Longrightarrow> ops_ok ps a \<Longrightarrow> \<exists>rr'. rr_run ps rr = Inr rr' \<and> rr_abs rr' (ring_run ps a)"
proof (induction ps arbitrary: rr a)
  case Nil
  then show ?case by simp
next
  case (Cons p ps)
  then obtain rr1 where "rr_exec p rr = Inr rr1" "rr_abs rr1 (ring_exec p a)"
    using rr_exec_refines [of rr a p] by auto
  with Cons.IH [of rr1 "ring_exec p a"] Cons.prems show ?case by auto
qed

lemma init_abs: "rr_abs (init_round_robin_scheduler rr) ([], c)"
  by (simp add: rr_abs_def init_ring)

section \<open>Properties\<close>

text \<open>C22. Refinement: from a freshly initialised scheduler, every sequence of
  subscriptions, removals and rounds in which threads with ids of the array subscribe at
  most once before they leave runs without undefined behaviour, and the array of linked
  nodes it ends in represents the list and the current thread the abstract ring computes.\<close>

theorem scheduler_refines_ring:
  assumes "ops_ok ps ([], c)"
  shows "\<exists>rr'. rr_run ps (init_round_robin_scheduler rr) = Inr rr' \<and> rr_abs rr' (ring_run ps ([], c))"
  using rr_run_refines [OF init_abs assms] .

definition two_subscribers :: round_robin_scheduler where
  "two_subscribers = \<lparr>count = 2, first = 3, last_sub = 5, current = 5,
     subs = (\<lambda>i. if i = 3 then \<lparr>prev = 5, nxt = 5, thread_id = 3\<rparr>
                 else \<lparr>prev = 3, nxt = 3, thread_id = 5\<rparr>)\<rparr>"

theorem scheduler_refines_ring_witness:
  "ring_run [Subscribe 4, Subscribe 7, Subscribe 2, Next_round, Unsubscribe 7, Next_round] ([], 0) = ([4, 2], 4) \<and>
   (\<exists>rr'. rr_run [Subscribe 4, Subscribe 7, Subscribe 2, Next_round, Unsubscribe 7, Next_round]
        (init_round_robin_scheduler two_subscribers) = Inr rr' \<and> rr_abs rr' ([4, 2], 4))"
proof -
  have r: "ring_run [Subscribe 4, Subscribe 7, Subscribe 2, Next_round, Unsubscribe 7, Next_round] ([], 0) =
      ([4, 2], 4)"
    by (simp add: ring_succ_def)
  have "ops_ok [Subscribe 4, Subscribe 7, Subscribe 2, Next_round, Unsubscribe 7, Next_round] ([], 0)"
    by (simp add: ring_succ_def MAX_CONNECTIONS_def)
  from scheduler_refines_ring [OF this, of two_subscribers] r show ?thesis by simp
qed

text \<open>C23. Fairness: while the subscribers stay the same, \<open>k\<close> times as many rounds as there
  are subscribers give each of them exactly \<open>k\<close> rounds, none to anybody else, and end where
  they began.\<close>

theorem rounds_are_fair:
  assumes "rr_ring rr xs" "xs \<noteq> []"
  shows "\<exists>ts rr'. take_turns next_thread (k * length xs) rr = Inr (ts, rr') \<and> rr_ring rr' xs \<and>
           current rr' = current rr \<and> (\<forall>t \<in> set xs. count_list ts t = k) \<and> set ts \<subseteq> set xs"
proof -
  from assms have "distinct xs" and "current rr \<in> set xs" by (auto simp: rr_ring_def)
  then obtain i where "i < length xs" "current rr = xs ! i" by (auto simp: in_set_conv_nth)
  with assms(1) \<open>distinct xs\<close> show ?thesis by (intro rr.rounds_fair)
qed

theorem rounds_are_fair_witness:
  "\<exists>ts rr'. take_turns next_thread (4 * length [3, 5]) two_subscribers = Inr (ts, rr') \<and>
     count_list ts 3 = 4 \<and> count_list ts 5 = 4"
proof -
  have "rr_ring two_subscribers [3, 5]"
    by (simp add: rr_ring_def two_subscribers_def MAX_CONNECTIONS_def)
  from rounds_are_fair [OF this, of 4] show ?thesis by auto
qed

end
