(* ===== verification/Queue.thy ===== *)
theory Queue
  imports Round_Robin
begin

text \<open>
  \<^verbatim>\<open>src/queue.c\<close>: a queue is a linked list of message nodes, from \<^verbatim>\<open>last_node\<close> (the next
  to leave) along the \<^verbatim>\<open>parent\<close> pointers to \<^verbatim>\<open>first_node\<close> (the newest), with the scheduler of
  its consumers. Nodes live in a heap shared by all queues. The heap maps addresses to
  nodes; \<^verbatim>\<open>malloc\<close> returns an address that was never used and \<^verbatim>\<open>free\<close> removes the node, so
  that a later access is undefined behaviour.
\<close>

section \<open>Nodes, queues and the heap\<close>

record q_node =
  parent :: "nat option"
  node_length :: int
  body :: "byte list"

record queue =
  name :: "byte list"
  queue_size :: int
  rr :: round_robin_scheduler
  first_node :: "nat option"
  last_node :: "nat option"

record node_heap =
  nodes :: "nat \<Rightarrow> q_node option"
  next_addr :: nat

definition empty_heap :: node_heap where
  "empty_heap = \<lparr>nodes = (\<lambda>_. None), next_addr = 0\<rparr>"

definition malloc_node :: "node_heap \<Rightarrow> q_node \<Rightarrow> nat \<times> node_heap" where
  "malloc_node h n =
     (next_addr h, h\<lparr>nodes := (nodes h)(next_addr h := Some n), next_addr := Suc (next_addr h)\<rparr>)"

definition free_node :: "node_heap \<Rightarrow> nat \<Rightarrow> node_heap" where
  "free_node h a = h\<lparr>nodes := (nodes h)(a := None)\<rparr>"

definition deref :: "node_heap \<Rightarrow> nat option \<Rightarrow> (nat \<times> q_node) result" where
  "deref h p =
     (case p of None \<Rightarrow> Inl (UB Null_deref)
      | Some a \<Rightarrow> (case nodes h a of None \<Rightarrow> Inl (UB Dangling) | Some n \<Rightarrow> Inr (a, n)))"

definition INT_MAX :: int where
  "INT_MAX = 2 ^ 31 - 1"

section \<open>Operations\<close>

text \<open>The scheduler's fields before \<^verbatim>\<open>init_round_robin_scheduler\<close> are what \<^verbatim>\<open>malloc\<close> left: \<open>raw\<close>.\<close>

definition new_queue :: "round_robin_scheduler \<Rightarrow> byte list \<Rightarrow> queue result" where
  "new_queue raw nm =
     bindE (assertE Out_of_bounds (length nm < MAX_QUEUE_NAME)) (\<lambda>_.
       Inr \<lparr>name = nm, queue_size = 0, rr = init_round_robin_scheduler raw,
            first_node = None, last_node = None\<rparr>)"

definition q_enqueue :: "queue \<Rightarrow> node_heap \<Rightarrow> byte list \<Rightarrow> (queue \<times> node_heap) result" where
  "q_enqueue q h msg =
     (let (n, h) = malloc_node h \<lparr>parent = None, node_length = int (length msg), body = msg\<rparr> in
      bindE (if first_node q = None then Inr h
             else bindE (deref h (first_node q)) (\<lambda>(a, node).
                    Inr (h\<lparr>nodes := (nodes h)(a := Some (node\<lparr>parent := Some n\<rparr>))\<rparr>)))
        (\<lambda>h.
      let q = q\<lparr>first_node := Some n\<rparr>;
          q = (if last_node q = None then q\<lparr>last_node := Some n\<rparr> else q)
      in bindE (assertE Signed_overflow (queue_size q < INT_MAX)) (\<lambda>_.
           Inr (q\<lparr>queue_size := queue_size q + 1\<rparr>, h))))"

text \<open>
  \<^verbatim>\<open>q_dequeue\<close> copies the oldest body into \<^verbatim>\<open>dest\<close>, an array of \<open>cap\<close> bytes, and frees its
  node. The boolean says whether it returns \<^verbatim>\<open>dest\<close> or \<^verbatim>\<open>NULL\<close>; in the latter case nothing
  was written.
\<close>

definition q_dequeue ::
  "nat \<Rightarrow> queue \<Rightarrow> node_heap \<Rightarrow> buf \<Rightarrow> (bool \<times> buf \<times> queue \<times> node_heap) result" where
  "q_dequeue cap q h dest =
     (if last_node q = None then Inr (False, dest, q, h)
      else bindE (deref h (last_node q)) (\<lambda>(a, node).
           bindE (buf_store cap dest 0 (body node @ [0])) (\<lambda>dest.
           let q = q\<lparr>last_node := parent node\<rparr>;
               h = free_node h a;
               q = (if first_node q = Some a then q\<lparr>first_node := None\<rparr> else q)
           in Inr (True, dest, q\<lparr>queue_size := queue_size q - 1\<rparr>, h))))"

text \<open>
  \<^verbatim>\<open>wait_msg\<close> waits for a broadcast when the queue is empty, and returns after any wake-up
  without looking again.
\<close>

definition must_wait_msg :: "queue \<Rightarrow> bool" where
  "must_wait_msg q \<longleftrightarrow> queue_size q = 0"

definition wait_msg :: "queue \<Rightarrow> unit result" where
  "wait_msg q = (if must_wait_msg q then Inl Blocked else Inr ())"

text \<open>What \<^verbatim>\<open>q_dequeue_rr\<close> does once both waits are over, with the thread it signals.\<close>

definition q_dequeue_turn ::
  "nat \<Rightarrow> queue \<Rightarrow> node_heap \<Rightarrow> buf \<Rightarrow> (bool \<times> int \<times> buf \<times> queue \<times> node_heap) result" where
  "q_dequeue_turn cap q h dest =
     bindE (q_dequeue cap q h dest) (\<lambda>(ret, dest, q, h).
     bindE (next_thread (rr q)) (\<lambda>(signalled, rr').
       Inr (ret, signalled, dest, q\<lparr>rr := rr'\<rparr>, h)))"

definition q_dequeue_rr ::
  "nat \<Rightarrow> queue \<Rightarrow> node_heap \<Rightarrow> int \<Rightarrow> buf \<Rightarrow> (bool \<times> int \<times> buf \<times> queue \<times> node_heap) result" where
  "q_dequeue_rr cap q h tid dest =
     bindE (wait_round (rr q) tid) (\<lambda>_.
     bindE (wait_msg q) (\<lambda>_.
       q_dequeue_turn cap q h dest))"

text \<open>The loop of \<^verbatim>\<open>free_queue\<close> follows the parent pointers; \<open>None\<close> would be a walk that never ends.\<close>

partial_function (option) free_nodes :: "node_heap \<Rightarrow> nat option \<Rightarrow> node_heap result option" where
  "free_nodes h n =
     (case n of None \<Rightarrow> Some (Inr h)
      | Some old \<Rightarrow> (case nodes h old of None \<Rightarrow> Some (Inl (UB Dangling))
                   | Some node \<Rightarrow> free_nodes (free_node h old) (parent node)))"

definition q_size :: "queue \<Rightarrow> int" where
  "q_size q = queue_size q"

definition q_add_subscriber :: "queue \<Rightarrow> int \<Rightarrow> queue result" where
  "q_add_subscriber q tid = bindE (add_subscriber (rr q) tid) (\<lambda>rr'. Inr (q\<lparr>rr := rr'\<rparr>))"

section \<open>The list of messages it represents\<close>

text \<open>
  \<open>holds H p as ms\<close>: from \<open>p\<close> the parent pointers go through the nodes at the
  addresses \<open>as\<close>, which hold the messages \<open>ms\<close>, and end.
\<close>

fun holds :: "(nat \<Rightarrow> q_node option) \<Rightarrow> nat option \<Rightarrow> nat list \<Rightarrow> byte list list \<Rightarrow> bool" where
  "holds H p [] [] \<longleftrightarrow> p = None"
| "holds H p (a # as) (m # ms) \<longleftrightarrow> p = Some a \<and>
     (case H a of None \<Rightarrow> False
      | Some n \<Rightarrow> body n = m \<and> node_length n = int (length m) \<and> nul_free m \<and> holds H (parent n) as ms)"
| "holds H p _ _ \<longleftrightarrow> False"

definition heap_ok :: "node_heap \<Rightarrow> bool" where
  "heap_ok h \<longleftrightarrow> (\<forall>a \<ge> next_addr h. nodes h a = None)"

definition queue_rep :: "node_heap \<Rightarrow> queue \<Rightarrow> nat list \<Rightarrow> byte list list \<Rightarrow> bool" where
  "queue_rep h q as ms \<longleftrightarrow>
     holds (nodes h) (last_node q) as ms \<and> distinct as \<and>
     first_node q = (if as = [] then None else Some (last as)) \<and>
     queue_size q = int (length ms)"

lemma holds_length: "holds H p as ms \<Longrightarrow> length as = length ms"
  by (induction H p as ms rule: holds.induct) (auto split: option.splits)

lemma holds_nul_free: "holds H p as ms \<Longrightarrow> m \<in> set ms \<Longrightarrow> nul_free m"
  by (induction H p as ms rule: holds.induct) (auto split: option.splits)

lemma holds_allocated: "holds H p as ms \<Longrightarrow> a \<in> set as \<Longrightarrow> H a \<noteq> None"
  by (induction H p as ms rule: holds.induct) (auto split: option.splits)

lemma holds_cong: "(\<And>a. a \<in> set as \<Longrightarrow> H a = H' a) \<Longrightarrow> holds H p as ms = holds H' p as ms"
proof (induction H p as ms rule: holds.induct)
  case (2 H p a as m ms)
  then show ?case by (cases "H' a") auto
qed auto

lemma holds_upd_other [simp]: "a \<notin> set as \<Longrightarrow> holds (H(a := n)) p as ms = holds H p as ms"
  by (rule holds_cong) auto

lemma holds_snoc:
  assumes "holds H p as ms" "as \<noteq> []" "distinct as" "b \<notin> set as" "H (last as) = Some n" "nul_free m"
  shows "holds (H(b := Some \<lparr>parent = None, node_length = int (length m), body = m\<rparr>,
                   last as := Some (n\<lparr>parent := Some b\<rparr>))) p (as @ [b]) (ms @ [m])"
  using assms
proof (induction H p as ms rule: holds.induct)
  case (2 H p a as k ms)
  show ?case
  proof (cases "as = []")
    case True
    with 2 have "ms = []" by (auto split: option.splits dest!: holds_length)
    with True 2 show ?thesis by auto
  next
    case False
    with 2(2,4) have "last as \<noteq> a" by auto
    with 2 False show ?thesis by (auto split: option.splits)
  qed
qed auto

lemma heap_ok_fresh: "heap_ok h \<Longrightarrow> nodes h (next_addr h) = None"
  by (simp add: heap_ok_def)

lemma empty_heap_ok [simp]: "heap_ok empty_heap"
  by (simp add: heap_ok_def empty_heap_def)

lemma queue_rep_new: "new_queue raw nm = Inr q \<Longrightarrow> queue_rep h q [] []"
  by (auto simp: new_queue_def bindE_eq_Inr queue_rep_def)

lemma queue_rep_Cons: "queue_rep h q as (m # ms) \<Longrightarrow> \<exists>a as'. as = a # as'"
  by (cases as) (auto simp: queue_rep_def)

text \<open>
  What an operation leaves alone: every node that was allocated and is not one of the
  queue's own.
\<close>

definition heap_frame :: "node_heap \<Rightarrow> node_heap \<Rightarrow> nat list \<Rightarrow> bool" where
  "heap_frame h h' as \<longleftrightarrow>
     next_addr h \<le> next_addr h' \<and> (\<forall>b. b < next_addr h \<longrightarrow> b \<notin> set as \<longrightarrow> nodes h' b = nodes h b)"

lemma queue_rep_below: "heap_ok h \<Longrightarrow> queue_rep h q as ms \<Longrightarrow> a \<in> set as \<Longrightarrow> a < next_addr h"
  by (metis heap_ok_def holds_allocated linorder_not_less queue_rep_def)

lemma queue_rep_frame:
  assumes "heap_ok h" "queue_rep h q as ms" "heap_frame h h' bs" "set as \<inter> set bs = {}"
  shows "queue_rep h' q as ms"
proof -
  have "nodes h a = nodes h' a" if "a \<in> set as" for a
    using assms queue_rep_below [OF assms(1,2) that] that by (auto simp: heap_frame_def)
  then have "holds (nodes h) p as ms = holds (nodes h') p as ms" for p by (rule holds_cong)
  with assms(2) show ?thesis by (simp add: queue_rep_def)
qed

lemma enqueue_rep:
  assumes "queue_rep h q as ms" "heap_ok h" "nul_free m" "int (length ms) < INT_MAX"
  shows "\<exists>q' h'. q_enqueue q h m = Inr (q', h') \<and> queue_rep h' q' (as @ [next_addr h]) (ms @ [m]) \<and>
           heap_ok h' \<and> heap_frame h h' as \<and> next_addr h' = Suc (next_addr h) \<and>
           rr q' = rr q \<and> name q' = name q"
proof (cases "as = []")
  case True
  with assms have "ms = []" "first_node q = None" "last_node q = None"
    by (auto simp: queue_rep_def dest: holds_length split: list.splits) (cases ms; simp)
  with assms True show ?thesis
    by (auto simp: q_enqueue_def malloc_node_def queue_rep_def heap_ok_def heap_frame_def Let_def)
next
  case False
  let ?b = "next_addr h"
  have l: "last as \<in> set as" using False by simp
  from assms(1) have hd: "holds (nodes h) (last_node q) as ms" and d: "distinct as"
    and f: "first_node q = Some (last as)" and s: "queue_size q = int (length ms)"
    using False by (auto simp: queue_rep_def)
  obtain n where n: "nodes h (last as) = Some n" using holds_allocated [OF hd l] by auto
  have lt: "last as < ?b" using queue_rep_below [OF assms(2,1) l] .
  have b: "?b \<notin> set as" using queue_rep_below [OF assms(2,1)] by auto
  have "last_node q \<noteq> None" using hd False by (cases as; cases ms) auto
  with f s n lt assms(4) have eq: "q_enqueue q h m = Inr (q\<lparr>first_node := Some ?b, queue_size := queue_size q + 1\<rparr>,
      h\<lparr>nodes := (nodes h)(?b := Some \<lparr>parent = None, node_length = int (length m), body = m\<rparr>,
          last as := Some (n\<lparr>parent := Some ?b\<rparr>)), next_addr := Suc ?b\<rparr>)"
    by (auto simp: q_enqueue_def malloc_node_def deref_def Let_def)
  show ?thesis
    using eq holds_snoc [OF hd False d b n assms(3)] d b s lt l assms(2)
    by (auto simp: queue_rep_def heap_ok_def heap_frame_def)
qed

lemma dequeue_rep:
  assumes rep: "queue_rep h q (a # as) (m # ms)" and "heap_ok h" "length m < cap"
  shows "\<exists>q' h'. q_dequeue cap q h dest = Inr (True, mem_write dest 0 (m @ [0]), q', h') \<and>
           queue_rep h' q' as ms \<and> heap_ok h' \<and> heap_frame h h' [a] \<and> next_addr h' = next_addr h \<and>
           nodes h' a = None \<and> rr q' = rr q \<and> name q' = name q"
proof -
  from rep obtain n where n: "nodes h a = Some n" "body n = m" "holds (nodes h) (parent n) as ms"
    by (auto simp: queue_rep_def split: option.splits)
  with rep have "holds (nodes (free_node h a)) (parent n) as ms"
    by (simp add: queue_rep_def free_node_def)
  moreover have "as \<noteq> [] \<Longrightarrow> last as \<noteq> a" using rep last_in_set [of as] by (auto simp: queue_rep_def)
  ultimately show ?thesis
    using rep n assms(2,3)
    by (auto simp: queue_rep_def q_dequeue_def deref_def buf_store_ok Let_def free_node_def
        heap_ok_def heap_frame_def)
qed

lemma dequeue_empty: "queue_rep h q as [] \<Longrightarrow> q_dequeue cap q h dest = Inr (False, dest, q, h)"
  by (cases as) (auto simp: queue_rep_def q_dequeue_def)

lemma free_nodes_rep:
  "holds (nodes h) p as ms \<Longrightarrow> distinct as \<Longrightarrow>
   free_nodes h p = Some (Inr (h\<lparr>nodes := (\<lambda>b. if b \<in> set as then None else nodes h b)\<rparr>))"
proof (induction as arbitrary: h p ms)
  case Nil
  then show ?case by (cases ms) (auto simp: free_nodes.simps)
next
  case (Cons a as)
  then obtain m ms' n where ms: "ms = m # ms'" "p = Some a" "nodes h a = Some n"
    "holds (nodes h) (parent n) as ms'"
    by (cases ms) (auto split: option.splits)
  with Cons.prems have "holds (nodes (free_node h a)) (parent n) as ms'"
    by (simp add: free_node_def)
  from Cons.IH [OF this] Cons.prems ms have
    "free_nodes h p = Some (Inr (free_node h a
       \<lparr>nodes := (\<lambda>b. if b \<in> set as then None else nodes (free_node h a) b)\<rparr>))"
    by (subst free_nodes.simps) simp
  moreover have "(\<lambda>b. if b \<in> set as then None else nodes (free_node h a) b) =
      (\<lambda>b. if b \<in> set (a # as) then None else nodes h b)"
    by (rule ext) (auto simp: free_node_def)
  ultimately show ?case by (simp add: free_node_def)
qed

section \<open>The contract of a first-in first-out queue\<close>

text \<open>
  Operations of a client of a queue, run against any implementation and against the list of
  messages. The locale states what an implementation promises about \<open>n\<close> messages at
  most; conservation of messages follows for all of them.
\<close>

datatype 'm q_op = Enqueue 'm | Dequeue

fun fifo_run ::
  "('m \<Rightarrow> 's \<Rightarrow> 's result) \<Rightarrow> ('s \<Rightarrow> ('m option \<times> 's) result) \<Rightarrow> 'm q_op list \<Rightarrow> 's \<Rightarrow>
   ('m option list \<times> 's) result"
where
  "fifo_run enq deq [] s = Inr ([], s)"
| "fifo_run enq deq (Enqueue m # ps) s = bindE (enq m s) (fifo_run enq deq ps)"
| "fifo_run enq deq (Dequeue # ps) s =
     bindE (deq s) (\<lambda>(r, s). bindE (fifo_run enq deq ps s) (\<lambda>(rs, s). Inr (r # rs, s)))"

fun fifo_spec :: "'m q_op list \<Rightarrow> 'm list \<Rightarrow> 'm option list \<times> 'm list" where
  "fifo_spec [] ms = ([], ms)"
| "fifo_spec (Enqueue m # ps) ms = fifo_spec ps (ms @ [m])"
| "fifo_spec (Dequeue # ps) ms =
     (let (rs, ms') = fifo_spec ps (tl ms)
      in ((if ms = [] then None else Some (hd ms)) # rs, ms'))"

fun enqueued :: "'m q_op list \<Rightarrow> 'm list" where
  "enqueued [] = []"
| "enqueued (Enqueue m # ps) = m # enqueued ps"
| "enqueued (Dequeue # ps) = enqueued ps"

definition delivered :: "'m option list \<Rightarrow> 'm list" where
  "delivered rs = map the (filter (\<lambda>r. r \<noteq> None) rs)"

lemma delivered_simps [simp]:
  "delivered [] = []" "delivered (None # rs) = delivered rs" "delivered (Some m # rs) = m # delivered rs"
  by (simp_all add: delivered_def)

text \<open>Nothing is lost, duplicated or reordered.\<close>

lemma fifo_spec_conserves:
  "fifo_spec ps ms = (rs, ms') \<Longrightarrow> ms @ enqueued ps = delivered rs @ ms'"
proof (induction ps ms arbitrary: rs rule: fifo_spec.induct)
  case (3 ps ms)
  then show ?case by (cases ms) (auto simp: Let_def split: prod.splits)
qed auto

locale fifo =
  fixes enq :: "'m \<Rightarrow> 's \<Rightarrow> 's result"
    and deq :: "'s \<Rightarrow> ('m option \<times> 's) result"
    and rep :: "'s \<Rightarrow> 'm list \<Rightarrow> bool"
    and valid :: "'m \<Rightarrow> bool"
    and limit :: nat
  assumes enq_law: "rep s ms \<Longrightarrow> valid m \<Longrightarrow> length ms < limit \<Longrightarrow>
      \<exists>s'. enq m s = Inr s' \<and> rep s' (ms @ [m])"
    and deq_law: "rep s (m # ms) \<Longrightarrow> \<exists>s'. deq s = Inr (Some m, s') \<and> rep s' ms"
    and deq_empty_law: "rep s [] \<Longrightarrow> deq s = Inr (None, s)"
begin

lemma run_refines:
  assumes "rep s ms" "\<forall>m \<in> set (enqueued ps). valid m" "length ms + length (enqueued ps) \<le> limit"
  shows "\<exists>s'. fifo_run enq deq ps s = Inr (fst (fifo_spec ps ms), s') \<and> rep s' (snd (fifo_spec ps ms))"
  using assms
proof (induction ps ms arbitrary: s rule: fifo_spec.induct)
  case (1 ms)
  then show ?case by simp
next
  case (2 m ps ms)
  from 2(2-4) obtain s1 where "enq m s = Inr s1" "rep s1 (ms @ [m])"
    using enq_law [of s ms m] by auto
  with 2 show ?case by simp
next
  case (3 ps ms)
  have "\<exists>s1. deq s = Inr (if ms = [] then None else Some (hd ms), s1) \<and> rep s1 (tl ms)"
    using 3(2) by (cases ms) (auto dest: deq_law deq_empty_law)
  then obtain s1 where "deq s = Inr (if ms = [] then None else Some (hd ms), s1)" "rep s1 (tl ms)"
    by blast
  moreover have "length (tl ms) + length (enqueued ps) \<le> limit" using 3(4) by simp
  ultimately show ?case
    using 3(1) [of s1] 3(3) by (auto simp: Let_def split_beta bindE_eq_Inr)
qed

end

text \<open>The linked list as such an implementation; a message comes out of the array it was copied to.\<close>

definition queue_enq :: "byte list \<Rightarrow> queue \<times> node_heap \<Rightarrow> (queue \<times> node_heap) result" where
  "queue_enq m s = q_enqueue (fst s) (snd s) m"

definition queue_deq :: "queue \<times> node_heap \<Rightarrow> (byte list option \<times> queue \<times> node_heap) result" where
  "queue_deq s =
     bindE (q_dequeue MAXLINE (fst s) (snd s) zero_buf) (\<lambda>(ret, dest, q, h).
       if ret then bindE (cstring MAXLINE dest 0) (\<lambda>m. Inr (Some m, q, h)) else Inr (None, q, h))"

definition valid_msg :: "byte list \<Rightarrow> bool" where
  "valid_msg m \<longleftrightarrow> nul_free m \<and> length m < MAXLINE"

definition fifo_rep :: "queue \<times> node_heap \<Rightarrow> byte list list \<Rightarrow> bool" where
  "fifo_rep s ms \<longleftrightarrow> heap_ok (snd s) \<and> (\<exists>as. queue_rep (snd s) (fst s) as ms) \<and> (\<forall>m \<in> set ms. valid_msg m)"

interpretation q: fifo queue_enq queue_deq fifo_rep valid_msg "nat INT_MAX"
proof
  fix s ms m
  assume rep: "fifo_rep s ms" and m: "valid_msg m" "length ms < nat INT_MAX"
  then obtain as where as: "queue_rep (snd s) (fst s) as ms" "heap_ok (snd s)"
    by (auto simp: fifo_rep_def)
  from m have "nul_free m" "int (length ms) < INT_MAX" by (auto simp: INT_MAX_def valid_msg_def)
  from enqueue_rep [OF as this] obtain q' h' where
    "q_enqueue (fst s) (snd s) m = Inr (q', h')" "queue_rep h' q' (as @ [next_addr (snd s)]) (ms @ [m])"
    "heap_ok h'" by blast
  then have "queue_enq m s = Inr (q', h')" "fifo_rep (q', h') (ms @ [m])"
    using rep m(1) by (auto simp: fifo_rep_def queue_enq_def)
  then show "\<exists>s'. queue_enq m s = Inr s' \<and> fifo_rep s' (ms @ [m])" by blast
next
  fix s m ms
  assume rep: "fifo_rep s (m # ms)"
  then obtain as where as: "queue_rep (snd s) (fst s) as (m # ms)" and h: "heap_ok (snd s)"
    and m: "nul_free m" "length m < MAXLINE"
    by (auto simp: fifo_rep_def valid_msg_def)
  obtain a as' where "as = a # as'" using queue_rep_Cons [OF as] by blast
  from dequeue_rep [OF as [unfolded this] h m(2), of zero_buf] obtain q' h' where
    d: "q_dequeue MAXLINE (fst s) (snd s) zero_buf = Inr (True, mem_write zero_buf 0 (m @ [0]), q', h')"
    and "queue_rep h' q' as' ms" "heap_ok h'" by blast
  then have "fifo_rep (q', h') ms" using rep by (auto simp: fifo_rep_def)
  moreover have "queue_deq s = Inr (Some m, q', h')"
    using m by (simp add: queue_deq_def d cstring_write)
  ultimately show "\<exists>s'. queue_deq s = Inr (Some m, s') \<and> fifo_rep s' ms" by blast
next
  fix s
  assume "fifo_rep s []"
  then show "queue_deq s = Inr (None, s)"
    by (auto simp: fifo_rep_def queue_deq_def dequeue_empty)
qed

section \<open>Consumers in turn\<close>

text \<open>
  \<open>serve n\<close>: \<open>n\<close> times, the thread whose round it is calls \<^verbatim>\<open>q_dequeue_rr\<close>. The result
  lists who got which message.
\<close>

fun serve :: "nat \<Rightarrow> queue \<times> node_heap \<Rightarrow> ((int \<times> byte list) list \<times> queue \<times> node_heap) result" where
  "serve 0 s = Inr ([], s)"
| "serve (Suc n) (q, h) =
     bindE (q_dequeue_rr MAXLINE q h (current (rr q)) zero_buf) (\<lambda>(ret, signalled, dest, q', h').
     bindE (cstring MAXLINE dest 0) (\<lambda>m.
     bindE (serve n (q', h')) (\<lambda>(ds, s).
       Inr ((current (rr q), m) # ds, s))))"

lemma wait_round_own: "rr_ring r xs \<Longrightarrow> xs \<noteq> [] \<Longrightarrow> wait_round r (current r) = Inr ()"
  using rr_ring_index [of r xs "current r"]
  by (simp add: wait_round_def must_wait_round_def rr_ring_def rr_index_ok)

lemma dequeue_rr_rep:
  assumes rep: "queue_rep h q (a # as) (m # ms)" "heap_ok h" "length m < cap"
    and ring: "rr_ring (rr q) xs" "i < length xs" "current (rr q) = xs ! i"
  shows "\<exists>q' h'. q_dequeue_rr cap q h (xs ! i) dest =
             Inr (True, xs ! (Suc i mod length xs), mem_write dest 0 (m @ [0]), q', h') \<and>
           queue_rep h' q' as ms \<and> heap_ok h' \<and> heap_frame h h' [a] \<and>
           rr_ring (rr q') xs \<and> current (rr q') = xs ! (Suc i mod length xs)"
proof -
  from dequeue_rep [OF rep, of dest] obtain q1 h1 where
    d: "q_dequeue cap q h dest = Inr (True, mem_write dest 0 (m @ [0]), q1, h1)"
      "queue_rep h1 q1 as ms" "heap_ok h1" "heap_frame h h1 [a]" "rr q1 = rr q" by blast
  have "wait_round (rr q) (xs ! i) = Inr ()"
    using wait_round_own [OF ring(1)] ring(2,3) by (cases "xs = []") auto
  moreover have "wait_msg q = Inr ()"
    using rep(1) by (simp add: wait_msg_def must_wait_msg_def queue_rep_def)
  ultimately show ?thesis
    using d next_ring [OF ring] by (simp add: q_dequeue_rr_def q_dequeue_turn_def queue_rep_def)
qed

lemma serve_in_turn:
  assumes "fifo_rep (q, h) ms" "rr_ring (rr q) xs" "i < length xs" "current (rr q) = xs ! i"
    and "n \<le> length ms"
  shows "\<exists>s'. serve n (q, h) =
             Inr (zip (map (\<lambda>k. xs ! ((i + k) mod length xs)) [0..<n]) (take n ms), s') \<and>
           fifo_rep s' (drop n ms)"
  using assms
proof (induction n arbitrary: q h ms i)
  case 0
  then show ?case by simp
next
  case (Suc n)
  let ?j = "Suc i mod length xs"
  from Suc.prems(5) obtain m ms' where ms: "ms = m # ms'" by (cases ms) auto
  with Suc.prems(1) obtain as where as: "queue_rep h q as (m # ms')" and h: "heap_ok h"
    and m: "nul_free m" "length m < MAXLINE"
    by (auto simp: fifo_rep_def valid_msg_def)
  obtain a as' where "as = a # as'" using queue_rep_Cons [OF as] by blast
  from dequeue_rr_rep [OF as [unfolded this] h m(2) Suc.prems(2-4), of zero_buf]
  obtain q' h' where d: "q_dequeue_rr MAXLINE q h (xs ! i) zero_buf =
      Inr (True, xs ! ?j, mem_write zero_buf 0 (m @ [0]), q', h')" "queue_rep h' q' as' ms'"
    "heap_ok h'" "rr_ring (rr q') xs" "current (rr q') = xs ! ?j" by blast
  have rep: "fifo_rep (q', h') ms'" using d(2,3) Suc.prems(1) ms by (auto simp: fifo_rep_def)
  have lt: "?j < length xs" using Suc.prems(3) by (simp add: mod_less_divisor [OF le_less_trans [OF le0]])
  from Suc.IH [OF rep d(4) lt d(5)] Suc.prems(5) ms obtain s' where
    s': "serve n (q', h') = Inr (zip (map (\<lambda>k. xs ! ((?j + k) mod length xs)) [0..<n]) (take n ms'), s')"
      "fifo_rep s' (drop n ms')" by auto
  have "(?j + k) mod length xs = (i + Suc k) mod length xs" for k
    by (metis add_Suc add_Suc_right mod_add_left_eq)
  moreover have "map f [0..<Suc n] = f 0 # map (\<lambda>k. f (Suc k)) [0..<n]" for f :: "nat \<Rightarrow> int"
    by (simp add: upt_conv_Cons map_Suc_upt [symmetric] del: upt_Suc)
  ultimately show ?case
    using d(1) s' m Suc.prems(3,4) ms by (simp add: cstring_write del: upt_Suc)
qed

section \<open>Properties\<close>

text \<open>C24. Refinement to a list: from a new queue, any sequence of enqueue and dequeue
  operations of valid messages, at most \<open>INT_MAX\<close> of them enqueued, runs without undefined
  behaviour and answers what a list answers; what was enqueued is what was delivered, in
  order, followed by what is still queued.\<close>

theorem queue_is_fifo:
  assumes "new_queue raw nm = Inr q" "\<forall>m \<in> set (enqueued ps). valid_msg m"
    and "int (length (enqueued ps)) \<le> INT_MAX"
  shows "\<exists>s. fifo_run queue_enq queue_deq ps (q, empty_heap) = Inr (fst (fifo_spec ps []), s) \<and>
           fifo_rep s (snd (fifo_spec ps [])) \<and>
           enqueued ps = delivered (fst (fifo_spec ps [])) @ snd (fifo_spec ps [])"
proof -
  have "fifo_rep (q, empty_heap) []"
    using queue_rep_new [OF assms(1)] by (auto simp: fifo_rep_def)
  moreover have "length ([] :: byte list list) + length (enqueued ps) \<le> nat INT_MAX"
    using assms(3) by (simp add: INT_MAX_def)
  ultimately show ?thesis
    using q.run_refines [of "(q, empty_heap)" "[]" ps] assms(2) fifo_spec_conserves [of ps "[]"]
    by (auto simp: prod_eq_iff)
qed

theorem queue_is_fifo_witness:
  "\<exists>q s. new_queue two_subscribers [0x71] = Inr q \<and>
     fifo_run queue_enq queue_deq [Dequeue, Enqueue [1], Enqueue [2, 3], Dequeue, Enqueue [4]] (q, empty_heap) =
       Inr ([None, Some [1]], s) \<and> fifo_rep s [[2, 3], [4]]"
proof -
  let ?ps = "[Dequeue, Enqueue [1], Enqueue [2, 3], Dequeue, Enqueue [4 :: byte]]"
  obtain q where q: "new_queue two_subscribers [0x71] = Inr q"
    by (simp add: new_queue_def MAX_QUEUE_NAME_def)
  have "fifo_spec ?ps [] = ([None, Some [1]], [[2, 3], [4]])" by simp
  moreover have "\<forall>m \<in> set (enqueued ?ps). valid_msg m" "int (length (enqueued ?ps)) \<le> INT_MAX"
    by (auto simp: valid_msg_def MAXLINE_def INT_MAX_def)
  ultimately show ?thesis
    using queue_is_fifo [OF q, of ?ps] q by auto
qed

text \<open>C25. Round-robin delivery: as long as the threads in turn take messages, the \<open>k\<close>-th
  message of the queue goes to the \<open>k\<close>-th subscriber in ring order from the one whose round
  it is, cyclically, each message to exactly one thread; the rest stays queued.\<close>

theorem messages_go_round_robin:
  assumes "fifo_rep (q, h) ms" "rr_ring (rr q) xs" "i < length xs" "current (rr q) = xs ! i"
    and "n \<le> length ms"
  shows "\<exists>s'. serve n (q, h) =
             Inr (zip (map (\<lambda>k. xs ! ((i + k) mod length xs)) [0..<n]) (take n ms), s') \<and>
           fifo_rep s' (drop n ms)"
  using serve_in_turn [OF assms] .

definition sample_heap :: node_heap where
  "sample_heap = \<lparr>nodes = (\<lambda>_. None)(0 := Some \<lparr>parent = Some 1, node_length = 1, body = [7]\<rparr>,
     1 := Some \<lparr>parent = Some 2, node_length = 1, body = [8]\<rparr>,
     2 := Some \<lparr>parent = None, node_length = 1, body = [9]\<rparr>), next_addr = 3\<rparr>"

definition sample_queue :: queue where
  "sample_queue = \<lparr>name = [0x71], queue_size = 3, rr = two_subscribers,
     first_node = Some 2, last_node = Some 0\<rparr>"

lemma sample_rep: "queue_rep sample_heap sample_queue [0, 1, 2] [[7], [8], [9]]" "heap_ok sample_heap"
  by (auto simp: queue_rep_def sample_heap_def sample_queue_def heap_ok_def)

lemma sample_ring: "rr_ring (rr sample_queue) [3, 5]"
  by (simp add: rr_ring_def sample_queue_def two_subscribers_def MAX_CONNECTIONS_def)

theorem messages_go_round_robin_witness:
  "\<exists>s'. serve 3 (sample_queue, sample_heap) = Inr ([(5, [7]), (3, [8]), (5, [9])], s')"
proof -
  have "fifo_rep (sample_queue, sample_heap) [[7], [8], [9]]"
    using sample_rep by (auto simp: fifo_rep_def valid_msg_def MAXLINE_def)
  moreover have "current (rr sample_queue) = [3, 5] ! 1"
    by (simp add: sample_queue_def two_subscribers_def)
  ultimately have "\<exists>s'. serve 3 (sample_queue, sample_heap) =
      Inr (zip (map (\<lambda>k. [3, 5] ! ((1 + k) mod length [3, 5 :: int])) [0..<3])
        (take 3 [[7], [8], [9]]), s')"
    using messages_go_round_robin [OF _ sample_ring, of sample_heap "[[7], [8], [9]]" 1 3] by auto
  then show ?thesis by (simp add: upt_rec mod_Suc)
qed

text \<open>Isolation: enqueueing to one queue and dequeueing from it leave the messages of
  every queue with other nodes as they were.\<close>

lemma queues_are_isolated:
  assumes "heap_ok h" "queue_rep h q as ms" "queue_rep h q2 bs ks" "set as \<inter> set bs = {}"
    and "nul_free m" "int (length ms) < INT_MAX" "\<forall>k \<in> set ms. length k < cap"
  shows "(\<exists>q' h'. q_enqueue q h m = Inr (q', h') \<and> queue_rep h' q2 bs ks) \<and>
    (\<exists>r dest' q' h'. q_dequeue cap q h dest = Inr (r, dest', q', h') \<and> queue_rep h' q2 bs ks)"
proof
  show "\<exists>q' h'. q_enqueue q h m = Inr (q', h') \<and> queue_rep h' q2 bs ks"
    using enqueue_rep [OF assms(2,1,5,6)] queue_rep_frame [OF assms(1,3)] assms(4)
    by (metis inf_commute)
  show "\<exists>r dest' q' h'. q_dequeue cap q h dest = Inr (r, dest', q', h') \<and> queue_rep h' q2 bs ks"
  proof (cases ms)
    case Nil
    with dequeue_empty [of h q as] assms(2,3) show ?thesis by blast
  next
    case (Cons k ks')
    with assms(2) obtain a as' where as: "as = a # as'" using queue_rep_Cons by blast
    have "length k < cap" using assms(7) Cons by simp
    from dequeue_rep [OF assms(2) [unfolded as Cons] assms(1) this] obtain q' h' dest' where
      "q_dequeue cap q h dest = Inr (True, dest', q', h')" "heap_frame h h' [a]" by blast
    with queue_rep_frame [OF assms(1,3)] assms(4) as show ?thesis by auto
  qed
qed

end
