(* ===== verification/Queue_Pool.thy ===== *)
theory Queue_Pool
  imports Queue
begin

text \<open>
  \<^verbatim>\<open>src/queue_pool.c\<close>: the queues by name. The pool is a trie over the bytes of a name; a
  pointer to a trie node is the path to it, a pointer to a queue its index in the list of
  the queues allocated so far, which only grows while the broker runs.
\<close>

section \<open>The trie\<close>

datatype trie_node = Trie_Node (node_q: "nat option") (children: "byte \<Rightarrow> trie_node option")

text \<open>\<^verbatim>\<open>init_queue_pool\<close> and a new child: \<^verbatim>\<open>bzero\<close> of the whole node.\<close>

definition init_queue_pool :: trie_node where
  "init_queue_pool = Trie_Node None (\<lambda>_. None)"

text \<open>
  \<^verbatim>\<open>_get_trie_node\<close> walks down from \<^verbatim>\<open>root\<close>, making the nodes that are missing; the node it
  returns is the one at the path \<open>nm\<close> of the trie it leaves.
\<close>

fun get_trie_node :: "trie_node \<Rightarrow> byte list \<Rightarrow> trie_node" where
  "get_trie_node root [] = root"
| "get_trie_node (Trie_Node q ch) (c # nm) =
     (let child = (case ch c of None \<Rightarrow> init_queue_pool | Some t \<Rightarrow> t)
      in Trie_Node q (ch(c := Some (get_trie_node child nm))))"

fun node_at :: "trie_node \<Rightarrow> byte list \<Rightarrow> trie_node option" where
  "node_at t [] = Some t"
| "node_at (Trie_Node q ch) (c # nm) = (case ch c of None \<Rightarrow> None | Some t \<Rightarrow> node_at t nm)"

text \<open>\<^verbatim>\<open>node->q = p\<close> through the pointer.\<close>

fun set_q_at :: "trie_node \<Rightarrow> byte list \<Rightarrow> nat \<Rightarrow> trie_node" where
  "set_q_at (Trie_Node q ch) [] p = Trie_Node (Some p) ch"
| "set_q_at (Trie_Node q ch) (c # nm) p =
     (case ch c of None \<Rightarrow> Trie_Node q ch | Some t \<Rightarrow> Trie_Node q (ch(c := Some (set_q_at t nm p))))"

section \<open>The memory the connections share\<close>

text \<open>
  \<open>raw_rr\<close> is whatever \<^verbatim>\<open>malloc\<close> leaves in the scheduler of a new queue, \<open>rodata\<close> the
  bytes that follow the consume-ok arguments in the image of the program: nothing in the
  code determines either.
\<close>

record broker =
  pool :: trie_node
  queues :: "queue list"
  heap :: node_heap
  raw_rr :: round_robin_scheduler
  rodata :: "byte list"

definition create_queue :: "broker \<Rightarrow> byte list \<Rightarrow> (nat option \<times> broker) result" where
  "create_queue b nm =
     (let b = b\<lparr>pool := get_trie_node (pool b) nm\<rparr> in
      case node_at (pool b) nm of
        None \<Rightarrow> Inl (UB Dangling)
      | Some node \<Rightarrow>
          if node_q node = None
          then bindE (new_queue (raw_rr b) nm) (\<lambda>q.
                 let p = length (queues b)
                 in Inr (Some p, b\<lparr>pool := set_q_at (pool b) nm p, queues := queues b @ [q]\<rparr>))
          else Inr (node_q node, b))"

definition get_queue :: "broker \<Rightarrow> byte list \<Rightarrow> nat option \<times> broker" where
  "get_queue b nm =
     (let b = b\<lparr>pool := get_trie_node (pool b) nm\<rparr> in
      (case node_at (pool b) nm of None \<Rightarrow> None | Some node \<Rightarrow> node_q node, b))"

text \<open>Access to a queue through its pointer.\<close>

definition queue_at :: "broker \<Rightarrow> nat option \<Rightarrow> (nat \<times> queue) result" where
  "queue_at b p =
     (case p of None \<Rightarrow> Inl (UB Null_deref)
      | Some i \<Rightarrow> if i < length (queues b) then Inr (i, queues b ! i) else Inl (UB Dangling))"

definition put_queue :: "broker \<Rightarrow> nat \<Rightarrow> queue \<Rightarrow> node_heap \<Rightarrow> broker" where
  "put_queue b i q h = b\<lparr>queues := (queues b)[i := q], heap := h\<rparr>"

section \<open>The finite map it represents\<close>

definition trie_lookup :: "trie_node \<Rightarrow> byte list \<Rightarrow> nat option" where
  "trie_lookup t nm = (case node_at t nm of None \<Rightarrow> None | Some node \<Rightarrow> node_q node)"

lemma trie_lookup_simps [simp]:
  "trie_lookup t [] = node_q t"
  "trie_lookup (Trie_Node q ch) (c # nm) = (case ch c of None \<Rightarrow> None | Some t \<Rightarrow> trie_lookup t nm)"
  by (auto simp: trie_lookup_def split: option.splits)

lemma trie_lookup_init [simp]: "trie_lookup init_queue_pool nm = None"
  by (cases nm) (auto simp: init_queue_pool_def)

lemma node_at_get: "\<exists>node. node_at (get_trie_node t nm) nm = Some node"
  by (induction t nm rule: get_trie_node.induct) (auto simp: Let_def)

lemma node_at_get_q: "node_at (get_trie_node t nm) nm = Some node \<Longrightarrow> node_q node = trie_lookup t nm"
proof (induction t nm rule: get_trie_node.induct)
  case (2 q ch c nm)
  then show ?case by (auto simp: Let_def split: option.splits)
qed simp

lemma lookup_get_trie_node [simp]: "trie_lookup (get_trie_node t nm) k = trie_lookup t k"
proof (induction t nm arbitrary: k rule: get_trie_node.induct)
  case (2 q ch c nm)
  then show ?case by (cases k) (auto simp: Let_def split: option.splits)
qed simp

lemma lookup_set_q_at:
  "node_at t nm = Some node \<Longrightarrow> trie_lookup (set_q_at t nm p) k = (if k = nm then Some p else trie_lookup t k)"
proof (induction t nm p arbitrary: k rule: set_q_at.induct)
  case (1 q ch p)
  then show ?case by (cases k) auto
next
  case (2 q ch c nm p)
  then show ?case by (cases k) (auto split: option.splits)
qed

definition pool_ok :: "broker \<Rightarrow> bool" where
  "pool_ok b \<longleftrightarrow>
     (\<forall>k p. trie_lookup (pool b) k = Some p \<longleftrightarrow> p < length (queues b) \<and> name (queues b ! p) = k)"

lemma new_queue_eq_Inr:
  "new_queue raw nm = Inr q \<longleftrightarrow> length nm < MAX_QUEUE_NAME \<and>
     q = \<lparr>name = nm, queue_size = 0, rr = init_round_robin_scheduler raw, first_node = None, last_node = None\<rparr>"
  by (auto simp: new_queue_def bindE_eq_Inr)

lemma create_queue_known:
  assumes "trie_lookup (pool b) nm = Some p"
  shows "create_queue b nm = Inr (Some p, b\<lparr>pool := get_trie_node (pool b) nm\<rparr>)"
  using node_at_get [of "pool b" nm] node_at_get_q [of "pool b" nm] assms
  by (auto simp: create_queue_def)

lemma create_queue_fresh:
  assumes "trie_lookup (pool b) nm = None" "length nm < MAX_QUEUE_NAME"
  shows "\<exists>q t. new_queue (raw_rr b) nm = Inr q \<and>
    create_queue b nm = Inr (Some (length (queues b)), b\<lparr>pool := t, queues := queues b @ [q]\<rparr>) \<and>
    (\<forall>k. trie_lookup t k = (if k = nm then Some (length (queues b)) else trie_lookup (pool b) k))"
  using node_at_get [of "pool b" nm] node_at_get_q [of "pool b" nm] assms
  by (auto simp: create_queue_def new_queue_def Let_def lookup_set_q_at)

lemma get_queue_lookup:
  "get_queue b nm = (trie_lookup (pool b) nm, b\<lparr>pool := get_trie_node (pool b) nm\<rparr>)"
  using node_at_get [of "pool b" nm] node_at_get_q [of "pool b" nm]
  by (auto simp: get_queue_def Let_def)

lemma pool_ok_cong:
  "pool_ok b \<Longrightarrow> (\<And>k. trie_lookup (pool b') k = trie_lookup (pool b) k) \<Longrightarrow>
   map name (queues b') = map name (queues b) \<Longrightarrow> pool_ok b'"
  by (auto simp: pool_ok_def dest: map_eq_imp_length_eq) (metis length_map nth_map)+

lemma pool_ok_create:
  assumes "pool_ok b" "length nm < MAX_QUEUE_NAME"
  shows "\<exists>p b'. create_queue b nm = Inr (Some p, b') \<and> pool_ok b' \<and>
    (\<forall>k. trie_lookup (pool b') k = (if k = nm then Some p else trie_lookup (pool b) k)) \<and>
    (trie_lookup (pool b) nm = None \<longrightarrow> p = length (queues b)) \<and>
    (\<forall>p'. trie_lookup (pool b) nm = Some p' \<longrightarrow> p = p' \<and> queues b' = queues b)"
proof (cases "trie_lookup (pool b) nm")
  case (Some p)
  have "pool_ok (b\<lparr>pool := get_trie_node (pool b) nm\<rparr>)"
    by (rule pool_ok_cong [OF assms(1)]) auto
  with create_queue_known [OF Some] Some show ?thesis by auto
next
  case None
  from create_queue_fresh [OF this assms(2)] obtain q t where
    q: "new_queue (raw_rr b) nm = Inr q"
    and c: "create_queue b nm = Inr (Some (length (queues b)), b\<lparr>pool := t, queues := queues b @ [q]\<rparr>)"
    and t: "\<forall>k. trie_lookup t k = (if k = nm then Some (length (queues b)) else trie_lookup (pool b) k)"
    by blast
  have "name q = nm" using q by (simp add: new_queue_eq_Inr)
  moreover have "p < length (queues b) \<Longrightarrow> name (queues b ! p) \<noteq> nm" for p
    using assms(1) None unfolding pool_ok_def by (metis option.distinct(1))
  ultimately have "pool_ok (b\<lparr>pool := t, queues := queues b @ [q]\<rparr>)"
    using assms(1) t by (auto simp: pool_ok_def nth_append less_Suc_eq)
  with c t None show ?thesis by auto
qed

section \<open>The contract of a table of named objects\<close>

text \<open>
  What the connections rely on: a created name keeps its object for good, and two names
  never share one.
\<close>

datatype 'k table_op = Declare 'k | Get 'k

fun table_run ::
  "('s \<Rightarrow> 'k \<Rightarrow> ('p option \<times> 's) result) \<Rightarrow> ('s \<Rightarrow> 'k \<Rightarrow> 'p option \<times> 's) \<Rightarrow> 'k table_op list \<Rightarrow> 's \<Rightarrow>
   ('p option list \<times> 's) result"
where
  "table_run create get [] s = Inr ([], s)"
| "table_run create get (Declare k # ps) s =
     bindE (create s k) (\<lambda>(r, s). bindE (table_run create get ps s) (\<lambda>(rs, s). Inr (r # rs, s)))"
| "table_run create get (Get k # ps) s =
     (let (r, s) = get s k in bindE (table_run create get ps s) (\<lambda>(rs, s). Inr (r # rs, s)))"

locale name_table =
  fixes create :: "'s \<Rightarrow> 'k \<Rightarrow> ('p option \<times> 's) result"
    and get :: "'s \<Rightarrow> 'k \<Rightarrow> 'p option \<times> 's"
    and lookup :: "'s \<Rightarrow> 'k \<Rightarrow> 'p option"
    and inv :: "'s \<Rightarrow> bool"
    and valid :: "'k \<Rightarrow> bool"
  assumes create_law: "inv s \<Longrightarrow> valid k \<Longrightarrow> \<exists>p s'. create s k = Inr (Some p, s') \<and> inv s' \<and>
      lookup s' k = Some p \<and> (\<forall>k'. k' \<noteq> k \<longrightarrow> lookup s' k' = lookup s k') \<and>
      (\<forall>p'. lookup s k = Some p' \<longrightarrow> p = p')"
    and get_law: "inv s \<Longrightarrow> \<exists>s'. get s k = (lookup s k, s') \<and> inv s' \<and> (\<forall>k'. lookup s' k' = lookup s k')"
    and inj_law: "inv s \<Longrightarrow> lookup s k = Some p \<Longrightarrow> lookup s k' = Some p \<Longrightarrow> k = k'"
begin

lemma run_stable:
  assumes "inv s" "\<forall>k. Declare k \<in> set ps \<longrightarrow> valid k"
  shows "\<exists>rs s'. table_run create get ps s = Inr (rs, s') \<and> inv s' \<and> length rs = length ps \<and>
    (\<forall>k p. lookup s k = Some p \<longrightarrow> lookup s' k = Some p) \<and>
    (\<forall>i < length ps. \<forall>k. ps ! i = Declare k \<longrightarrow> (\<exists>p. rs ! i = Some p \<and> lookup s' k = Some p)) \<and>
    (\<forall>i < length ps. \<forall>k p. ps ! i = Get k \<longrightarrow> rs ! i = Some p \<longrightarrow> lookup s' k = Some p)"
  using assms
proof (induction ps arbitrary: s)
  case Nil
  then show ?case by simp
next
  case (Cons op ps)
  show ?case
  proof (cases op)
    case (Declare k)
    with Cons.prems obtain p s1 where s1: "create s k = Inr (Some p, s1)" "inv s1" "lookup s1 k = Some p"
      "\<forall>k'. k' \<noteq> k \<longrightarrow> lookup s1 k' = lookup s k'" "\<forall>p'. lookup s k = Some p' \<longrightarrow> p = p'"
      using create_law [of s k] by auto
    from Cons.IH [OF s1(2)] Cons.prems(2) obtain rs s2 where s2: "table_run create get ps s1 = Inr (rs, s2)"
      "inv s2" "length rs = length ps" "\<forall>k p. lookup s1 k = Some p \<longrightarrow> lookup s2 k = Some p"
      "\<forall>i < length ps. \<forall>k. ps ! i = Declare k \<longrightarrow> (\<exists>p. rs ! i = Some p \<and> lookup s2 k = Some p)"
      "\<forall>i < length ps. \<forall>k p. ps ! i = Get k \<longrightarrow> rs ! i = Some p \<longrightarrow> lookup s2 k = Some p" by auto
    have "lookup s k' = Some p' \<Longrightarrow> lookup s2 k' = Some p'" for k' p'
      using s1(3-5) s2(4) by (cases "k' = k") auto
    with s1 s2 Declare show ?thesis by (auto simp: nth_Cons split: nat.splits)
  next
    case (Get k)
    with Cons.prems obtain s1 where s1: "get s k = (lookup s k, s1)" "inv s1"
      "\<forall>k'. lookup s1 k' = lookup s k'"
      using get_law [of s k] by auto
    from Cons.IH [OF s1(2)] Cons.prems(2) obtain rs s2 where s2: "table_run create get ps s1 = Inr (rs, s2)"
      "inv s2" "length rs = length ps" "\<forall>k p. lookup s1 k = Some p \<longrightarrow> lookup s2 k = Some p"
      "\<forall>i < length ps. \<forall>k. ps ! i = Declare k \<longrightarrow> (\<exists>p. rs ! i = Some p \<and> lookup s2 k = Some p)"
      "\<forall>i < length ps. \<forall>k p. ps ! i = Get k \<longrightarrow> rs ! i = Some p \<longrightarrow> lookup s2 k = Some p" by auto
    with s1 Get show ?thesis by (auto simp: nth_Cons split: nat.splits)
  qed
qed

end

definition valid_name :: "byte list \<Rightarrow> bool" where
  "valid_name nm \<longleftrightarrow> length nm < MAX_QUEUE_NAME"

interpretation pool: name_table create_queue get_queue "\<lambda>b. trie_lookup (pool b)" pool_ok valid_name
proof
  fix b nm
  assume "pool_ok b" "valid_name nm"
  from pool_ok_create [OF this(1) this(2) [unfolded valid_name_def]]
  show "\<exists>p b'. create_queue b nm = Inr (Some p, b') \<and> pool_ok b' \<and> trie_lookup (pool b') nm = Some p \<and>
      (\<forall>k. k \<noteq> nm \<longrightarrow> trie_lookup (pool b') k = trie_lookup (pool b) k) \<and>
      (\<forall>p'. trie_lookup (pool b) nm = Some p' \<longrightarrow> p = p')" by auto
next
  fix b nm
  assume "pool_ok b"
  then have "pool_ok (b\<lparr>pool := get_trie_node (pool b) nm\<rparr>)" by (rule pool_ok_cong) auto
  then show "\<exists>b'. get_queue b nm = (trie_lookup (pool b) nm, b') \<and> pool_ok b' \<and>
      (\<forall>k. trie_lookup (pool b') k = trie_lookup (pool b) k)"
    by (simp add: get_queue_lookup)
next
  fix b k p k'
  assume "pool_ok b" "trie_lookup (pool b) k = Some p" "trie_lookup (pool b) k' = Some p"
  then show "k = k'" by (auto simp: pool_ok_def)
qed

text \<open>The bytes a loop over all children goes through.\<close>

lemma byte_word_of_nat: "\<exists>i < 256. (c :: byte) = word_of_nat i"
  by (rule exI [of _ "unat c"]) (use unsigned_less [of c] in simp)

lemma word_of_nat_byte_eq: "i < 256 \<Longrightarrow> j < 256 \<Longrightarrow> word_of_nat i = (word_of_nat j :: byte) \<longleftrightarrow> i = j"
proof -
  have "k < 256 \<Longrightarrow> unat (word_of_nat k :: byte) = k" for k by (simp add: unat_of_nat)
  then show "i < 256 \<Longrightarrow> j < 256 \<Longrightarrow> ?thesis" by metis
qed

section \<open>The broker as named lists of messages with rings of consumers\<close>

text \<open>
  \<open>broker_rep b as ms xs\<close>: for each queue pointer \<open>p\<close>, the queue has its nodes at the
  addresses \<open>as p\<close>, holds the messages \<open>ms p\<close> and is consumed by the ring \<open>xs p\<close>; no
  node belongs to two queues, and the trie names them all.
\<close>

definition broker_rep ::
  "broker \<Rightarrow> (nat \<Rightarrow> nat list) \<Rightarrow> (nat \<Rightarrow> byte list list) \<Rightarrow> (nat \<Rightarrow> int list) \<Rightarrow> bool" where
  "broker_rep b as ms xs \<longleftrightarrow>
     pool_ok b \<and> heap_ok (heap b) \<and>
     (\<forall>p < length (queues b).
        queue_rep (heap b) (queues b ! p) (as p) (ms p) \<and> rr_ring (rr (queues b ! p)) (xs p) \<and>
        (\<forall>m \<in> set (ms p). valid_msg m)) \<and>
     (\<forall>p < length (queues b). \<forall>p' < length (queues b). p \<noteq> p' \<longrightarrow> set (as p) \<inter> set (as p') = {})"

definition init_broker :: "round_robin_scheduler \<Rightarrow> byte list \<Rightarrow> broker" where
  "init_broker raw ro =
     \<lparr>pool = init_queue_pool, queues = [], heap = empty_heap, raw_rr = raw, rodata = ro\<rparr>"

lemma init_broker_rep: "broker_rep (init_broker raw ro) as ms xs"
  by (simp add: broker_rep_def init_broker_def pool_ok_def)

lemma broker_rep_queue:
  assumes "broker_rep b as ms xs" "p < length (queues b)"
  shows "queue_rep (heap b) (queues b ! p) (as p) (ms p)" "rr_ring (rr (queues b ! p)) (xs p)"
    "m \<in> set (ms p) \<Longrightarrow> valid_msg m" "heap_ok (heap b)"
  using assms by (auto simp: broker_rep_def)

text \<open>An operation on one queue, in the terms of the other theories, keeps the whole broker.\<close>

lemma broker_rep_put:
  assumes b: "broker_rep b as ms xs" and i: "i < length (queues b)"
    and q: "queue_rep h' q' as' ms'" "rr_ring (rr q') xs'" "name q' = name (queues b ! i)"
    and h: "heap_ok h'" "heap_frame (heap b) h' (as i)"
    and as': "\<forall>a \<in> set as'. a \<in> set (as i) \<or> next_addr (heap b) \<le> a"
    and ms': "\<forall>m \<in> set ms'. valid_msg m"
  shows "broker_rep (put_queue b i q' h') (as(i := as')) (ms(i := ms')) (xs(i := xs'))"
proof -
  have "map name ((queues b)[i := q']) = map name (queues b)"
    using i by (simp add: map_update q(3)) (metis list_update_id nth_map)
  then have names: "map name (queues (put_queue b i q' h')) = map name (queues b)"
    by (simp add: put_queue_def)
  have "pool_ok b" using b by (simp add: broker_rep_def)
  then have "pool_ok (put_queue b i q' h')"
    by (rule pool_ok_cong [OF _ _ names]) (simp add: put_queue_def)
  moreover have "queue_rep h' (queues b ! p) (as p) (ms p)" if "p < length (queues b)" "p \<noteq> i" for p
  proof (rule queue_rep_frame [OF _ _ h(2)])
    show "heap_ok (heap b)" "queue_rep (heap b) (queues b ! p) (as p) (ms p)"
      "set (as p) \<inter> set (as i) = {}"
      using b that i by (auto simp: broker_rep_def)
  qed
  moreover have "set as' \<inter> set (as p) = {}" if "p < length (queues b)" "p \<noteq> i" for p
  proof -
    have "a \<in> set (as p) \<Longrightarrow> a < next_addr (heap b)" for a
      using b that(1) by (auto simp: broker_rep_def intro: queue_rep_below)
    moreover have "set (as i) \<inter> set (as p) = {}" using b i that by (auto simp: broker_rep_def)
    ultimately show ?thesis using as' by fastforce
  qed
  ultimately show ?thesis
    using b q h(1) ms' i
    by (auto simp: broker_rep_def put_queue_def nth_list_update)
qed

lemma broker_enqueue:
  assumes "broker_rep b as ms xs" "i < length (queues b)" "valid_msg m" "int (length (ms i)) < INT_MAX"
  shows "\<exists>q' h'. q_enqueue (queues b ! i) (heap b) m = Inr (q', h') \<and>
    broker_rep (put_queue b i q' h') (as(i := as i @ [next_addr (heap b)])) (ms(i := ms i @ [m])) xs"
proof -
  note q = broker_rep_queue [OF assms(1,2)]
  from enqueue_rep [OF q(1,4) _ assms(4), of m] assms(3) obtain q' h' where
    e: "q_enqueue (queues b ! i) (heap b) m = Inr (q', h')"
      "queue_rep h' q' (as i @ [next_addr (heap b)]) (ms i @ [m])" "heap_ok h'"
      "heap_frame (heap b) h' (as i)" "rr q' = rr (queues b ! i)" "name q' = name (queues b ! i)"
    by (auto simp: valid_msg_def)
  have "broker_rep (put_queue b i q' h') (as(i := as i @ [next_addr (heap b)])) (ms(i := ms i @ [m])) (xs(i := xs i))"
    using q assms(3) e by (intro broker_rep_put [OF assms(1,2)]) auto
  with e(1) show ?thesis by auto
qed

lemma broker_scheduler:
  assumes "broker_rep b as ms xs" "i < length (queues b)" "rr_ring rr' xs'"
  shows "broker_rep (put_queue b i ((queues b ! i)\<lparr>rr := rr'\<rparr>) (heap b)) as ms (xs(i := xs'))"
proof -
  note q = broker_rep_queue [OF assms(1,2)]
  have "broker_rep (put_queue b i ((queues b ! i)\<lparr>rr := rr'\<rparr>) (heap b)) (as(i := as i)) (ms(i := ms i)) (xs(i := xs'))"
    using q assms(3) by (intro broker_rep_put [OF assms(1,2)]) (auto simp: queue_rep_def heap_frame_def)
  then show ?thesis by simp
qed

lemma broker_dequeue_turn:
  assumes b: "broker_rep b as ms xs" "i < length (queues b)" and m: "ms i = m # ms'"
    and ring: "j < length (xs i)" "current (rr (queues b ! i)) = xs i ! j"
  shows "\<exists>q' h' as'. q_dequeue_rr MAXLINE (queues b ! i) (heap b) (xs i ! j) dest =
      Inr (True, xs i ! (Suc j mod length (xs i)), mem_write dest 0 (m @ [0]), q', h') \<and>
    broker_rep (put_queue b i q' h') (as(i := as')) (ms(i := ms')) xs \<and>
    current (rr q') = xs i ! (Suc j mod length (xs i))"
proof -
  note q = broker_rep_queue [OF b]
  from q(1) m obtain a as' where a: "as i = a # as'" using queue_rep_Cons by metis
  have v: "length m < MAXLINE" using q(3) [of m] m by (simp add: valid_msg_def)
  from dequeue_rr_rep [OF q(1) [unfolded a m] q(4) v q(2) ring, of dest] obtain q' h' where
    d: "q_dequeue_rr MAXLINE (queues b ! i) (heap b) (xs i ! j) dest =
      Inr (True, xs i ! (Suc j mod length (xs i)), mem_write dest 0 (m @ [0]), q', h')"
      "queue_rep h' q' as' ms'" "heap_ok h'" "heap_frame (heap b) h' [a]"
      "rr_ring (rr q') (xs i)" "current (rr q') = xs i ! (Suc j mod length (xs i))" by blast
  have "name q' = name (queues b ! i)"
    using d(1) by (auto simp: q_dequeue_rr_def q_dequeue_turn_def q_dequeue_def bindE_eq_Inr Let_def
        split: if_splits)
  then have "broker_rep (put_queue b i q' h') (as(i := as')) (ms(i := ms')) (xs(i := xs i))"
    using d a m q(3) by (intro broker_rep_put [OF b]) (auto simp: heap_frame_def)
  with d(1,6) show ?thesis by auto
qed

lemma broker_get:
  "broker_rep b as ms xs \<Longrightarrow> broker_rep (b\<lparr>pool := get_trie_node (pool b) nm\<rparr>) as ms xs"
  using pool_ok_cong [of b "b\<lparr>pool := get_trie_node (pool b) nm\<rparr>"]
  by (auto simp: broker_rep_def)

lemma broker_create:
  assumes b: "broker_rep b as ms xs" and nm: "length nm < MAX_QUEUE_NAME"
  shows "\<exists>p b' as' ms' xs'. create_queue b nm = Inr (Some p, b') \<and> broker_rep b' as' ms' xs' \<and>
    p < length (queues b') \<and> name (queues b' ! p) = nm \<and> length (queues b) \<le> length (queues b') \<and>
    (\<forall>i < length (queues b). ms' i = ms i \<and> xs' i = xs i) \<and>
    (p \<ge> length (queues b) \<longrightarrow> ms' p = [] \<and> xs' p = [])"
proof -
  have ok: "pool_ok b" using b by (simp add: broker_rep_def)
  show ?thesis
  proof (cases "trie_lookup (pool b) nm")
    case (Some p)
    with ok have "p < length (queues b)" "name (queues b ! p) = nm" by (auto simp: pool_ok_def)
    with create_queue_known [OF Some] broker_get [OF b, of nm] show ?thesis by fastforce
  next
    case None
    let ?p = "length (queues b)"
    from create_queue_fresh [OF None nm] obtain q t where
      q: "new_queue (raw_rr b) nm = Inr q"
      and c: "create_queue b nm = Inr (Some ?p, b\<lparr>pool := t, queues := queues b @ [q]\<rparr>)" by blast
    from pool_ok_create [OF ok nm] c have "pool_ok (b\<lparr>pool := t, queues := queues b @ [q]\<rparr>)" by auto
    moreover have "rr_ring (rr q) []" "name q = nm"
      using q init_ring by (auto simp: new_queue_eq_Inr)
    ultimately have "broker_rep (b\<lparr>pool := t, queues := queues b @ [q]\<rparr>)
        (as(?p := [])) (ms(?p := [])) (xs(?p := []))"
      using b queue_rep_new [OF q] by (auto simp: broker_rep_def nth_append less_Suc_eq)
    with c \<open>name q = nm\<close> show ?thesis by fastforce
  qed
qed

section \<open>Properties\<close>

text \<open>C26. Names keep their queues: in any sequence of declarations and look-ups every
  declaration of a name gets the one queue of that name, new only the first time, a look-up
  that finds a queue finds the same one, and no two names share a queue.\<close>

theorem names_keep_their_queues:
  assumes "pool_ok b" "\<forall>k. Declare k \<in> set ps \<longrightarrow> length k < MAX_QUEUE_NAME"
  shows "\<exists>rs b'. table_run create_queue get_queue ps b = Inr (rs, b') \<and> pool_ok b' \<and> length rs = length ps \<and>
    (\<forall>k p. trie_lookup (pool b) k = Some p \<longrightarrow> trie_lookup (pool b') k = Some p) \<and>
    (\<forall>i < length ps. \<forall>k. ps ! i = Declare k \<longrightarrow> (\<exists>p. rs ! i = Some p \<and> trie_lookup (pool b') k = Some p)) \<and>
    (\<forall>i < length ps. \<forall>k p. ps ! i = Get k \<longrightarrow> rs ! i = Some p \<longrightarrow> trie_lookup (pool b') k = Some p) \<and>
    (\<forall>k k' p. trie_lookup (pool b') k = Some p \<longrightarrow> trie_lookup (pool b') k' = Some p \<longrightarrow> k = k')"
proof -
  from pool.run_stable [OF assms(1), of ps] assms(2) obtain rs b' where
    r: "table_run create_queue get_queue ps b = Inr (rs, b')" "pool_ok b'" "length rs = length ps"
    "\<forall>k p. trie_lookup (pool b) k = Some p \<longrightarrow> trie_lookup (pool b') k = Some p"
    "\<forall>i < length ps. \<forall>k. ps ! i = Declare k \<longrightarrow> (\<exists>p. rs ! i = Some p \<and> trie_lookup (pool b') k = Some p)"
    "\<forall>i < length ps. \<forall>k p. ps ! i = Get k \<longrightarrow> rs ! i = Some p \<longrightarrow> trie_lookup (pool b') k = Some p"
    by (auto simp: valid_name_def)
  with pool.inj_law [OF r(2)] show ?thesis by blast
qed

lemma init_pool_ok: "pool_ok (init_broker raw ro)"
  using init_broker_rep [of raw ro "\<lambda>_. []" "\<lambda>_. []" "\<lambda>_. []"] by (simp add: broker_rep_def)

theorem names_keep_their_queues_witness:
  "\<exists>p rs b'. table_run create_queue get_queue [Declare [0x61], Get [0x61], Declare [0x61]]
      (init_broker two_subscribers []) = Inr (rs, b') \<and> rs ! 0 = Some p \<and> rs ! 2 = Some p"
proof -
  have "\<forall>k. Declare k \<in> set [Declare [0x61], Get [0x61], Declare [0x61]] \<longrightarrow> length k < MAX_QUEUE_NAME"
    by (simp add: MAX_QUEUE_NAME_def)
  from names_keep_their_queues [OF init_pool_ok this] obtain rs b' where
    r: "table_run create_queue get_queue [Declare [0x61], Get [0x61], Declare [0x61]]
      (init_broker two_subscribers []) = Inr (rs, b')"
    "\<forall>i < length [Declare [0x61], Get [0x61], Declare [0x61 :: byte]].
      \<forall>k. [Declare [0x61], Get [0x61], Declare [0x61]] ! i = Declare k \<longrightarrow> (\<exists>p. rs ! i = Some p \<and> trie_lookup (pool b') k = Some p)"
    by blast
  from r(2) [rule_format, of 0 "[0x61]"] r(2) [rule_format, of 2 "[0x61]"] r(1) show ?thesis by auto
qed

end
