(* ===== verification/State_Machine.thy ===== *)
theory State_Machine
  imports Amqp_Message Queue_Pool
begin

text \<open>
  \<^verbatim>\<open>src/state_machine.c\<close>: one connection from its protocol header to its end. Each
  \<^verbatim>\<open>action_*\<close> of the program is a definition that takes the connection and the memory the
  connections share and returns the next state with both, or stops: with undefined
  behaviour, or blocked in the waits of \<^verbatim>\<open>q_dequeue_rr\<close>. What actions log is
  in \<^verbatim>\<open>Log\<close>: it goes to standard output only.
\<close>

section \<open>States\<close>

datatype machine_state =
    WAIT | HEADER_RECEIVED | WAIT_START_OK | START_OK_RECEIVED | WAIT_TUNE_OK
  | WAIT_OPEN_CONNECTION | OPEN_CONNECTION_RECEIVED | CLOSE_CONNECTION_RECEIVED
  | WAIT_OPEN_CHANNEL | OPEN_CHANNEL_RECEIVED | CLOSE_CHANNEL_RECEIVED
  | WAIT_FUNCTIONAL | QUEUE_DECLARE_RECEIVED
  | BASIC_PUBLISH_RECEIVED | WAIT_PUBLISH_CONTENT_HEADER | WAIT_PUBLISH_CONTENT
  | BASIC_CONSUME_RECEIVED | WAIT_VALUE_DEQUEUE | VALUE_DEQUEUE_RECEIVED | WAIT_CONSUME_ACK
  | FINISHED | FAIL

type_synonym action = "connection_state \<Rightarrow> broker \<Rightarrow> (machine_state \<times> connection_state \<times> broker) result"

section \<open>Error messages\<close>

text \<open>The decimal digits of \<^verbatim>\<open>%d\<close>, for the unsigned values it is used with.\<close>

fun decimal :: "nat \<Rightarrow> string" where
  "decimal n = (if n < 10 then [char_of (48 + n)] else decimal (n div 10) @ [char_of (48 + n mod 10)])"

declare decimal.simps [simp del]

text \<open>\<^verbatim>\<open>strcpy\<close> and \<^verbatim>\<open>sprintf\<close> into \<^verbatim>\<open>cs->error_msg\<close>.\<close>

definition set_error :: "string \<Rightarrow> connection_state \<Rightarrow> connection_state result" where
  "set_error msg cs =
     bindE (assertE Out_of_bounds (length msg < ERROR_MSG_SIZE)) (\<lambda>_. Inr (cs\<lparr>error_msg := msg\<rparr>))"

definition unexpected_method :: "amqp_method_header \<Rightarrow> string" where
  "unexpected_method m =
     ''Unexpected class '' @ decimal (unat (class_id m)) @ '' method '' @ decimal (unat (method_id m))"

definition unexpected_type :: "amqp_message_header \<Rightarrow> string" where
  "unexpected_type h = ''Unexpected message type '' @ decimal (unat (msg_type h))"

definition fail_with :: "string \<Rightarrow> action" where
  "fail_with msg cs b = bindE (set_error msg cs) (\<lambda>cs. Inr (FAIL, cs, b))"

text \<open>A message length, \<^verbatim>\<open>uint32_t\<close>, passed on as an \<^verbatim>\<open>int\<close>.\<close>

definition length_arg :: "amqp_message_header \<Rightarrow> int" where
  "length_arg h = sint (msg_length h)"

section \<open>Opening and closing a connection\<close>

definition action_wait :: action where
  "action_wait cs b =
     bindE (read_protocol_header cs) (\<lambda>(e, cs).
     if e \<noteq> 0 then fail_with ''Error reading protocol header'' cs b
     else Inr (HEADER_RECEIVED, cs, b))"

definition action_header_received :: action where
  "action_header_received cs b =
     bindE (send_method cs CONNECTION CONNECTION_START 0 (CONNECTION_START_ARGS @ [0]) CONNECTION_START_ARGS_SIZE)
       (\<lambda>cs. Inr (WAIT_START_OK, cs, b))"

text \<open>Here a method that cannot be read leaves the error message as it was.\<close>

definition action_wait_start_ok :: action where
  "action_wait_start_ok cs b =
     bindE (read_message_header cs) (\<lambda>(header, cs).
     case header of None \<Rightarrow> fail_with ''Error reading protocol header'' cs b
     | Some h \<Rightarrow>
       bindE (read_method cs (length_arg h)) (\<lambda>(meth, cs).
       case meth of None \<Rightarrow> Inr (FAIL, cs, b)
       | Some m \<Rightarrow>
         if class_id m \<noteq> CONNECTION \<or> method_id m \<noteq> CONNECTION_START_OK
         then fail_with (unexpected_method m) cs b
         else Inr (START_OK_RECEIVED, cs, b)))"

definition action_start_ok_received :: action where
  "action_start_ok_received cs b =
     bindE (send_method cs CONNECTION CONNECTION_TUNE 0 (CONNECTION_TUNE_ARGS @ [0]) CONNECTION_TUNE_ARGS_SIZE)
       (\<lambda>cs. Inr (WAIT_TUNE_OK, cs, b))"

definition action_wait_tune_ok :: action where
  "action_wait_tune_ok cs b =
     bindE (read_message_header cs) (\<lambda>(header, cs).
     case header of None \<Rightarrow> fail_with ''Error reading message header'' cs b
     | Some h \<Rightarrow>
       bindE (read_method cs (length_arg h)) (\<lambda>(meth, cs).
       case meth of None \<Rightarrow> fail_with ''Error reading method'' cs b
       | Some m \<Rightarrow>
         if class_id m \<noteq> CONNECTION \<or> method_id m \<noteq> CONNECTION_TUNE_OK
         then fail_with ''Did not receive tune ok'' cs b
         else Inr (WAIT_OPEN_CONNECTION, cs, b)))"

definition action_wait_open_connection :: action where
  "action_wait_open_connection cs b =
     bindE (read_message_header cs) (\<lambda>(header, cs).
     case header of None \<Rightarrow> fail_with ''Error reading message header'' cs b
     | Some h \<Rightarrow>
       bindE (read_method cs (length_arg h)) (\<lambda>(meth, cs).
       case meth of None \<Rightarrow> fail_with ''Error reading method'' cs b
       | Some m \<Rightarrow>
         if class_id m \<noteq> CONNECTION \<or> method_id m \<noteq> CONNECTION_OPEN
         then fail_with ''Did not receive open'' cs b
         else Inr (OPEN_CONNECTION_RECEIVED, cs, b)))"

definition action_open_connection_received :: action where
  "action_open_connection_received cs b =
     bindE (send_method cs CONNECTION CONNECTION_OPEN_OK 0 (CONNECTION_OPEN_OK_ARGS @ [0]) CONNECTION_OPEN_OK_ARGS_SIZE)
       (\<lambda>cs. Inr (WAIT_OPEN_CHANNEL, cs, b))"

definition action_close_connection_received :: action where
  "action_close_connection_received cs b =
     bindE (send_method cs CONNECTION CONNECTION_CLOSE_OK 0 (ARGS_EMPTY @ [0]) ARGS_EMPTY_SIZE)
       (\<lambda>cs. Inr (FINISHED, cs, b))"

section \<open>Channels\<close>

definition action_wait_open_channel :: action where
  "action_wait_open_channel cs b =
     bindE (read_message_header cs) (\<lambda>(header, cs).
     case header of None \<Rightarrow> fail_with ''Error reading message header'' cs b
     | Some h \<Rightarrow>
       bindE (read_method cs (length_arg h)) (\<lambda>(meth, cs).
       case meth of None \<Rightarrow> fail_with ''Error reading method'' cs b
       | Some m \<Rightarrow>
         let next_state =
           (if class_id m = CHANNEL then (if method_id m = CHANNEL_OPEN then OPEN_CHANNEL_RECEIVED else FAIL)
            else if class_id m = CONNECTION
                 then (if method_id m = CONNECTION_CLOSE then CLOSE_CONNECTION_RECEIVED else FAIL)
            else FAIL)
         in if next_state = FAIL then fail_with (unexpected_method m) cs b
            else Inr (next_state, cs, b)))"

definition action_open_channel_received :: action where
  "action_open_channel_received cs b =
     bindE (send_method cs CHANNEL CHANNEL_OPEN_OK 1 (CHANNEL_OPEN_OK_ARGS @ [0]) CHANNEL_OPEN_OK_ARGS_SIZE)
       (\<lambda>cs. Inr (WAIT_FUNCTIONAL, cs, b))"

definition action_close_channel_received :: action where
  "action_close_channel_received cs b =
     bindE (send_method cs CHANNEL CHANNEL_CLOSE_OK 1 (ARGS_EMPTY @ [0]) ARGS_EMPTY_SIZE)
       (\<lambda>cs. Inr (WAIT_OPEN_CHANNEL, cs, b))"

section \<open>Queues\<close>

text \<open>
  The cases of the switch of \<^verbatim>\<open>action_wait_functional\<close>. Those of CHANNEL and CONNECTION have no
  \<^verbatim>\<open>break\<close> and run into the next one.
\<close>

definition channel_case :: "amqp_method_header \<Rightarrow> machine_state \<Rightarrow> machine_state" where
  "channel_case m next_state = (if method_id m = CHANNEL_CLOSE then CLOSE_CHANNEL_RECEIVED else next_state)"

definition connection_case :: "amqp_method_header \<Rightarrow> machine_state \<Rightarrow> machine_state" where
  "connection_case m next_state = (if method_id m = CONNECTION_CLOSE then CLOSE_CONNECTION_RECEIVED else next_state)"

definition queue_case :: "amqp_method_header \<Rightarrow> machine_state \<Rightarrow> action" where
  "queue_case m next_state cs b =
     (if method_id m = QUEUE_DECLARE
      then bindE (parse_queue_declare_args (parsed cs) (current_queue_name cs)) (\<lambda>nb.
           let cs = cs\<lparr>current_queue_name := nb\<rparr> in
           bindE (cstring MAX_QUEUE_NAME nb 0) (\<lambda>nm.
           bindE (create_queue b nm) (\<lambda>(q, b).
             Inr (QUEUE_DECLARE_RECEIVED, cs\<lparr>current_queue := q\<rparr>, b))))
      else Inr (next_state, cs, b))"

definition basic_publish_case :: action where
  "basic_publish_case cs b =
     bindE (parse_basic_publish_args (parsed cs) (current_queue_name cs)) (\<lambda>nb.
     let cs = cs\<lparr>current_queue_name := nb\<rparr> in
     bindE (cstring MAX_QUEUE_NAME nb 0) (\<lambda>nm.
     let (q, b) = get_queue b nm
     in Inr (BASIC_PUBLISH_RECEIVED, cs\<lparr>current_queue := q\<rparr>, b)))"

definition basic_consume_case :: action where
  "basic_consume_case cs b =
     bindE (parse_basic_consume_args (parsed cs) (current_queue_name cs)) (\<lambda>nb.
     let cs = cs\<lparr>current_queue_name := nb\<rparr> in
     bindE (cstring MAX_QUEUE_NAME nb 0) (\<lambda>nm.
     let (q, b) = get_queue b nm
     in Inr (BASIC_CONSUME_RECEIVED, cs\<lparr>current_queue := q\<rparr>, b)))"

definition functional_switch :: "amqp_method_header \<Rightarrow> action" where
  "functional_switch m cs b =
     (if class_id m = CHANNEL then queue_case m (connection_case m (channel_case m FAIL)) cs b
      else if class_id m = CONNECTION then queue_case m (connection_case m FAIL) cs b
      else if class_id m = QUEUE then queue_case m FAIL cs b
      else if class_id m = BASIC then
        (if method_id m = BASIC_PUBLISH then basic_publish_case cs b
         else if method_id m = BASIC_CONSUME then basic_consume_case cs b
         else Inr (FAIL, cs, b))
      else Inr (FAIL, cs, b))"

definition action_wait_functional :: action where
  "action_wait_functional cs b =
     bindE (read_message_header cs) (\<lambda>(header, cs).
     case header of None \<Rightarrow> fail_with ''Error reading message header'' cs b
     | Some h \<Rightarrow>
       bindE (read_method cs (length_arg h)) (\<lambda>(meth, cs).
       case meth of None \<Rightarrow> fail_with ''Error reading method'' cs b
       | Some m \<Rightarrow>
         bindE (functional_switch m cs b) (\<lambda>(next_state, cs, b).
         if next_state = FAIL then fail_with (unexpected_method m) cs b
         else Inr (next_state, cs, b))))"

definition action_queue_declare_received :: action where
  "action_queue_declare_received cs b =
     bindE (queue_at b (current_queue cs)) (\<lambda>(i, q).
     bindE (send_queue_declare_ok cs 1 (current_queue_name cs) (word_of_int (q_size q)) 0) (\<lambda>cs.
       Inr (WAIT_FUNCTIONAL, cs, b)))"

section \<open>Publishing\<close>

definition action_basic_publish_received :: action where
  "action_basic_publish_received cs b = Inr (WAIT_PUBLISH_CONTENT_HEADER, cs, b)"

definition action_wait_publish_content_header :: action where
  "action_wait_publish_content_header cs b =
     bindE (read_message_header cs) (\<lambda>(header, cs).
     case header of None \<Rightarrow> fail_with ''Error reading message header'' cs b
     | Some h \<Rightarrow>
       bindE (read_content_header cs (length_arg h)) (\<lambda>(content_header, cs).
         Inr (WAIT_PUBLISH_CONTENT, cs, b)))"

text \<open>
  The two cases of \<^verbatim>\<open>action_wait_publish_content\<close>: a method, looked at by an inner switch, or a
  body to enqueue.
\<close>

definition publish_switch :: "amqp_method_header \<Rightarrow> action" where
  "publish_switch m cs b =
     (if class_id m = CHANNEL then Inr (if method_id m = CHANNEL_CLOSE then CLOSE_CHANNEL_RECEIVED else FAIL, cs, b)
      else if class_id m = BASIC then
        (if method_id m = BASIC_PUBLISH then basic_publish_case cs b else Inr (FAIL, cs, b))
      else if class_id m = CONNECTION then
        Inr (if method_id m = CONNECTION_CLOSE then CLOSE_CONNECTION_RECEIVED else FAIL, cs, b)
      else Inr (FAIL, cs, b))"

definition publish_method_case :: "amqp_message_header \<Rightarrow> action" where
  "publish_method_case h cs b =
     bindE (read_method cs (length_arg h)) (\<lambda>(meth, cs).
     case meth of None \<Rightarrow> fail_with ''Error reading method'' cs b
     | Some m \<Rightarrow>
       bindE (publish_switch m cs b) (\<lambda>(next_state, cs, b).
       if next_state = FAIL then fail_with (unexpected_method m) cs b
       else Inr (next_state, cs, b)))"

definition publish_body_case :: "amqp_message_header \<Rightarrow> action" where
  "publish_body_case h cs b =
     bindE (read_body cs (length_arg h)) (\<lambda>cs.
     bindE (queue_at b (current_queue cs)) (\<lambda>(i, q).
     bindE (cstring MAXLINE (parsed cs) 0) (\<lambda>msg.
     bindE (q_enqueue q (heap b) msg) (\<lambda>(q, hp).
       Inr (WAIT_PUBLISH_CONTENT, cs, put_queue b i q hp)))))"

definition action_wait_publish_content :: action where
  "action_wait_publish_content cs b =
     bindE (read_message_header cs) (\<lambda>(header, cs).
     case header of None \<Rightarrow> fail_with ''Error reading message header'' cs b
     | Some h \<Rightarrow>
       if msg_type h = METHOD then publish_method_case h cs b
       else if msg_type h = BODY then publish_body_case h cs b
       else fail_with (unexpected_type h) cs b)"

section \<open>Consuming\<close>

definition action_basic_consume_received :: action where
  "action_basic_consume_received cs b =
     bindE (queue_at b (current_queue cs)) (\<lambda>(i, q).
     bindE (q_add_subscriber q (tid cs)) (\<lambda>q.
     let b = put_queue b i q (heap b) in
     bindE (send_method cs BASIC BASIC_CONSUME_OK 1 (BASIC_CONSUME_OK_ARGS @ [0] @ rodata b) BASIC_CONSUME_OK_ARGS_SIZE)
       (\<lambda>cs. Inr (WAIT_VALUE_DEQUEUE, cs, b))))"

text \<open>The message goes to \<^verbatim>\<open>cs->recvline\<close>; whether there was one is not looked at.\<close>

definition action_wait_value_dequeue :: action where
  "action_wait_value_dequeue cs b =
     bindE (queue_at b (current_queue cs)) (\<lambda>(i, q).
     bindE (q_dequeue_rr MAXLINE q (heap b) (tid cs) (recvline cs)) (\<lambda>(ret, signalled, line, q, hp).
       Inr (VALUE_DEQUEUE_RECEIVED, cs\<lparr>recvline := line\<rparr>, put_queue b i q hp)))"

definition action_value_dequeue_received :: action where
  "action_value_dequeue_received cs b =
     bindE (cstring MAXLINE (recvline cs) 0) (\<lambda>bs.
     let bsize = length bs in
     bindE (send_method cs BASIC BASIC_DELIVER 1 (BASIC_DELIVER_ARGS @ [0]) BASIC_DELIVER_ARGS_SIZE) (\<lambda>cs.
     bindE (send_content_header cs BASIC 1 0 (of_nat bsize) 0x1000 (CONTENT_HEADER_PROPERTIES @ [0])) (\<lambda>cs.
     bindE (send_body cs 1 bs bsize) (\<lambda>cs.
       Inr (WAIT_CONSUME_ACK, cs, b)))))"

text \<open>A consumer that fails leaves the scheduler before its thread ends.\<close>

definition unsubscribe :: action where
  "unsubscribe cs b =
     bindE (queue_at b (current_queue cs)) (\<lambda>(i, q).
     bindE (remove_subscriber (rr q) (tid cs)) (\<lambda>rr'.
       Inr (FAIL, cs, put_queue b i (q\<lparr>rr := rr'\<rparr>) (heap b))))"

definition action_wait_consume_ack :: action where
  "action_wait_consume_ack cs b =
     bindE (read_message_header cs) (\<lambda>(header, cs).
     case header of
       None \<Rightarrow> bindE (unsubscribe cs b) (\<lambda>(_, cs, b). fail_with ''Error reading message header'' cs b)
     | Some h \<Rightarrow>
       bindE (read_method cs (length_arg h)) (\<lambda>(meth, cs).
       case meth of
         None \<Rightarrow> bindE (unsubscribe cs b) (\<lambda>(_, cs, b). fail_with ''Error reading method'' cs b)
       | Some m \<Rightarrow>
         if class_id m \<noteq> BASIC \<or> method_id m \<noteq> BASIC_ACK
         then bindE (unsubscribe cs b) (\<lambda>(_, cs, b). fail_with (unexpected_method m) cs b)
         else Inr (WAIT_VALUE_DEQUEUE, cs, b)))"

definition action_noop :: action where
  "action_noop cs b = Inr (FAIL, cs, b)"

section \<open>The table of actions\<close>

fun actions :: "machine_state \<Rightarrow> action" where
  "actions WAIT = action_wait"
| "actions HEADER_RECEIVED = action_header_received"
| "actions WAIT_START_OK = action_wait_start_ok"
| "actions START_OK_RECEIVED = action_start_ok_received"
| "actions WAIT_TUNE_OK = action_wait_tune_ok"
| "actions WAIT_OPEN_CONNECTION = action_wait_open_connection"
| "actions OPEN_CONNECTION_RECEIVED = action_open_connection_received"
| "actions CLOSE_CONNECTION_RECEIVED = action_close_connection_received"
| "actions WAIT_OPEN_CHANNEL = action_wait_open_channel"
| "actions OPEN_CHANNEL_RECEIVED = action_open_channel_received"
| "actions CLOSE_CHANNEL_RECEIVED = action_close_channel_received"
| "actions WAIT_FUNCTIONAL = action_wait_functional"
| "actions QUEUE_DECLARE_RECEIVED = action_queue_declare_received"
| "actions BASIC_PUBLISH_RECEIVED = action_basic_publish_received"
| "actions WAIT_PUBLISH_CONTENT_HEADER = action_wait_publish_content_header"
| "actions WAIT_PUBLISH_CONTENT = action_wait_publish_content"
| "actions BASIC_CONSUME_RECEIVED = action_basic_consume_received"
| "actions WAIT_VALUE_DEQUEUE = action_wait_value_dequeue"
| "actions VALUE_DEQUEUE_RECEIVED = action_value_dequeue_received"
| "actions WAIT_CONSUME_ACK = action_wait_consume_ack"
| "actions FINISHED = action_noop"
| "actions FAIL = action_noop"

text \<open>The table is an array in the order of the states of \<^verbatim>\<open>src/state_machine.h\<close>, indexed by a state.\<close>

fun state_code :: "machine_state \<Rightarrow> nat" where
  "state_code WAIT = 0"
| "state_code HEADER_RECEIVED = 1"
| "state_code WAIT_START_OK = 2"
| "state_code START_OK_RECEIVED = 3"
| "state_code WAIT_TUNE_OK = 4"
| "state_code WAIT_OPEN_CONNECTION = 5"
| "state_code OPEN_CONNECTION_RECEIVED = 6"
| "state_code CLOSE_CONNECTION_RECEIVED = 7"
| "state_code WAIT_OPEN_CHANNEL = 8"
| "state_code OPEN_CHANNEL_RECEIVED = 9"
| "state_code CLOSE_CHANNEL_RECEIVED = 10"
| "state_code WAIT_FUNCTIONAL = 11"
| "state_code QUEUE_DECLARE_RECEIVED = 12"
| "state_code BASIC_PUBLISH_RECEIVED = 13"
| "state_code WAIT_PUBLISH_CONTENT_HEADER = 14"
| "state_code WAIT_PUBLISH_CONTENT = 15"
| "state_code BASIC_CONSUME_RECEIVED = 16"
| "state_code WAIT_VALUE_DEQUEUE = 17"
| "state_code VALUE_DEQUEUE_RECEIVED = 18"
| "state_code WAIT_CONSUME_ACK = 19"
| "state_code FINISHED = 20"
| "state_code FAIL = 21"

definition actions_table :: "action list" where
  "actions_table =
     [action_wait, action_header_received, action_wait_start_ok, action_start_ok_received, action_wait_tune_ok,
      action_wait_open_connection, action_open_connection_received, action_close_connection_received,
      action_wait_open_channel, action_open_channel_received, action_close_channel_received,
      action_wait_functional, action_queue_declare_received,
      action_basic_publish_received, action_wait_publish_content_header, action_wait_publish_content,
      action_basic_consume_received, action_wait_value_dequeue, action_value_dequeue_received, action_wait_consume_ack,
      action_noop, action_noop]"

lemma actions_table: "state_code m < length actions_table \<and> actions_table ! state_code m = actions m"
  by (cases m) (simp_all add: actions_table_def)

lemma state_code_inj [simp]: "state_code m = state_code m' \<longleftrightarrow> m = m'"
  by (cases m; cases m') simp_all

text \<open>States are ordered as the constants of the enumeration.\<close>

instantiation machine_state :: linorder
begin

definition less_eq_machine_state :: "machine_state \<Rightarrow> machine_state \<Rightarrow> bool" where
  "less_eq_machine_state m m' \<longleftrightarrow> state_code m \<le> state_code m'"

definition less_machine_state :: "machine_state \<Rightarrow> machine_state \<Rightarrow> bool" where
  "less_machine_state m m' \<longleftrightarrow> state_code m < state_code m'"

instance
  by standard (auto simp: less_eq_machine_state_def less_machine_state_def)

end

section \<open>Error messages fit\<close>

lemma length_decimal: "n < 10 ^ k \<Longrightarrow> 0 < k \<Longrightarrow> length (decimal n) \<le> k"
proof (induction k arbitrary: n)
  case (Suc k)
  show ?case
  proof (cases "n < 10")
    case True
    then show ?thesis by (simp add: decimal.simps)
  next
    case False
    with Suc.prems have "0 < k" by (cases k) auto
    moreover have "n div 10 < 10 ^ k" using Suc.prems by (simp add: less_mult_imp_div_less mult.commute)
    ultimately have "length (decimal (n div 10)) \<le> k" by (rule Suc.IH [rotated])
    with False show ?thesis by (subst decimal.simps) simp
  qed
qed simp

lemma length_decimal_16: "length (decimal (unat (w :: 16 word))) \<le> 5"
proof (rule length_decimal)
  have "unat w < 65536" using unsigned_less [of w] by simp
  then show "unat w < 10 ^ 5" by simp
qed simp

lemma length_decimal_8: "length (decimal (unat (w :: byte))) \<le> 3"
proof (rule length_decimal)
  have "unat w < 256" using unsigned_less [of w] by simp
  then show "unat w < 10 ^ 3" by simp
qed simp

lemma set_error_ok: "length msg < 128 \<Longrightarrow> set_error msg cs = Inr (cs\<lparr>error_msg := msg\<rparr>)"
  by (simp add: set_error_def ERROR_MSG_SIZE_def)

lemma fail_with_ok: "length msg < 128 \<Longrightarrow> fail_with msg cs b = Inr (FAIL, cs\<lparr>error_msg := msg\<rparr>, b)"
  by (simp add: fail_with_def set_error_ok)

lemma length_unexpected_method: "length (unexpected_method m) < 128"
  using length_decimal_16 [of "class_id m"] length_decimal_16 [of "method_id m"]
  by (simp add: unexpected_method_def)

lemma length_unexpected_type: "length (unexpected_type h) < 128"
  using length_decimal_8 [of "msg_type h"] by (simp add: unexpected_type_def)

lemma fail_with_literals [simp]:
  "fail_with ''Error reading protocol header'' cs b = Inr (FAIL, cs\<lparr>error_msg := ''Error reading protocol header''\<rparr>, b)"
  "fail_with ''Error reading message header'' cs b = Inr (FAIL, cs\<lparr>error_msg := ''Error reading message header''\<rparr>, b)"
  "fail_with ''Error reading method'' cs b = Inr (FAIL, cs\<lparr>error_msg := ''Error reading method''\<rparr>, b)"
  "fail_with ''Did not receive tune ok'' cs b = Inr (FAIL, cs\<lparr>error_msg := ''Did not receive tune ok''\<rparr>, b)"
  "fail_with ''Did not receive open'' cs b = Inr (FAIL, cs\<lparr>error_msg := ''Did not receive open''\<rparr>, b)"
  "fail_with (unexpected_method m) cs b = Inr (FAIL, cs\<lparr>error_msg := unexpected_method m\<rparr>, b)"
  "fail_with (unexpected_type h) cs b = Inr (FAIL, cs\<lparr>error_msg := unexpected_type h\<rparr>, b)"
  by (simp_all add: fail_with_ok length_unexpected_method length_unexpected_type)

section \<open>Every action makes progress\<close>

text \<open>
  What a send leaves: the connection but for its send buffer and its output.
\<close>

definition send_frame :: "connection_state \<Rightarrow> connection_state \<Rightarrow> bool" where
  "send_frame cs cs' \<longleftrightarrow>
     connfd cs' = connfd cs \<and> tid cs' = tid cs \<and> current_queue cs' = current_queue cs \<and>
     current_queue_name cs' = current_queue_name cs \<and> error_msg cs' = error_msg cs \<and>
     recvline cs' = recvline cs \<and> parsed cs' = parsed cs \<and> rx cs' = rx cs"

lemma send_frame_refl [simp]: "send_frame cs cs"
  by (simp add: send_frame_def)

lemma send_frame_trans: "send_frame a b \<Longrightarrow> send_frame b c \<Longrightarrow> send_frame a c"
  by (simp add: send_frame_def)

lemma send_frame_steps:
  "put_sendline off bs cs = Inr cs' \<Longrightarrow> send_frame cs cs'"
  "write_sendline cs n = Inr cs' \<Longrightarrow> send_frame cs cs'"
  by (auto simp: send_frame_def write_sendline_eq_Inr)

lemma send_method_frame_only: "send_method cs c m ch args n = Inr cs' \<Longrightarrow> send_frame cs cs'"
  unfolding send_method_def Let_def
  by (auto simp: bindE_eq_Inr simp del: put_sendline_eq_Inr dest!: send_frame_steps) (blast intro: send_frame_trans)

lemma send_content_header_frame_only:
  "send_content_header cs c ch w bs f props = Inr cs' \<Longrightarrow> send_frame cs cs'"
  unfolding send_content_header_def Let_def
  by (auto simp: bindE_eq_Inr simp del: put_sendline_eq_Inr dest!: send_frame_steps) (blast intro: send_frame_trans)

lemma send_body_frame_only: "send_body cs ch payload n = Inr cs' \<Longrightarrow> send_frame cs cs'"
  unfolding send_body_def Let_def
  by (auto simp: bindE_eq_Inr simp del: put_sendline_eq_Inr dest!: send_frame_steps) (blast intro: send_frame_trans)

lemma send_queue_declare_ok_frame_only:
  "send_queue_declare_ok cs ch nb mc cc = Inr cs' \<Longrightarrow> send_frame cs cs'"
  unfolding send_queue_declare_ok_def Let_def
  by (auto simp: bindE_eq_Inr dest!: send_method_frame_only)

lemmas sends_only = send_method_frame_only send_content_header_frame_only send_body_frame_only
  send_queue_declare_ok_frame_only

text \<open>
  The queue operations keep the input. An action either uses up input or goes to a state of
  lower rank: no cycle of states is without a read.
\<close>

fun rank :: "machine_state \<Rightarrow> nat" where
  "rank FINISHED = 0"
| "rank FAIL = 0"
| "rank HEADER_RECEIVED = 2"
| "rank START_OK_RECEIVED = 2"
| "rank OPEN_CONNECTION_RECEIVED = 2"
| "rank CLOSE_CONNECTION_RECEIVED = 2"
| "rank OPEN_CHANNEL_RECEIVED = 2"
| "rank CLOSE_CHANNEL_RECEIVED = 2"
| "rank QUEUE_DECLARE_RECEIVED = 2"
| "rank BASIC_PUBLISH_RECEIVED = 2"
| "rank BASIC_CONSUME_RECEIVED = 4"
| "rank WAIT_VALUE_DEQUEUE = 3"
| "rank VALUE_DEQUEUE_RECEIVED = 2"
| "rank _ = 1"

definition advances :: "machine_state \<Rightarrow> connection_state \<Rightarrow> machine_state \<Rightarrow> connection_state \<Rightarrow> bool" where
  "advances m cs m' cs' \<longleftrightarrow> connfd cs' = connfd cs \<and> tid cs' = tid cs \<and>
     (rx_size (rx cs') < rx_size (rx cs) \<or> rx_size (rx cs') = rx_size (rx cs) \<and> rank m' < rank m)"

definition same_input :: "connection_state \<Rightarrow> connection_state \<Rightarrow> bool" where
  "same_input cs cs' \<longleftrightarrow> connfd cs' = connfd cs \<and> tid cs' = tid cs \<and> rx cs' = rx cs"

lemma advances_same_input: "same_input cs cs' \<Longrightarrow> rank m' < rank m \<Longrightarrow> advances m cs m' cs'"
  by (simp add: advances_def same_input_def)

lemma advances_read:
  assumes "read_frame cs cs1" "rx_size (rx cs1) < rx_size (rx cs)" "read_frame cs1 cs2" "same_input cs2 cs'"
  shows "advances m cs m' cs'"
  using assms by (auto simp: advances_def same_input_def read_frame_def)

lemma advances_fail: "read_frame cs cs1 \<Longrightarrow> same_input cs1 cs' \<Longrightarrow> 0 < rank m \<Longrightarrow> advances m cs FAIL cs'"
  by (auto simp: advances_def same_input_def read_frame_def)

lemma same_input_send: "send_frame cs cs' \<Longrightarrow> same_input cs cs'"
  by (simp add: send_frame_def same_input_def)

lemma same_input_simps [simp]:
  "same_input cs cs"
  "same_input cs (cs'\<lparr>error_msg := e\<rparr>) = same_input cs cs'"
  "same_input cs (cs'\<lparr>current_queue := q\<rparr>) = same_input cs cs'"
  "same_input cs (cs'\<lparr>current_queue_name := nb\<rparr>) = same_input cs cs'"
  "same_input cs (cs'\<lparr>recvline := l\<rparr>) = same_input cs cs'"
  by (simp_all add: same_input_def)

lemma same_input_trans: "same_input a b \<Longrightarrow> same_input b c \<Longrightarrow> same_input a c"
  by (simp add: same_input_def)

lemma functional_switch_input: "functional_switch m cs b = Inr (m', cs', b') \<Longrightarrow> same_input cs cs'"
  by (auto simp: functional_switch_def queue_case_def basic_publish_case_def basic_consume_case_def
      get_queue_lookup bindE_eq_Inr Let_def split: if_splits)

lemma basic_publish_case_input: "basic_publish_case cs b = Inr (m', cs', b') \<Longrightarrow> same_input cs cs'"
  by (auto simp: basic_publish_case_def get_queue_lookup bindE_eq_Inr Let_def)

lemma publish_switch_input: "publish_switch m cs b = Inr (m', cs', b') \<Longrightarrow> same_input cs cs'"
  by (auto simp: publish_switch_def dest: basic_publish_case_input split: if_splits)

lemma unsubscribe_input: "unsubscribe cs b = Inr (m', cs', b') \<Longrightarrow> m' = FAIL \<and> cs' = cs"
  by (auto simp: unsubscribe_def bindE_eq_Inr)

lemmas sending_actions =
  action_header_received_def action_start_ok_received_def action_open_connection_received_def
  action_close_connection_received_def action_open_channel_received_def action_close_channel_received_def
  action_queue_declare_received_def action_basic_publish_received_def action_basic_consume_received_def
  action_wait_value_dequeue_def action_value_dequeue_received_def

lemmas reading_actions =
  action_wait_start_ok_def action_wait_tune_ok_def action_wait_open_connection_def
  action_wait_open_channel_def action_wait_functional_def action_wait_publish_content_header_def
  action_wait_publish_content_def action_wait_consume_ack_def

definition reading_states :: "machine_state list" where
  "reading_states = [WAIT_START_OK, WAIT_TUNE_OK, WAIT_OPEN_CONNECTION, WAIT_OPEN_CHANNEL, WAIT_FUNCTIONAL,
     WAIT_PUBLISH_CONTENT_HEADER, WAIT_PUBLISH_CONTENT, WAIT_CONSUME_ACK]"

lemma sending_advances:
  assumes "actions m cs b = Inr (m', cs', b')" "m \<notin> set reading_states" "m \<noteq> WAIT" "m \<noteq> FINISHED" "m \<noteq> FAIL"
  shows "advances m cs m' cs'"
proof -
  have "same_input cs cs' \<and> rank m' < rank m"
    using assms
    by (cases m) (auto simp: reading_states_def sending_actions bindE_eq_Inr Let_def
        dest!: sends_only dest!: same_input_send intro: same_input_trans)
  then show ?thesis by (simp add: advances_same_input)
qed

definition progress :: "connection_state \<Rightarrow> machine_state \<Rightarrow> connection_state \<Rightarrow> bool" where
  "progress cs m' cs' \<longleftrightarrow> (\<exists>cs1 cs2. read_frame cs cs1 \<and> read_frame cs1 cs2 \<and> same_input cs2 cs' \<and>
      (rx_size (rx cs1) < rx_size (rx cs) \<or> m' = FAIL))"

lemma progress_advances: "progress cs m' cs' \<Longrightarrow> 0 < rank m \<Longrightarrow> advances m cs m' cs'"
  unfolding progress_def by (blast intro: advances_read advances_fail read_frame_trans)

lemma header_progress:
  assumes "bindE (read_message_header cs)
      (\<lambda>(header, cs). case header of None \<Rightarrow> f cs | Some h \<Rightarrow> g h cs) = Inr (m', cs', b')"
    and "\<And>c. f c = Inr (m', cs', b') \<Longrightarrow> m' = FAIL \<and> same_input c cs'"
    and "\<And>h c. g h c = Inr (m', cs', b') \<Longrightarrow> \<exists>c'. read_frame c c' \<and> same_input c' cs'"
  shows "progress cs m' cs'"
proof -
  from assms(1) obtain header cs1 where r: "read_message_header cs = Inr (header, cs1)"
    and k: "(case header of None \<Rightarrow> f cs1 | Some h \<Rightarrow> g h cs1) = Inr (m', cs', b')"
    by (auto simp: bindE_eq_Inr)
  show ?thesis
  proof (cases header)
    case None
    with k assms(2) [of cs1] read_message_header_frame_only [OF r] show ?thesis
      by (auto simp: progress_def intro!: exI [of _ cs1])
  next
    case (Some h)
    with k assms(3) [of h cs1] read_message_header_frame_only [OF r] show ?thesis
      by (auto simp: progress_def)
  qed
qed

lemma method_progress:
  assumes "bindE (read_method cs n)
      (\<lambda>(meth, cs). case meth of None \<Rightarrow> f cs | Some m \<Rightarrow> g m cs) = Inr (m', cs', b')"
    and "\<And>c. f c = Inr (m', cs', b') \<Longrightarrow> same_input c cs'"
    and "\<And>m c. g m c = Inr (m', cs', b') \<Longrightarrow> same_input c cs'"
  shows "\<exists>c'. read_frame cs c' \<and> same_input c' cs'"
proof -
  from assms(1) obtain meth cs1 where r: "read_method cs n = Inr (meth, cs1)"
    and k: "(case meth of None \<Rightarrow> f cs1 | Some m \<Rightarrow> g m cs1) = Inr (m', cs', b')"
    by (auto simp: bindE_eq_Inr)
  from k have "same_input cs1 cs'" using assms(2,3) by (auto split: option.splits)
  with read_method_frame_only [OF r] show ?thesis by blast
qed

lemma wait_start_ok_progress: "action_wait_start_ok cs b = Inr (m', cs', b') \<Longrightarrow> progress cs m' cs'"
  unfolding action_wait_start_ok_def
  by (erule header_progress) (auto elim!: method_progress split: if_splits)

lemma wait_tune_ok_progress: "action_wait_tune_ok cs b = Inr (m', cs', b') \<Longrightarrow> progress cs m' cs'"
  unfolding action_wait_tune_ok_def
  by (erule header_progress) (auto elim!: method_progress split: if_splits)

lemma wait_open_connection_progress:
  "action_wait_open_connection cs b = Inr (m', cs', b') \<Longrightarrow> progress cs m' cs'"
  unfolding action_wait_open_connection_def
  by (erule header_progress) (auto elim!: method_progress split: if_splits)

lemma wait_open_channel_progress: "action_wait_open_channel cs b = Inr (m', cs', b') \<Longrightarrow> progress cs m' cs'"
  unfolding action_wait_open_channel_def Let_def
  by (erule header_progress) (auto elim!: method_progress split: if_splits)

lemma checked_input:
  assumes "bindE f (\<lambda>(m, cs, b). if m = FAIL then fail_with (unexpected_method h) cs b else Inr (m, cs, b)) =
      Inr (m', cs', b')"
    and "\<And>m c b. f = Inr (m, c, b) \<Longrightarrow> same_input cs c"
  shows "same_input cs cs'"
  using assms by (auto simp: bindE_eq_Inr split: if_splits)

lemma fail_with_input: "fail_with e cs b = Inr (m', cs', b') \<Longrightarrow> m' = FAIL \<and> same_input cs cs'"
  by (auto simp: fail_with_def set_error_def bindE_eq_Inr)

lemma unsubscribe_then_input:
  "bindE (unsubscribe cs b) (\<lambda>(_, cs, b). fail_with e cs b) = Inr (m', cs', b') \<Longrightarrow>
   m' = FAIL \<and> same_input cs cs'"
  by (auto simp: bindE_eq_Inr dest!: unsubscribe_input fail_with_input)

lemma no_read: "same_input cs cs' \<Longrightarrow> \<exists>c'. read_frame cs c' \<and> same_input c' cs'"
  by (rule exI [of _ cs]) simp

lemma wait_functional_progress: "action_wait_functional cs b = Inr (m', cs', b') \<Longrightarrow> progress cs m' cs'"
  unfolding action_wait_functional_def
  by (erule header_progress)
    (auto elim!: method_progress checked_input dest: functional_switch_input)

lemma wait_publish_content_header_progress:
  "action_wait_publish_content_header cs b = Inr (m', cs', b') \<Longrightarrow> progress cs m' cs'"
  unfolding action_wait_publish_content_header_def
  by (erule header_progress) (auto simp: bindE_eq_Inr dest!: read_content_header_frame_only)

lemma publish_method_case_input:
  "publish_method_case h cs b = Inr (m', cs', b') \<Longrightarrow> \<exists>c'. read_frame cs c' \<and> same_input c' cs'"
  unfolding publish_method_case_def
  by (erule method_progress)
    (auto elim!: checked_input dest: publish_switch_input)

lemma publish_body_case_input:
  "publish_body_case h cs b = Inr (m', cs', b') \<Longrightarrow> \<exists>c'. read_frame cs c' \<and> same_input c' cs'"
  unfolding publish_body_case_def by (auto simp: bindE_eq_Inr dest!: read_body_frame_only)

lemma wait_publish_content_progress:
  "action_wait_publish_content cs b = Inr (m', cs', b') \<Longrightarrow> progress cs m' cs'"
  unfolding action_wait_publish_content_def
  by (erule header_progress)
    (auto dest: publish_method_case_input publish_body_case_input intro: no_read split: if_splits)

lemma wait_consume_ack_progress: "action_wait_consume_ack cs b = Inr (m', cs', b') \<Longrightarrow> progress cs m' cs'"
  unfolding action_wait_consume_ack_def
  by (erule header_progress)
    (auto elim!: method_progress dest: unsubscribe_then_input split: if_splits)

lemmas actions_progress = wait_start_ok_progress wait_tune_ok_progress wait_open_connection_progress
  wait_open_channel_progress wait_functional_progress wait_publish_content_header_progress
  wait_publish_content_progress wait_consume_ack_progress

lemma wait_advances: "action_wait cs b = Inr (m', cs', b') \<Longrightarrow> advances WAIT cs m' cs'"
  by (auto simp: action_wait_def bindE_eq_Inr advances_def read_frame_def
      dest!: read_protocol_header_frame_only split: if_splits)

lemma action_advances:
  assumes "actions m cs b = Inr (m', cs', b')" "m \<noteq> FINISHED" "m \<noteq> FAIL"
  shows "advances m cs m' cs'"
proof (cases "m \<in> set reading_states")
  case True
  then have "progress cs m' cs'" "0 < rank m" using assms(1) actions_progress
    by (auto simp: reading_states_def)
  then show ?thesis by (rule progress_advances)
next
  case False
  then show ?thesis using assms sending_advances wait_advances by (cases "m = WAIT") auto
qed

section \<open>The main loop\<close>

text \<open>\<^verbatim>\<open>state_machine_main\<close> runs actions until one gives \<^verbatim>\<open>FINISHED\<close> or \<^verbatim>\<open>FAIL\<close>.\<close>

function run_machine :: "machine_state \<Rightarrow> action" where
  "run_machine m cs b =
     (if m = FINISHED \<or> m = FAIL then Inr (m, cs, b)
      else bindE (actions m cs b) (\<lambda>(m, cs, b). run_machine m cs b))"
  by pat_completeness auto

termination
proof (relation "inv_image (less_than <*lex*> less_than) (\<lambda>(m, cs, b). (rx_size (rx cs), rank m))", goal_cases)
  case 1
  show ?case by auto
next
  case (2 m cs b r m1 r' cs' b')
  then have "advances m cs m1 cs'" using action_advances by auto
  then show ?case by (auto simp: advances_def)
qed

declare run_machine.simps [simp del]

definition state_machine_main :: "int \<Rightarrow> int \<Rightarrow> rx_event list \<Rightarrow> broker \<Rightarrow>
  (machine_state \<times> connection_state \<times> broker) result" where
  "state_machine_main fd thread input b = run_machine WAIT (init_connection fd thread input) b"

section \<open>Steps of the machine\<close>

type_synonym config = "machine_state \<times> connection_state \<times> broker"

inductive machine_step :: "config \<Rightarrow> config \<Rightarrow> bool" where
  act: "m \<noteq> FINISHED \<Longrightarrow> m \<noteq> FAIL \<Longrightarrow> actions m cs b = Inr (m', cs', b') \<Longrightarrow>
    machine_step (m, cs, b) (m', cs', b')"

inductive_simps machine_step_simp: "machine_step (m, cs, b) (m', cs', b')"

lemma run_step:
  "actions m cs b = Inr (m', cs', b') \<Longrightarrow> m \<noteq> FINISHED \<Longrightarrow> m \<noteq> FAIL \<Longrightarrow>
   run_machine m cs b = run_machine m' cs' b'"
  by (subst run_machine.simps) simp

lemma run_final [simp]: "run_machine FINISHED cs b = Inr (FINISHED, cs, b)" "run_machine FAIL cs b = Inr (FAIL, cs, b)"
  by (simp_all add: run_machine.simps)

lemma run_stop: "actions m cs b = Inl e \<Longrightarrow> m \<noteq> FINISHED \<Longrightarrow> m \<noteq> FAIL \<Longrightarrow> run_machine m cs b = Inl e"
  by (subst run_machine.simps) simp

lemma steps_run':
  "machine_step\<^sup>*\<^sup>* s t \<Longrightarrow> (case s of (m, cs, b) \<Rightarrow> run_machine m cs b) = (case t of (m, cs, b) \<Rightarrow> run_machine m cs b)"
  by (induction rule: rtranclp_induct) (auto simp: machine_step_simp run_step)

lemma steps_run: "machine_step\<^sup>*\<^sup>* (m, cs, b) (m', cs', b') \<Longrightarrow> run_machine m cs b = run_machine m' cs' b'"
  using steps_run' by fastforce

text \<open>The result of a run is what the last configuration that can be reached gives.\<close>

lemma run_reaches:
  "(\<exists>m' cs' b'. run_machine m cs b = Inr (m', cs', b') \<and> (m' = FINISHED \<or> m' = FAIL) \<and>
      machine_step\<^sup>*\<^sup>* (m, cs, b) (m', cs', b')) \<or>
   (\<exists>e m' cs' b'. run_machine m cs b = Inl e \<and> actions m' cs' b' = Inl e \<and>
      machine_step\<^sup>*\<^sup>* (m, cs, b) (m', cs', b'))"
proof (induction m cs b rule: run_machine.induct)
  case (1 m cs b)
  show ?case
  proof (cases "m = FINISHED \<or> m = FAIL")
    case True
    then show ?thesis by auto
  next
    case False
    show ?thesis
    proof (cases "actions m cs b")
      case (Inl e)
      with False run_stop [OF Inl] show ?thesis by blast
    next
      case (Inr t)
      obtain m1 cs1 b1 where t: "t = (m1, cs1, b1)" by (cases t)
      with False Inr have "machine_step (m, cs, b) (m1, cs1, b1)" by (simp add: machine_step_simp)
      then have step: "machine_step\<^sup>*\<^sup>* (m, cs, b) u" if "machine_step\<^sup>*\<^sup>* (m1, cs1, b1) u" for u
        using that by (rule converse_rtranclp_into_rtranclp)
      have eq: "run_machine m cs b = run_machine m1 cs1 b1"
        using run_step [OF Inr [unfolded t]] False by simp
      show ?thesis unfolding eq
        using 1 [OF False Inr t [symmetric] refl] by (elim disjE exE) (blast intro: step)+
    qed
  qed
qed

end
