(* ===== verification/Broker_Spec.thy ===== *)
theory Broker_Spec
  imports Queue_Pool
begin

text \<open>
  The abstract broker: a finite map from the names of queues to their messages, the ring of
  their consumers and the consumer whose round it is. What each operation of the shared
  memory does to the tries, the linked lists and the arrays is what it does to this map.
\<close>

type_synonym named_queue = "byte list list \<times> int list \<times> int"
type_synonym spec = "byte list \<Rightarrow> named_queue option"

definition spec_declare :: "byte list \<Rightarrow> spec \<Rightarrow> spec" where
  "spec_declare nm M = (if M nm = None then M(nm \<mapsto> ([], [], - 1)) else M)"

definition spec_publish :: "byte list \<Rightarrow> byte list \<Rightarrow> spec \<Rightarrow> spec" where
  "spec_publish nm m M = (case M nm of None \<Rightarrow> M | Some (ms, r) \<Rightarrow> M(nm \<mapsto> (ms @ [m], r)))"

definition spec_subscribe :: "byte list \<Rightarrow> int \<Rightarrow> spec \<Rightarrow> spec" where
  "spec_subscribe nm t M = (case M nm of None \<Rightarrow> M | Some (ms, r) \<Rightarrow> M(nm \<mapsto> (ms, ring_exec (Subscribe t) r)))"

definition spec_unsubscribe :: "byte list \<Rightarrow> int \<Rightarrow> spec \<Rightarrow> spec" where
  "spec_unsubscribe nm t M = (case M nm of None \<Rightarrow> M | Some (ms, r) \<Rightarrow> M(nm \<mapsto> (ms, ring_exec (Unsubscribe t) r)))"

definition spec_deliver :: "byte list \<Rightarrow> spec \<Rightarrow> spec" where
  "spec_deliver nm M = (case M nm of None \<Rightarrow> M | Some (ms, r) \<Rightarrow> M(nm \<mapsto> (tl ms, ring_exec Next_round r)))"

text \<open>
  The steps of the abstract broker, with what they do to messages: a message is published to
  a queue, or the oldest message of a queue is handed to one of its subscribers.
\<close>

datatype event = Published "byte list" "byte list" | Delivered "byte list" int "byte list"

inductive spec_step :: "spec \<Rightarrow> event list \<Rightarrow> spec \<Rightarrow> bool" where
  stutter: "spec_step M [] M"
| declares: "spec_step M [] (spec_declare nm M)"
| publishes: "M nm \<noteq> None \<Longrightarrow> nul_free m \<Longrightarrow> spec_step M [Published nm m] (spec_publish nm m M)"
| subscribes: "M nm = Some (ms, xs, c) \<Longrightarrow> t \<notin> set xs \<Longrightarrow> spec_step M [] (spec_subscribe nm t M)"
| unsubscribes: "M nm = Some (ms, xs, c) \<Longrightarrow> t \<in> set xs \<Longrightarrow> spec_step M [] (spec_unsubscribe nm t M)"
| delivers: "M nm = Some (ms, xs, c) \<Longrightarrow> t \<in> set xs \<Longrightarrow>
    spec_step M (map (Delivered nm t) (take 1 ms)) (spec_deliver nm M)"

inductive spec_run :: "event list \<Rightarrow> spec \<Rightarrow> bool" where
  spec_start: "spec_run [] (\<lambda>_. None)"
| spec_more: "spec_run evs M \<Longrightarrow> spec_step M ev M' \<Longrightarrow> spec_run (evs @ ev) M'"

lemma spec_updates:
  assumes "M nm = Some (ms, xs, c)"
  shows "spec_publish nm m M = M(nm \<mapsto> (ms @ [m], xs, c))"
    "spec_subscribe nm t M = M(nm \<mapsto> (ms, xs @ [t], if xs = [] then t else c))"
    "spec_unsubscribe nm t M = M(nm \<mapsto> (ms, remove1 t xs, if c = t then ring_succ xs t else c))"
    "spec_deliver nm M = M(nm \<mapsto> (tl ms, xs, ring_succ xs c))"
  using assms
  by (simp_all add: spec_publish_def spec_subscribe_def spec_unsubscribe_def spec_deliver_def)

text \<open>What was published to a queue, what was taken from it, and what it holds.\<close>

definition published :: "byte list \<Rightarrow> event list \<Rightarrow> byte list list" where
  "published nm evs = concat (map (\<lambda>e. case e of Published k m \<Rightarrow> if k = nm then [m] else [] | _ \<Rightarrow> []) evs)"

definition handed :: "byte list \<Rightarrow> event list \<Rightarrow> byte list list" where
  "handed nm evs = concat (map (\<lambda>e. case e of Delivered k t m \<Rightarrow> if k = nm then [m] else [] | _ \<Rightarrow> []) evs)"

definition messages :: "spec \<Rightarrow> byte list \<Rightarrow> byte list list" where
  "messages M nm = (case M nm of None \<Rightarrow> [] | Some (ms, _) \<Rightarrow> ms)"

lemma events_simps [simp]:
  "published nm [] = []" "handed nm [] = []"
  "published nm (es @ fs) = published nm es @ published nm fs" "handed nm (es @ fs) = handed nm es @ handed nm fs"
  "published nm [Published k m] = (if k = nm then [m] else [])" "handed nm [Published k m] = []"
  "published nm [Delivered k t m] = []" "handed nm [Delivered k t m] = (if k = nm then [m] else [])"
  "published nm (map (Delivered k t) ms) = []" "handed nm (map (Delivered k t) ms) = (if k = nm then ms else [])"
  by (auto simp: published_def handed_def comp_def)

lemma spec_step_messages:
  assumes "spec_step M ev M'"
  shows "messages M nm @ published nm ev = handed nm ev @ messages M' nm \<and>
    (M' nm = None \<longrightarrow> M nm = None \<and> published nm ev = [])"
  using assms
proof (cases rule: spec_step.cases)
  case (publishes k m)
  then show ?thesis by (auto simp: messages_def spec_publish_def)
next
  case (delivers k ms xs c t)
  then show ?thesis by (cases ms) (auto simp: messages_def spec_updates)
qed (auto simp: messages_def spec_declare_def spec_updates split: option.splits)

lemma spec_conserves:
  "spec_run evs M \<Longrightarrow> published nm evs = handed nm evs @ messages M nm \<and> (M nm = None \<longrightarrow> published nm evs = [])"
proof (induction rule: spec_run.induct)
  case spec_start
  then show ?case by (simp add: messages_def)
next
  case (spec_more evs M ev M')
  with spec_step_messages [OF spec_more(2), of nm] show ?case by auto
qed

section \<open>Abstraction\<close>

definition broker_abs :: "broker \<Rightarrow> spec \<Rightarrow> bool" where
  "broker_abs b M \<longleftrightarrow> (\<exists>as ms xs. broker_rep b as ms xs \<and>
     (\<forall>nm. M nm = None \<longleftrightarrow> trie_lookup (pool b) nm = None) \<and>
     (\<forall>nm p. trie_lookup (pool b) nm = Some p \<longrightarrow>
        (\<exists>c. M nm = Some (ms p, xs p, c) \<and> rr_abs (rr (queues b ! p)) (xs p, c))))"

text \<open>The pointer \<open>p\<close> leads to the queue named \<open>nm\<close>.\<close>

definition names :: "broker \<Rightarrow> nat option \<Rightarrow> byte list \<Rightarrow> bool" where
  "names b p nm \<longleftrightarrow> (\<exists>i. p = Some i \<and> trie_lookup (pool b) nm = Some i)"

lemma rr_abs_ring: "rr_abs r a \<Longrightarrow> rr_ring r (fst a)"
  by (simp add: rr_abs_def)

lemma init_broker_abs: "broker_abs (init_broker raw ro) (\<lambda>_. None)"
  using init_broker_rep [of raw ro "\<lambda>_. []" "\<lambda>_. []" "\<lambda>_. []"]
  by (auto simp: broker_abs_def init_broker_def)

lemma abs_pool_ok: "broker_abs b M \<Longrightarrow> pool_ok b"
  by (auto simp: broker_abs_def broker_rep_def)

lemma pool_lookup: "pool_ok b \<Longrightarrow> trie_lookup (pool b) nm = Some p \<Longrightarrow> p < length (queues b) \<and> name (queues b ! p) = nm"
  by (simp add: pool_ok_def)

lemma names_queue_at:
  "broker_abs b M \<Longrightarrow> names b p nm \<Longrightarrow> \<exists>i. p = Some i \<and> trie_lookup (pool b) nm = Some i \<and>
     queue_at b p = Inr (i, queues b ! i)"
  using abs_pool_ok [of b M] pool_lookup [of b nm] by (auto simp: names_def queue_at_def)

lemma put_queue_simps [simp]:
  "pool (put_queue b i q h) = pool b" "heap (put_queue b i q h) = h" "rodata (put_queue b i q h) = rodata b"
  "raw_rr (put_queue b i q h) = raw_rr b" "queues (put_queue b i q h) = (queues b)[i := q]"
  by (simp_all add: put_queue_def)

lemma names_put [simp]: "names (put_queue b i q h) p nm = names b p nm"
  by (simp add: names_def)

lemma abs_put:
  assumes rep: "broker_rep b as ms xs" "\<forall>nm. M nm = None \<longleftrightarrow> trie_lookup (pool b) nm = None"
      "\<forall>nm p. trie_lookup (pool b) nm = Some p \<longrightarrow>
        (\<exists>c. M nm = Some (ms p, xs p, c) \<and> rr_abs (rr (queues b ! p)) (xs p, c))"
    and p: "trie_lookup (pool b) nm = Some p"
    and rep': "broker_rep (put_queue b p q' h') as' (ms(p := ms')) (xs(p := xs'))"
    and r: "rr_abs (rr q') (xs', c')"
  shows "broker_abs (put_queue b p q' h') (M(nm \<mapsto> (ms', xs', c')))"
proof -
  have ok: "pool_ok b" using rep(1) by (simp add: broker_rep_def)
  have "\<exists>c. (M(nm \<mapsto> (ms', xs', c'))) nm1 = Some ((ms(p := ms')) p1, (xs(p := xs')) p1, c) \<and>
      rr_abs (rr ((queues b)[p := q'] ! p1)) ((xs(p := xs')) p1, c)" if "trie_lookup (pool b) nm1 = Some p1" for nm1 p1
  proof (cases "nm1 = nm")
    case True
    with that p r pool_lookup [OF ok p] show ?thesis by auto
  next
    case False
    then have "p1 \<noteq> p" using pool_lookup [OF ok that] pool_lookup [OF ok p] by auto
    with that rep(3) False show ?thesis by auto
  qed
  then have all: "\<forall>nm1 p1. trie_lookup (pool (put_queue b p q' h')) nm1 = Some p1 \<longrightarrow>
      (\<exists>c. (M(nm \<mapsto> (ms', xs', c'))) nm1 = Some ((ms(p := ms')) p1, (xs(p := xs')) p1, c) \<and>
      rr_abs (rr (queues (put_queue b p q' h') ! p1)) ((xs(p := xs')) p1, c))"
    by (simp del: fun_upd_apply)
  have dom: "\<forall>nm1. (M(nm \<mapsto> (ms', xs', c'))) nm1 = None \<longleftrightarrow> trie_lookup (pool (put_queue b p q' h')) nm1 = None"
    using rep(2) p by simp
  show ?thesis unfolding broker_abs_def using rep' all dom by blast
qed

text \<open>Each operation against its specification.\<close>

lemma abs_get: "broker_abs b M \<Longrightarrow> broker_abs (b\<lparr>pool := get_trie_node (pool b) nm\<rparr>) M"
  unfolding broker_abs_def using broker_get by (auto, blast)

lemma abs_get_queue:
  assumes "broker_abs b M"
  shows "\<exists>p b'. get_queue b nm = (p, b') \<and> broker_abs b' M \<and> (\<forall>p k. names b' p k = names b p k) \<and>
    (p = None \<longleftrightarrow> M nm = None) \<and> (p \<noteq> None \<longrightarrow> names b' p nm) \<and> rodata b' = rodata b"
  using abs_get [OF assms, of nm] assms
  by (auto simp: get_queue_lookup names_def broker_abs_def)

lemma abs_declare:
  assumes abs: "broker_abs b M" and nm: "length nm < MAX_QUEUE_NAME"
  shows "\<exists>p b'. create_queue b nm = Inr (p, b') \<and> broker_abs b' (spec_declare nm M) \<and> names b' p nm \<and>
    (\<forall>p k. names b p k \<longrightarrow> names b' p k) \<and> rodata b' = rodata b"
proof (cases "trie_lookup (pool b) nm")
  case (Some p)
  with abs have "spec_declare nm M = M" by (auto simp: spec_declare_def broker_abs_def)
  with create_queue_known [OF Some] abs_get [OF abs, of nm] Some show ?thesis
    by (auto simp: names_def)
next
  case None
  from abs obtain as ms xs where rep: "broker_rep b as ms xs"
    "\<forall>nm. M nm = None \<longleftrightarrow> trie_lookup (pool b) nm = None"
    "\<forall>nm p. trie_lookup (pool b) nm = Some p \<longrightarrow>
        (\<exists>c. M nm = Some (ms p, xs p, c) \<and> rr_abs (rr (queues b ! p)) (xs p, c))"
    unfolding broker_abs_def by blast
  let ?n = "length (queues b)"
  from create_queue_fresh [OF None nm] obtain q t where
    q: "new_queue (raw_rr b) nm = Inr q"
    and c: "create_queue b nm = Inr (Some ?n, b\<lparr>pool := t, queues := queues b @ [q]\<rparr>)"
    and t: "\<forall>k. trie_lookup t k = (if k = nm then Some ?n else trie_lookup (pool b) k)" by blast
  let ?b = "b\<lparr>pool := t, queues := queues b @ [q]\<rparr>"
  from broker_create [OF rep(1) nm] c obtain as' ms' xs' where
    rep': "broker_rep ?b as' ms' xs'" "\<forall>i < ?n. ms' i = ms i \<and> xs' i = xs i" "ms' ?n = []" "xs' ?n = []"
    by auto
  have ok: "pool_ok b" using rep(1) by (simp add: broker_rep_def)
  have "rr_abs (rr q) ([], - 1)" using q init_abs by (auto simp: new_queue_eq_Inr)
  moreover have M: "M nm = None" using rep(2) None by simp
  moreover have "\<exists>c. M k = Some (ms' p, xs' p, c) \<and> rr_abs (rr ((queues b @ [q]) ! p)) (xs' p, c)"
    if "trie_lookup (pool b) k = Some p" for k p
    using pool_lookup [OF ok that] rep(3) that rep'(2) by (auto simp: nth_append)
  ultimately have "\<forall>k p. trie_lookup (pool ?b) k = Some p \<longrightarrow>
      (\<exists>c. spec_declare nm M k = Some (ms' p, xs' p, c) \<and> rr_abs (rr (queues ?b ! p)) (xs' p, c))"
    using t rep'(3,4) by (auto simp: spec_declare_def)
  moreover have "\<forall>k. spec_declare nm M k = None \<longleftrightarrow> trie_lookup (pool ?b) k = None"
    using t rep(2) M by (auto simp: spec_declare_def)
  ultimately have "broker_abs ?b (spec_declare nm M)" unfolding broker_abs_def using rep'(1) by blast
  with c t None show ?thesis by (auto simp: names_def)
qed

lemma abs_obtain:
  assumes "broker_abs b M" "trie_lookup (pool b) nm = Some i" "M nm = Some (ms, xs, c)"
  obtains as mss xss where "broker_rep b as mss xss" "\<forall>nm. M nm = None \<longleftrightarrow> trie_lookup (pool b) nm = None"
    "\<forall>nm p. trie_lookup (pool b) nm = Some p \<longrightarrow>
        (\<exists>c. M nm = Some (mss p, xss p, c) \<and> rr_abs (rr (queues b ! p)) (xss p, c))"
    "mss i = ms" "xss i = xs" "rr_abs (rr (queues b ! i)) (xs, c)" "i < length (queues b)"
proof -
  from assms(1) obtain as mss xss where rep: "broker_rep b as mss xss"
    "\<forall>nm. M nm = None \<longleftrightarrow> trie_lookup (pool b) nm = None"
    "\<forall>nm p. trie_lookup (pool b) nm = Some p \<longrightarrow>
        (\<exists>c. M nm = Some (mss p, xss p, c) \<and> rr_abs (rr (queues b ! p)) (xss p, c))"
    unfolding broker_abs_def by blast
  moreover from rep(3) assms(2,3) have "mss i = ms" "xss i = xs" "rr_abs (rr (queues b ! i)) (xs, c)"
    by fastforce+
  moreover have "i < length (queues b)" using abs_pool_ok [OF assms(1)] assms(2) pool_lookup by blast
  ultimately show ?thesis using that by blast
qed

lemma q_enqueue_rr: "q_enqueue q h m = Inr (q', h') \<Longrightarrow> rr q' = rr q"
  by (auto simp: q_enqueue_def bindE_eq_Inr Let_def malloc_node_def split: if_splits)

lemma abs_publish:
  assumes "broker_abs b M" "trie_lookup (pool b) nm = Some i" "M nm = Some (ms, xs, c)"
    and "valid_msg m" "int (length ms) < INT_MAX"
  shows "\<exists>q' h'. q_enqueue (queues b ! i) (heap b) m = Inr (q', h') \<and>
    broker_abs (put_queue b i q' h') (M(nm \<mapsto> (ms @ [m], xs, c)))"
proof -
  from abs_obtain [OF assms(1-3)] obtain as mss xss where rep: "broker_rep b as mss xss"
    "\<forall>nm. M nm = None \<longleftrightarrow> trie_lookup (pool b) nm = None"
    "\<forall>nm p. trie_lookup (pool b) nm = Some p \<longrightarrow>
        (\<exists>c. M nm = Some (mss p, xss p, c) \<and> rr_abs (rr (queues b ! p)) (xss p, c))"
    and i: "mss i = ms" "xss i = xs" "rr_abs (rr (queues b ! i)) (xs, c)" "i < length (queues b)" by blast
  from broker_enqueue [OF rep(1) i(4) assms(4)] i(1) assms(5) obtain q' h' where
    e: "q_enqueue (queues b ! i) (heap b) m = Inr (q', h')"
    and rep': "broker_rep (put_queue b i q' h') (as(i := as i @ [next_addr (heap b)])) (mss(i := ms @ [m])) xss"
    by auto
  have "xss(i := xs) = xss" using i(2) by auto
  with rep' have "broker_rep (put_queue b i q' h') (as(i := as i @ [next_addr (heap b)])) (mss(i := ms @ [m])) (xss(i := xs))"
    by simp
  from abs_put [OF rep assms(2) this] i(3) q_enqueue_rr [OF e] e show ?thesis by auto
qed

lemma abs_scheduler:
  assumes "broker_abs b M" "trie_lookup (pool b) nm = Some i" "M nm = Some (ms, r)" "op_ok p r"
  shows "\<exists>rr'. rr_exec p (rr (queues b ! i)) = Inr rr' \<and>
    broker_abs (put_queue b i ((queues b ! i)\<lparr>rr := rr'\<rparr>) (heap b)) (M(nm \<mapsto> (ms, ring_exec p r)))"
proof -
  obtain xs c where r: "r = (xs, c)" by (cases r)
  from abs_obtain [OF assms(1,2) assms(3) [unfolded r]] obtain as mss xss where rep: "broker_rep b as mss xss"
    "\<forall>nm. M nm = None \<longleftrightarrow> trie_lookup (pool b) nm = None"
    "\<forall>nm p. trie_lookup (pool b) nm = Some p \<longrightarrow>
        (\<exists>c. M nm = Some (mss p, xss p, c) \<and> rr_abs (rr (queues b ! p)) (xss p, c))"
    and i: "mss i = ms" "xss i = xs" "rr_abs (rr (queues b ! i)) (xs, c)" "i < length (queues b)" by blast
  from rr_exec_refines [OF i(3) assms(4) [unfolded r]] obtain rr' where
    e: "rr_exec p (rr (queues b ! i)) = Inr rr'" "rr_abs rr' (ring_exec p r)" unfolding r by blast
  obtain xs' c' where r': "ring_exec p r = (xs', c')" by (cases "ring_exec p r")
  have "mss(i := ms) = mss" using i(1) by auto
  with broker_scheduler [OF rep(1) i(4), of rr' xs'] rr_abs_ring [OF e(2)] r'
  have "broker_rep (put_queue b i ((queues b ! i)\<lparr>rr := rr'\<rparr>) (heap b)) as (mss(i := ms)) (xss(i := xs'))" by simp
  from abs_put [OF rep assms(2) this] e r' show ?thesis by auto
qed

lemma abs_deliver:
  assumes "broker_abs b M" "trie_lookup (pool b) nm = Some i" "M nm = Some (m # ms, xs, t)" "t \<in> set xs"
  shows "\<exists>s q' h'. q_dequeue_rr MAXLINE (queues b ! i) (heap b) t dest =
      Inr (True, s, mem_write dest 0 (m @ [0]), q', h') \<and>
    broker_abs (put_queue b i q' h') (M(nm \<mapsto> (ms, ring_exec Next_round (xs, t)))) \<and> valid_msg m"
proof -
  from abs_obtain [OF assms(1-3)] obtain as mss xss where rep: "broker_rep b as mss xss"
    "\<forall>nm. M nm = None \<longleftrightarrow> trie_lookup (pool b) nm = None"
    "\<forall>nm p. trie_lookup (pool b) nm = Some p \<longrightarrow>
        (\<exists>c. M nm = Some (mss p, xss p, c) \<and> rr_abs (rr (queues b ! p)) (xss p, c))"
    and i: "mss i = m # ms" "xss i = xs" "rr_abs (rr (queues b ! i)) (xs, t)" "i < length (queues b)" by blast
  have ring: "distinct xs" "current (rr (queues b ! i)) = t"
    using i(3) assms(4) by (auto simp: rr_abs_def rr_ring_def)
  from assms(4) obtain j where j: "j < length xs" "xs ! j = t" by (auto simp: in_set_conv_nth)
  from broker_dequeue_turn [OF rep(1) i(4,1), of j dest] i(2) ring(2) j obtain q' h' as' where
    d: "q_dequeue_rr MAXLINE (queues b ! i) (heap b) t dest =
      Inr (True, xs ! (Suc j mod length xs), mem_write dest 0 (m @ [0]), q', h')"
      "broker_rep (put_queue b i q' h') (as(i := as')) (mss(i := ms)) xss"
      "current (rr q') = xs ! (Suc j mod length xs)" by auto
  have "xss(i := xs) = xss" using i(2) by auto
  with d(2) have rep': "broker_rep (put_queue b i q' h') (as(i := as')) (mss(i := ms)) (xss(i := xs))" by simp
  have "rr_ring (rr q') xs"
    using broker_rep_queue(2) [OF d(2), of i] i(2,4) by simp
  then have "rr_abs (rr q') (xs, ring_succ xs t)"
    using d(3) ring_succ_nth [OF ring(1) j(1)] j(2) by (simp add: rr_abs_def)
  from abs_put [OF rep assms(2) rep' this] d(1) broker_rep_queue(3) [OF rep(1) i(4), of m] i(1)
  show ?thesis by auto
qed

lemma abs_dom: "broker_abs b M \<Longrightarrow> M nm = None \<longleftrightarrow> trie_lookup (pool b) nm = None"
  by (auto simp: broker_abs_def)

lemma abs_named: "broker_abs b M \<Longrightarrow> names b p nm \<Longrightarrow> \<exists>ms xs c. M nm = Some (ms, xs, c)"
  using abs_dom [of b M nm] by (cases "M nm") (auto simp: names_def)

lemma names_unique: "pool_ok b \<Longrightarrow> names b p nm \<Longrightarrow> names b p nm' \<Longrightarrow> nm = nm'"
  by (auto simp: names_def pool_ok_def)

lemma abs_distinct:
  assumes "broker_abs b M" "M nm = Some (ms, xs, c)"
  shows "distinct xs" "xs \<noteq> [] \<Longrightarrow> c \<in> set xs"
proof -
  from assms obtain i where i: "trie_lookup (pool b) nm = Some i" using abs_dom [OF assms(1), of nm] by auto
  have "distinct xs \<and> (xs \<noteq> [] \<longrightarrow> c \<in> set xs)"
    by (rule abs_obtain [OF assms(1) i assms(2)]) (auto simp: rr_abs_def rr_ring_def)
  then show "distinct xs" "xs \<noteq> [] \<Longrightarrow> c \<in> set xs" by auto
qed

lemma abs_ring:
  "broker_abs b M \<Longrightarrow> trie_lookup (pool b) nm = Some i \<Longrightarrow> M nm = Some (ms, xs, c) \<Longrightarrow>
   rr_abs (rr (queues b ! i)) (xs, c)"
  by (erule (2) abs_obtain) auto

lemma q_enqueue_limit: "q_enqueue q h m = Inr r \<Longrightarrow> queue_size q < INT_MAX"
  by (auto simp: q_enqueue_def bindE_eq_Inr Let_def malloc_node_def split: if_splits)

text \<open>A dequeue whatever the queue holds, as after a wake-up.\<close>

lemma abs_dequeue_turn:
  assumes abs: "broker_abs b M" and i: "trie_lookup (pool b) nm = Some i"
    and M: "M nm = Some (ms, xs, c)" "xs \<noteq> []"
  shows "\<exists>ret s line q' h'. q_dequeue_turn MAXLINE (queues b ! i) (heap b) dest = Inr (ret, s, line, q', h') \<and>
    broker_abs (put_queue b i q' h') (M(nm \<mapsto> (tl ms, ring_exec Next_round (xs, c)))) \<and>
    (if ret then ms \<noteq> [] \<and> cstring MAXLINE line 0 = Inr (hd ms) else ms = [])"
proof (cases ms)
  case (Cons m ms')
  have c: "c \<in> set xs" using abs_distinct(2) [OF abs M(1)] M(2) by blast
  from abs_deliver [OF abs i M(1) [unfolded Cons] c, of dest] obtain s q' h' where
    "q_dequeue_rr MAXLINE (queues b ! i) (heap b) c dest = Inr (True, s, mem_write dest 0 (m @ [0]), q', h')"
    "broker_abs (put_queue b i q' h') (M(nm \<mapsto> (ms', ring_exec Next_round (xs, c))))" "valid_msg m" by blast
  moreover have "cstring MAXLINE (mem_write dest 0 (m @ [0])) 0 = Inr m"
    using calculation(3) cstring_write [of m 0 MAXLINE dest "[]"] by (simp add: valid_msg_def)
  ultimately show ?thesis unfolding q_dequeue_rr_def Cons bindE_eq_Inr by fastforce
next
  case Nil
  have "op_ok Next_round (xs, c)" using M(2) by simp
  from abs_scheduler [OF abs i M(1) this] obtain t rr' where
    n: "next_thread (rr (queues b ! i)) = Inr (t, rr')"
    "broker_abs (put_queue b i ((queues b ! i)\<lparr>rr := rr'\<rparr>) (heap b)) (M(nm \<mapsto> (ms, ring_exec Next_round (xs, c))))"
    by (auto simp: bindE_eq_Inr)
  have "q_dequeue MAXLINE (queues b ! i) (heap b) dest = Inr (False, dest, queues b ! i, heap b)"
  proof (rule abs_obtain [OF abs i M(1)])
    fix as mss xss
    assume "broker_rep b as mss xss" "mss i = ms" "i < length (queues b)"
    with broker_rep_queue(1) [of b as mss xss i] Nil show ?thesis using dequeue_empty by auto
  qed
  with n Nil show ?thesis by (auto simp: q_dequeue_turn_def intro: exI [of _ False])
qed

end
