(* ===== verification/Session.thy ===== *)
theory Session
  imports State_Machine Broker_Spec
begin

text \<open>
  What a client sees of one connection: the frames it sends, in whatever segments they
  arrive, against the frames it gets back and what happens to the queues.
\<close>

section \<open>Sending and receiving frames\<close>

text \<open>The connection has sent \<open>out\<close> and has \<open>rest\<close> left to read.\<close>

definition becomes :: "connection_state \<Rightarrow> byte list list \<Rightarrow> byte list \<Rightarrow> connection_state \<Rightarrow> bool" where
  "becomes cs out rest cs' \<longleftrightarrow>
     connfd cs' = connfd cs \<and> tid cs' = tid cs \<and> error_msg cs' = error_msg cs \<and>
     tx cs' = tx cs @ out \<and> rx_bytes (rx cs') = rest"

lemma becomes_trans: "becomes a o1 r1 b \<Longrightarrow> becomes b o2 r2 c \<Longrightarrow> becomes a (o1 @ o2) r2 c"
  by (simp add: becomes_def)

definition method_frame :: "16 word \<Rightarrow> 16 word \<Rightarrow> 16 word \<Rightarrow> byte list \<Rightarrow> byte list" where
  "method_frame ch c m args = frame METHOD ch (be_bytes 2 c @ be_bytes 2 m @ args)"

lemma method_header_of_payload [simp]:
  "method_header_of (be_bytes 2 c @ be_bytes 2 m @ args) = \<lparr>class_id = c, method_id = m\<rparr>"
  by (simp add: method_header_of_def be_word_be_bytes)

lemma length_arg_of_nat:
  "n \<le> MAXLINE \<Longrightarrow> length_arg \<lparr>msg_type = t, channel = ch, msg_length = of_nat n\<rparr> = int n"
  by (simp add: length_arg_def MAXLINE_def signed_of_nat signed_take_bit_int_eq_self)

text \<open>A method frame that arrives is read whole, with its arguments from offset 4 on.\<close>

lemma read_method_frame_run:
  assumes "rx_bytes (rx cs) = method_frame ch c m args @ rest" "length args \<le> MAXLINE - 7"
  shows "\<exists>l p r. bindE (read_message_header cs) (\<lambda>(header, cs). case header of None \<Rightarrow> f cs
      | Some h \<Rightarrow> bindE (read_method cs (length_arg h)) (\<lambda>(meth, cs). case meth of None \<Rightarrow> g cs | Some mh \<Rightarrow> k mh cs)) =
      k \<lparr>class_id = c, method_id = m\<rparr> (cs\<lparr>recvline := l, parsed := p, rx := r\<rparr>) \<and>
    rx_bytes r = rest \<and> (\<forall>i < length args. p (4 + i) = args ! i)"
proof -
  let ?pl = "be_bytes 2 c @ be_bytes 2 m @ args"
  have len: "4 \<le> length ?pl" "length ?pl \<le> MAXLINE - 3" "length ?pl \<le> MAXLINE"
    using assms(2) by (auto simp: MAXLINE_def)
  from read_message_header_frame [of cs METHOD ch ?pl rest] assms(1)
  obtain l1 r1 where h: "read_message_header cs =
      Inr (Some \<lparr>msg_type = METHOD, channel = ch, msg_length = of_nat (length ?pl)\<rparr>, cs\<lparr>recvline := l1, rx := r1\<rparr>)"
    "rx_bytes r1 = ?pl @ [0xce] @ rest" by (auto simp: method_frame_def)
  let ?cs = "cs\<lparr>recvline := l1, rx := r1\<rparr>"
  have "rx_bytes (rx ?cs) = ?pl @ [0xce] @ rest" using h(2) by simp
  from read_method_frame [OF this len(1,2)] obtain l p r where
    m: "read_method ?cs (int (length ?pl)) =
      Inr (Some (method_header_of ?pl), ?cs\<lparr>recvline := l, parsed := p, rx := r\<rparr>)"
    "rx_bytes r = rest" "\<forall>i < length ?pl. 4 \<le> i \<longrightarrow> p i = ?pl ! i" by blast
  have "p (4 + i) = args ! i" if "i < length args" for i
    using m(3) [rule_format, of "4 + i"] that by (simp add: nth_append)
  then show ?thesis
    using h(1) m(1,2) length_arg_of_nat [OF len(3), of METHOD ch]
    by (intro exI [of _ l] exI [of _ p] exI [of _ r])
      (simp del: append_assoc of_nat_add length_append add: method_header_of_payload)
qed

lemma method_step:
  assumes "rx_bytes (rx cs) = method_frame ch c m args @ rest" "length args \<le> MAXLINE - 7"
    and "\<And>l p r. rx_bytes r = rest \<Longrightarrow> \<forall>i < length args. p (4 + i) = args ! i \<Longrightarrow>
      \<exists>cs' b'. k \<lparr>class_id = c, method_id = m\<rparr> (cs\<lparr>recvline := l, parsed := p, rx := r\<rparr>) = Inr (m', cs', b') \<and> Q cs' b'"
  shows "\<exists>cs' b'. bindE (read_message_header cs) (\<lambda>(header, cs). case header of None \<Rightarrow> f cs
      | Some h \<Rightarrow> bindE (read_method cs (length_arg h)) (\<lambda>(meth, cs). case meth of None \<Rightarrow> g cs | Some mh \<Rightarrow> k mh cs)) =
      Inr (m', cs', b') \<and> Q cs' b'"
  using read_method_frame_run [OF assms(1,2), of f g k] assms(3) by auto

lemma send_method_frame':
  assumes "n \<le> length arguments" "n + 12 \<le> MAXLINE"
  shows "\<exists>s. send_method cs c m ch arguments n =
    Inr (cs\<lparr>sendline := s, tx := tx cs @ [method_frame ch c m (take n arguments)]\<rparr>)"
  using send_method_frame [OF assms] by (simp add: method_frame_def)

section \<open>Opening\<close>

lemma becomes_read [simp]:
  "becomes cs [] rest (cs\<lparr>recvline := l, parsed := p, rx := r\<rparr>) \<longleftrightarrow> rx_bytes r = rest"
  "becomes cs [] rest (cs\<lparr>recvline := l, rx := r\<rparr>) \<longleftrightarrow> rx_bytes r = rest"
  by (simp_all add: becomes_def)

lemma becomes_sent [simp]:
  "becomes cs out rest (cs\<lparr>sendline := s, tx := tx cs @ out'\<rparr>) \<longleftrightarrow> out' = out \<and> rx_bytes (rx cs) = rest"
  by (auto simp: becomes_def)

lemma memcmp_refl [simp]: "memcmp bs bs = 0"
  by (induction bs) auto

lemma header_step:
  assumes "rx_bytes (rx cs) = protocol_header_bytes default_amqp_header @ rest"
  shows "\<exists>cs'. actions WAIT cs b = Inr (HEADER_RECEIVED, cs', b) \<and> becomes cs [] rest cs'"
proof -
  have len: "length (protocol_header_bytes default_amqp_header) = 8"
    by (simp add: protocol_header_bytes_def default_amqp_header_def)
  have "unat (8 :: 64 word) \<le> MAXLINE" "unat (8 :: 64 word) \<le> length (rx_bytes (rx cs))"
    by (simp_all add: MAXLINE_def assms len)
  from recv_collects [OF this] obtain r where
    r: "recv cs 8 = Inr (8, cs\<lparr>recvline := mem_write (recvline cs) 0 (take 8 (rx_bytes (rx cs))), rx := r\<rparr>)"
      "rx_bytes r = drop 8 (rx_bytes (rx cs))" by auto
  have "take 8 (rx_bytes (rx cs)) = protocol_header_bytes default_amqp_header" "rx_bytes r = rest"
    using len by (simp_all add: r(2) assms)
  then show ?thesis using r(1) len
    by (auto simp: action_wait_def read_protocol_header_def parse_protocol_header_def)
qed

lemma start_ok_step:
  assumes "rx_bytes (rx cs) = method_frame ch CONNECTION CONNECTION_START_OK args @ rest" "length args \<le> MAXLINE - 7"
  shows "\<exists>cs' b'. actions WAIT_START_OK cs b = Inr (START_OK_RECEIVED, cs', b') \<and> (b' = b \<and> becomes cs [] rest cs')"
  unfolding actions.simps action_wait_start_ok_def by (rule method_step [OF assms]) simp

lemma tune_ok_step:
  assumes "rx_bytes (rx cs) = method_frame ch CONNECTION CONNECTION_TUNE_OK args @ rest" "length args \<le> MAXLINE - 7"
  shows "\<exists>cs' b'. actions WAIT_TUNE_OK cs b = Inr (WAIT_OPEN_CONNECTION, cs', b') \<and> (b' = b \<and> becomes cs [] rest cs')"
  unfolding actions.simps action_wait_tune_ok_def by (rule method_step [OF assms]) simp

lemma open_connection_step:
  assumes "rx_bytes (rx cs) = method_frame ch CONNECTION CONNECTION_OPEN args @ rest" "length args \<le> MAXLINE - 7"
  shows "\<exists>cs' b'. actions WAIT_OPEN_CONNECTION cs b = Inr (OPEN_CONNECTION_RECEIVED, cs', b') \<and>
    (b' = b \<and> becomes cs [] rest cs')"
  unfolding actions.simps action_wait_open_connection_def by (rule method_step [OF assms]) simp

lemma open_channel_step:
  assumes "rx_bytes (rx cs) = method_frame ch CHANNEL CHANNEL_OPEN args @ rest" "length args \<le> MAXLINE - 7"
  shows "\<exists>cs' b'. actions WAIT_OPEN_CHANNEL cs b = Inr (OPEN_CHANNEL_RECEIVED, cs', b') \<and>
    (b' = b \<and> becomes cs [] rest cs')"
  unfolding actions.simps action_wait_open_channel_def by (rule method_step [OF assms]) simp

lemma close_step:
  assumes "rx_bytes (rx cs) = method_frame ch CONNECTION CONNECTION_CLOSE args @ rest" "length args \<le> MAXLINE - 7"
  shows "\<exists>cs' b'. actions WAIT_OPEN_CHANNEL cs b = Inr (CLOSE_CONNECTION_RECEIVED, cs', b') \<and>
    (b' = b \<and> becomes cs [] rest cs')"
  unfolding actions.simps action_wait_open_channel_def by (rule method_step [OF assms]) (simp add: c_simps)

text \<open>The replies of the opening, and how they are sent.\<close>

definition connection_start_frame :: "byte list" where
  "connection_start_frame = method_frame 0 CONNECTION CONNECTION_START CONNECTION_START_ARGS"

definition connection_tune_frame :: "byte list" where
  "connection_tune_frame = method_frame 0 CONNECTION CONNECTION_TUNE CONNECTION_TUNE_ARGS"

definition connection_open_ok_frame :: "byte list" where
  "connection_open_ok_frame = method_frame 0 CONNECTION CONNECTION_OPEN_OK CONNECTION_OPEN_OK_ARGS"

definition connection_close_ok_frame :: "byte list" where
  "connection_close_ok_frame = method_frame 0 CONNECTION CONNECTION_CLOSE_OK []"

definition channel_open_ok_frame :: "byte list" where
  "channel_open_ok_frame = method_frame 1 CHANNEL CHANNEL_OPEN_OK CHANNEL_OPEN_OK_ARGS"

definition channel_close_ok_frame :: "byte list" where
  "channel_close_ok_frame = method_frame 1 CHANNEL CHANNEL_CLOSE_OK []"

lemma reply_step:
  assumes "n \<le> length args" "n + 12 \<le> MAXLINE" "take n args = out"
  shows "\<exists>cs'. bindE (send_method cs c m ch args n) (\<lambda>cs. Inr (m', cs, b)) = Inr (m', cs', b) \<and>
    becomes cs [method_frame ch c m out] (rx_bytes (rx cs)) cs' \<and> current_queue cs' = current_queue cs \<and>
    current_queue_name cs' = current_queue_name cs"
  using send_method_frame' [OF assms(1,2), of cs c m ch] assms(3) by auto

lemma opening_replies:
  "\<exists>cs'. actions HEADER_RECEIVED cs b = Inr (WAIT_START_OK, cs', b) \<and>
     becomes cs [connection_start_frame] (rx_bytes (rx cs)) cs'"
  "\<exists>cs'. actions START_OK_RECEIVED cs b = Inr (WAIT_TUNE_OK, cs', b) \<and>
     becomes cs [connection_tune_frame] (rx_bytes (rx cs)) cs'"
  "\<exists>cs'. actions OPEN_CONNECTION_RECEIVED cs b = Inr (WAIT_OPEN_CHANNEL, cs', b) \<and>
     becomes cs [connection_open_ok_frame] (rx_bytes (rx cs)) cs'"
  "\<exists>cs'. actions OPEN_CHANNEL_RECEIVED cs b = Inr (WAIT_FUNCTIONAL, cs', b) \<and>
     becomes cs [channel_open_ok_frame] (rx_bytes (rx cs)) cs'"
  "\<exists>cs'. actions CLOSE_CONNECTION_RECEIVED cs b = Inr (FINISHED, cs', b) \<and>
     becomes cs [connection_close_ok_frame] (rx_bytes (rx cs)) cs'"
  "\<exists>cs'. actions CLOSE_CHANNEL_RECEIVED cs b = Inr (WAIT_OPEN_CHANNEL, cs', b) \<and>
     becomes cs [channel_close_ok_frame] (rx_bytes (rx cs)) cs'"
  unfolding actions.simps sending_actions connection_start_frame_def connection_tune_frame_def
    connection_open_ok_frame_def channel_open_ok_frame_def connection_close_ok_frame_def channel_close_ok_frame_def
  using reply_step [of CONNECTION_START_ARGS_SIZE "CONNECTION_START_ARGS @ [0]" CONNECTION_START_ARGS cs
      CONNECTION CONNECTION_START 0 WAIT_START_OK b]
    reply_step [of CONNECTION_TUNE_ARGS_SIZE "CONNECTION_TUNE_ARGS @ [0]" CONNECTION_TUNE_ARGS cs
      CONNECTION CONNECTION_TUNE 0 WAIT_TUNE_OK b]
    reply_step [of CONNECTION_OPEN_OK_ARGS_SIZE "CONNECTION_OPEN_OK_ARGS @ [0]" CONNECTION_OPEN_OK_ARGS cs
      CONNECTION CONNECTION_OPEN_OK 0 WAIT_OPEN_CHANNEL b]
    reply_step [of CHANNEL_OPEN_OK_ARGS_SIZE "CHANNEL_OPEN_OK_ARGS @ [0]" CHANNEL_OPEN_OK_ARGS cs
      CHANNEL CHANNEL_OPEN_OK 1 WAIT_FUNCTIONAL b]
    reply_step [of ARGS_EMPTY_SIZE "ARGS_EMPTY @ [0]" "[]" cs CONNECTION CONNECTION_CLOSE_OK 0 FINISHED b]
    reply_step [of ARGS_EMPTY_SIZE "ARGS_EMPTY @ [0]" "[]" cs CHANNEL CHANNEL_CLOSE_OK 1 WAIT_OPEN_CHANNEL b]
  by (force simp: hardcoded_sizes MAXLINE_def)+

text \<open>
  \<open>reaches m cs b out rest m' cs' b'\<close>: from state \<open>m\<close> the machine gets to \<open>m'\<close>, after
  which there is \<open>rest\<close> to read and \<open>out\<close> has been sent.
\<close>

definition reaches ::
  "machine_state \<Rightarrow> connection_state \<Rightarrow> broker \<Rightarrow> byte list list \<Rightarrow> byte list \<Rightarrow>
   machine_state \<Rightarrow> connection_state \<Rightarrow> broker \<Rightarrow> bool" where
  "reaches m cs b out rest m' cs' b' \<longleftrightarrow>
     machine_step\<^sup>*\<^sup>* (m, cs, b) (m', cs', b') \<and> becomes cs out rest cs'"

lemma reaches_step:
  "actions m cs b = Inr (m', cs', b') \<Longrightarrow> m \<noteq> FINISHED \<Longrightarrow> m \<noteq> FAIL \<Longrightarrow> becomes cs out rest cs' \<Longrightarrow>
   reaches m cs b out rest m' cs' b'"
  by (auto simp: reaches_def machine_step_simp)

lemma reaches_trans:
  "reaches m cs b out rest m1 cs1 b1 \<Longrightarrow> reaches m1 cs1 b1 out1 rest1 m' cs' b' \<Longrightarrow>
   reaches m cs b (out @ out1) rest1 m' cs' b'"
  using becomes_trans [of cs out rest cs1 out1 rest1 cs'] by (auto simp: reaches_def)

lemma reaches_rest: "reaches m cs b out rest m' cs' b' \<Longrightarrow> rx_bytes (rx cs') = rest"
  by (simp add: reaches_def becomes_def)

lemma header_reaches:
  assumes "rx_bytes (rx cs) = protocol_header_bytes default_amqp_header @ rest"
  shows "\<exists>cs'. reaches WAIT cs b [connection_start_frame] rest WAIT_START_OK cs' b"
proof -
  obtain c1 where 1: "reaches WAIT cs b [] rest HEADER_RECEIVED c1 b"
    using header_step [OF assms, of b] by (auto simp del: actions.simps intro: reaches_step)
  moreover obtain c2 where "reaches HEADER_RECEIVED c1 b [connection_start_frame] rest WAIT_START_OK c2 b"
    using opening_replies(1) [of c1 b] reaches_rest [OF 1] by (auto simp del: actions.simps intro!: reaches_step)
  ultimately show ?thesis using reaches_trans by fastforce
qed

lemma start_ok_reaches:
  assumes "rx_bytes (rx cs) = method_frame ch CONNECTION CONNECTION_START_OK args @ rest" "length args \<le> MAXLINE - 7"
  shows "\<exists>cs'. reaches WAIT_START_OK cs b [connection_tune_frame] rest WAIT_TUNE_OK cs' b"
proof -
  obtain c1 where 1: "reaches WAIT_START_OK cs b [] rest START_OK_RECEIVED c1 b"
    using start_ok_step [OF assms, of b] by (auto simp del: actions.simps intro: reaches_step)
  moreover obtain c2 where "reaches START_OK_RECEIVED c1 b [connection_tune_frame] rest WAIT_TUNE_OK c2 b"
    using opening_replies(2) [of c1 b] reaches_rest [OF 1] by (auto simp del: actions.simps intro!: reaches_step)
  ultimately show ?thesis using reaches_trans by fastforce
qed

lemma tune_ok_reaches:
  assumes "rx_bytes (rx cs) = method_frame ch CONNECTION CONNECTION_TUNE_OK args @ rest" "length args \<le> MAXLINE - 7"
  shows "\<exists>cs'. reaches WAIT_TUNE_OK cs b [] rest WAIT_OPEN_CONNECTION cs' b"
  using tune_ok_step [OF assms, of b] by (auto simp del: actions.simps intro: reaches_step)

lemma open_connection_reaches:
  assumes "rx_bytes (rx cs) = method_frame ch CONNECTION CONNECTION_OPEN args @ rest" "length args \<le> MAXLINE - 7"
  shows "\<exists>cs'. reaches WAIT_OPEN_CONNECTION cs b [connection_open_ok_frame] rest WAIT_OPEN_CHANNEL cs' b"
proof -
  obtain c1 where 1: "reaches WAIT_OPEN_CONNECTION cs b [] rest OPEN_CONNECTION_RECEIVED c1 b"
    using open_connection_step [OF assms, of b] by (auto simp del: actions.simps intro: reaches_step)
  moreover obtain c2 where
    "reaches OPEN_CONNECTION_RECEIVED c1 b [connection_open_ok_frame] rest WAIT_OPEN_CHANNEL c2 b"
    using opening_replies(3) [of c1 b] reaches_rest [OF 1] by (auto simp del: actions.simps intro!: reaches_step)
  ultimately show ?thesis using reaches_trans by fastforce
qed

lemma open_channel_reaches:
  assumes "rx_bytes (rx cs) = method_frame ch CHANNEL CHANNEL_OPEN args @ rest" "length args \<le> MAXLINE - 7"
  shows "\<exists>cs'. reaches WAIT_OPEN_CHANNEL cs b [channel_open_ok_frame] rest WAIT_FUNCTIONAL cs' b"
proof -
  obtain c1 where 1: "reaches WAIT_OPEN_CHANNEL cs b [] rest OPEN_CHANNEL_RECEIVED c1 b"
    using open_channel_step [OF assms, of b] by (auto simp del: actions.simps intro: reaches_step)
  moreover obtain c2 where
    "reaches OPEN_CHANNEL_RECEIVED c1 b [channel_open_ok_frame] rest WAIT_FUNCTIONAL c2 b"
    using opening_replies(4) [of c1 b] reaches_rest [OF 1] by (auto simp del: actions.simps intro!: reaches_step)
  ultimately show ?thesis using reaches_trans by fastforce
qed

lemma close_reaches:
  assumes "rx_bytes (rx cs) = method_frame ch CONNECTION CONNECTION_CLOSE args @ rest" "length args \<le> MAXLINE - 7"
  shows "\<exists>cs'. reaches WAIT_OPEN_CHANNEL cs b [connection_close_ok_frame] rest FINISHED cs' b"
proof -
  obtain c1 where 1: "reaches WAIT_OPEN_CHANNEL cs b [] rest CLOSE_CONNECTION_RECEIVED c1 b"
    using close_step [OF assms, of b] by (auto simp del: actions.simps intro: reaches_step)
  moreover obtain c2 where
    "reaches CLOSE_CONNECTION_RECEIVED c1 b [connection_close_ok_frame] rest FINISHED c2 b"
    using opening_replies(5) [of c1 b] reaches_rest [OF 1] by (auto simp del: actions.simps intro!: reaches_step)
  ultimately show ?thesis using reaches_trans by fastforce
qed

text \<open>What a client sends to open a connection and a channel, and what it gets.\<close>

definition opening_frames :: "byte list list \<Rightarrow> byte list" where
  "opening_frames args =
     protocol_header_bytes default_amqp_header @
     method_frame 0 CONNECTION CONNECTION_START_OK (args ! 0) @
     method_frame 0 CONNECTION CONNECTION_TUNE_OK (args ! 1) @
     method_frame 0 CONNECTION CONNECTION_OPEN (args ! 2) @
     method_frame 1 CHANNEL CHANNEL_OPEN (args ! 3)"

definition opening_output :: "byte list list" where
  "opening_output =
     [connection_start_frame, connection_tune_frame, connection_open_ok_frame, channel_open_ok_frame]"

lemma opening_reaches:
  assumes "rx_bytes (rx cs) = opening_frames args @ rest" "\<forall>i < 4. length (args ! i) \<le> MAXLINE - 7"
  shows "\<exists>cs'. reaches WAIT cs b opening_output rest WAIT_FUNCTIONAL cs' b"
proof -
  note rx = assms(1) [unfolded opening_frames_def append_assoc]
  have len: "length (args ! 0) \<le> MAXLINE - 7" "length (args ! 1) \<le> MAXLINE - 7"
    "length (args ! 2) \<le> MAXLINE - 7" "length (args ! 3) \<le> MAXLINE - 7" using assms(2) by simp_all
  obtain c1 where 1: "reaches WAIT cs b [connection_start_frame] (method_frame 0 CONNECTION CONNECTION_START_OK (args ! 0) @
     method_frame 0 CONNECTION CONNECTION_TUNE_OK (args ! 1) @
     method_frame 0 CONNECTION CONNECTION_OPEN (args ! 2) @
     method_frame 1 CHANNEL CHANNEL_OPEN (args ! 3) @ rest) WAIT_START_OK c1 b"
    using header_reaches [OF rx] by blast
  from start_ok_reaches [OF reaches_rest [OF 1] len(1), of b] obtain c2 where
    2: "reaches WAIT_START_OK c1 b [connection_tune_frame] (method_frame 0 CONNECTION CONNECTION_TUNE_OK (args ! 1) @
     method_frame 0 CONNECTION CONNECTION_OPEN (args ! 2) @
     method_frame 1 CHANNEL CHANNEL_OPEN (args ! 3) @ rest) WAIT_TUNE_OK c2 b" by blast
  from tune_ok_reaches [OF reaches_rest [OF 2] len(2), of b] obtain c3 where
    3: "reaches WAIT_TUNE_OK c2 b [] (method_frame 0 CONNECTION CONNECTION_OPEN (args ! 2) @
     method_frame 1 CHANNEL CHANNEL_OPEN (args ! 3) @ rest) WAIT_OPEN_CONNECTION c3 b" by blast
  from open_connection_reaches [OF reaches_rest [OF 3] len(3), of b] obtain c4 where
    4: "reaches WAIT_OPEN_CONNECTION c3 b [connection_open_ok_frame]
      (method_frame 1 CHANNEL CHANNEL_OPEN (args ! 3) @ rest) WAIT_OPEN_CHANNEL c4 b" by blast
  from open_channel_reaches [OF reaches_rest [OF 4] len(4), of b] obtain c5 where
    5: "reaches WAIT_OPEN_CHANNEL c4 b [channel_open_ok_frame] rest WAIT_FUNCTIONAL c5 b" by blast
  from reaches_trans [OF 1 reaches_trans [OF 2 reaches_trans [OF 3 reaches_trans [OF 4 5]]]]
  show ?thesis by (auto simp: opening_output_def)
qed

section \<open>Declaring a queue\<close>

text \<open>The arguments of a declare or a consume, and of a publish, as the protocol lays them out.\<close>

definition name_args :: "16 word \<Rightarrow> byte list \<Rightarrow> byte list \<Rightarrow> byte list" where
  "name_args ticket nm tail = be_bytes 2 ticket @ [word_of_nat (length nm)] @ nm @ tail"

definition publish_args :: "16 word \<Rightarrow> byte list \<Rightarrow> byte list \<Rightarrow> byte list \<Rightarrow> byte list" where
  "publish_args ticket ex nm tail =
     be_bytes 2 ticket @ [word_of_nat (length ex)] @ ex @ [word_of_nat (length nm)] @ nm @ tail"

lemma unat_short: "n < 256 \<Longrightarrow> unat (word_of_nat n :: byte) = n"
  by (simp add: unat_of_nat)

lemma read_name_args:
  assumes "length nm < 256" "\<forall>i < length (name_args t nm tail). p (4 + i) = name_args t nm tail ! i"
  shows "mem_read p 7 (unat (p 6)) = nm"
proof -
  have "p 6 = word_of_nat (length nm)"
    using assms(2) [rule_format, of 2] by (simp add: name_args_def nth_append)
  moreover have "p (7 + i) = nm ! i" if "i < length nm" for i
    using assms(2) [rule_format, of "3 + i"] that by (simp add: name_args_def nth_append)
  ultimately show ?thesis using unat_short [OF assms(1)] by (auto intro: nth_equalityI)
qed

lemma read_publish_args:
  assumes "length nm < 256" "length ex < 256"
    and "\<forall>i < length (publish_args t ex nm tail). p (4 + i) = publish_args t ex nm tail ! i"
  shows "mem_read p (8 + unat (p 6)) (unat (p (7 + unat (p 6)))) = nm"
proof -
  have "p 6 = word_of_nat (length ex)"
    using assms(3) [rule_format, of 2] by (simp add: publish_args_def nth_append)
  then have 6: "unat (p 6) = length ex" using unat_short [OF assms(2)] by simp
  have "p (7 + length ex) = word_of_nat (length nm)"
    using assms(3) [rule_format, of "3 + length ex"] by (simp add: publish_args_def nth_append)
  moreover have "p (8 + length ex + i) = nm ! i" if "i < length nm" for i
    using assms(3) [rule_format, of "4 + length ex + i"] that by (simp add: publish_args_def nth_append ac_simps)
  ultimately show ?thesis using unat_short [OF assms(1)] 6 by (auto intro: nth_equalityI)
qed

lemma becomes_fields [simp]:
  "becomes cs out rest (cs'\<lparr>current_queue := q\<rparr>) = becomes cs out rest cs'"
  "becomes cs out rest (cs'\<lparr>current_queue_name := nb\<rparr>) = becomes cs out rest cs'"
  by (simp_all add: becomes_def)

lemma length_until_nul_name: "length nm < 256 \<Longrightarrow> length (until_nul nm) < MAX_QUEUE_NAME"
  using length_until_nul_le [of nm] by (simp add: MAX_QUEUE_NAME_def)

definition current_name :: "connection_state \<Rightarrow> broker \<Rightarrow> byte list \<Rightarrow> bool" where
  "current_name cs b nm \<longleftrightarrow> cstring MAX_QUEUE_NAME (current_queue_name cs) 0 = Inr nm \<and> names b (current_queue cs) nm"

lemma declare_step:
  assumes abs: "broker_abs b M" and nm: "length nm < 256"
    and rx: "rx_bytes (rx cs) = method_frame ch QUEUE QUEUE_DECLARE (name_args t nm tail) @ rest"
    and len: "length (name_args t nm tail) \<le> MAXLINE - 7"
  shows "\<exists>cs' b'. actions WAIT_FUNCTIONAL cs b = Inr (QUEUE_DECLARE_RECEIVED, cs', b') \<and>
    (becomes cs [] rest cs' \<and> current_name cs' b' (until_nul nm) \<and>
     broker_abs b' (spec_declare (until_nul nm) M) \<and> rodata b' = rodata b)"
  unfolding actions.simps action_wait_functional_def
proof (rule method_step [OF rx len])
  fix l p r
  assume r: "rx_bytes r = rest" "\<forall>i < length (name_args t nm tail). p (4 + i) = name_args t nm tail ! i"
  let ?cs = "cs\<lparr>recvline := l, parsed := p, rx := r\<rparr>"
  from parse_queue_declare_args_name [of p "current_queue_name cs"] read_name_args [OF nm r(2)] obtain q where
    q: "parse_queue_declare_args p (current_queue_name cs) = Inr q" "cstring MAX_QUEUE_NAME q 0 = Inr (until_nul nm)"
    by auto
  from abs_declare [OF abs length_until_nul_name [OF nm]] obtain i b' where
    c: "create_queue b (until_nul nm) = Inr (i, b')" "broker_abs b' (spec_declare (until_nul nm) M)"
      "names b' i (until_nul nm)" "rodata b' = rodata b" by blast
  show "\<exists>cs' b'. bindE (functional_switch \<lparr>class_id = QUEUE, method_id = QUEUE_DECLARE\<rparr> ?cs b)
        (\<lambda>(next_state, cs, b). if next_state = FAIL
           then fail_with (unexpected_method \<lparr>class_id = QUEUE, method_id = QUEUE_DECLARE\<rparr>) cs b
           else Inr (next_state, cs, b)) = Inr (QUEUE_DECLARE_RECEIVED, cs', b') \<and>
      (becomes cs [] rest cs' \<and> current_name cs' b' (until_nul nm) \<and>
       broker_abs b' (spec_declare (until_nul nm) M) \<and> rodata b' = rodata b)"
    using q c r(1) by (simp add: functional_switch_def queue_case_def c_simps current_name_def)
qed

definition declare_ok_frame :: "byte list \<Rightarrow> nat \<Rightarrow> byte list" where
  "declare_ok_frame nm n = method_frame 1 QUEUE QUEUE_DECLARE_OK
     ([word_of_nat (length nm)] @ nm @ be_bytes 4 (word_of_nat n :: 32 word) @ be_bytes 4 (0 :: 32 word))"

lemma abs_q_size:
  assumes "broker_abs b M" "trie_lookup (pool b) nm = Some i" "M nm = Some (ms, r)"
  shows "q_size (queues b ! i) = int (length ms)"
proof -
  obtain xs c where r: "r = (xs, c)" by (cases r)
  show ?thesis
  proof (rule abs_obtain [OF assms(1,2) assms(3) [unfolded r]])
    fix as mss xss
    assume "broker_rep b as mss xss" "mss i = ms" "i < length (queues b)"
    with broker_rep_queue(1) [of b as mss xss i] show ?thesis by (simp add: queue_rep_def q_size_def)
  qed
qed

lemma declare_ok_step:
  assumes abs: "broker_abs b M" and nm: "current_name cs b nm" and M: "M nm = Some (ms, r)"
  shows "\<exists>cs'. actions QUEUE_DECLARE_RECEIVED cs b = Inr (WAIT_FUNCTIONAL, cs', b) \<and>
    becomes cs [declare_ok_frame nm (length ms)] (rx_bytes (rx cs)) cs'"
proof -
  have n: "names b (current_queue cs) nm" "cstring MAX_QUEUE_NAME (current_queue_name cs) 0 = Inr nm"
    using nm by (simp_all add: current_name_def)
  from names_queue_at [OF abs n(1)] obtain i where
    i: "trie_lookup (pool b) nm = Some i" "queue_at b (current_queue cs) = Inr (i, queues b ! i)" by blast
  have sz: "word_of_int (q_size (queues b ! i)) = (word_of_nat (length ms) :: 32 word)"
    using abs_q_size [OF abs i(1) M] by simp
  obtain s where "send_queue_declare_ok cs 1 (current_queue_name cs) (word_of_int (q_size (queues b ! i))) 0 =
      Inr (cs\<lparr>sendline := s, tx := tx cs @ [declare_ok_frame nm (length ms)]\<rparr>)"
    unfolding sz declare_ok_frame_def method_frame_def
    using send_queue_declare_ok_frame [OF n(2), of cs 1 "word_of_nat (length ms)" 0] by blast
  with i(2) show ?thesis by (simp add: action_queue_declare_received_def)
qed

lemma declare_reaches:
  assumes abs: "broker_abs b M" and nm: "length nm < 256"
    and rx: "rx_bytes (rx cs) = method_frame ch QUEUE QUEUE_DECLARE (name_args t nm tail) @ rest"
    and len: "length (name_args t nm tail) \<le> MAXLINE - 7"
    and M: "spec_declare (until_nul nm) M (until_nul nm) = Some (ms, r)"
  shows "\<exists>cs' b'. reaches WAIT_FUNCTIONAL cs b [declare_ok_frame (until_nul nm) (length ms)] rest WAIT_FUNCTIONAL cs' b' \<and>
    broker_abs b' (spec_declare (until_nul nm) M) \<and> rodata b' = rodata b"
proof -
  from declare_step [OF assms(1-4)] obtain c1 b' where
    1: "reaches WAIT_FUNCTIONAL cs b [] rest QUEUE_DECLARE_RECEIVED c1 b'"
    and b': "current_name c1 b' (until_nul nm)" "broker_abs b' (spec_declare (until_nul nm) M)" "rodata b' = rodata b"
    by (auto simp del: actions.simps intro: reaches_step)
  from declare_ok_step [OF b'(2,1) M] reaches_rest [OF 1] obtain c2 where
    "reaches QUEUE_DECLARE_RECEIVED c1 b' [declare_ok_frame (until_nul nm) (length ms)] rest WAIT_FUNCTIONAL c2 b'"
    by (auto simp del: actions.simps intro!: reaches_step)
  from reaches_trans [OF 1 this] b' show ?thesis by auto
qed

section \<open>Publishing\<close>

lemma read_content_header_run:
  assumes rx: "rx_bytes (rx cs) = payload @ [e] @ rest" and len: "length payload \<le> MAXLINE"
  shows "\<exists>m l p r. read_content_header cs (int (length payload)) = Inr (m, cs\<lparr>recvline := l, parsed := p, rx := r\<rparr>) \<and>
    rx_bytes r = rest"
proof -
  let ?n = "word_of_nat (length payload) :: 64 word"
  have n: "unat ?n = length payload" using len by (rule unat_of_nat_MAXLINE)
  obtain b1 r1 where r1: "recv cs ?n = Inr (?n, cs\<lparr>recvline := b1, rx := r1\<rparr>)" "rx_bytes r1 = [e] @ rest"
    using recv_collects [of ?n cs] n len rx by auto
  have "\<exists>m p. parse_content_header s k q = Inr (m, p)" for s k q
    by (simp add: parse_content_header_def buf_load_ok buf_store_ok MAXLINE_def Let_def)
  then obtain m p where p: "parse_content_header b1 ?n (parsed cs) = Inr (m, p)" by blast
  let ?cs = "cs\<lparr>recvline := b1, rx := r1, parsed := p\<rparr>"
  obtain b2 r2 where r2: "recv ?cs 1 = Inr (1, ?cs\<lparr>recvline := b2, rx := r2\<rparr>)" "rx_bytes r2 = rest"
    using recv_collects [of 1 ?cs] r1(2) by (auto simp: MAXLINE_def)
  have "read_content_header cs (int (length payload)) = Inr (m, ?cs\<lparr>recvline := b2, rx := r2\<rparr>)"
    unfolding read_content_header_def word_of_int_nat r1(1)
    by (simp only: bindE.simps split p Let_def connection_state.select_convs connection_state.update_convs)
      (use p r2(1) in simp)
  then show ?thesis using r2(2) by (intro exI [of _ m] exI [of _ b2] exI [of _ p] exI [of _ r2]) simp
qed

lemma content_header_step:
  assumes "rx_bytes (rx cs) = frame ty ch payload @ rest" "length payload \<le> MAXLINE"
  shows "\<exists>cs'. actions WAIT_PUBLISH_CONTENT_HEADER cs b = Inr (WAIT_PUBLISH_CONTENT, cs', b) \<and>
    becomes cs [] rest cs' \<and> current_queue cs' = current_queue cs"
proof -
  from read_message_header_frame [OF assms(1)] obtain l1 r1 where
    h: "read_message_header cs = Inr (Some \<lparr>msg_type = ty, channel = ch, msg_length = of_nat (length payload)\<rparr>,
      cs\<lparr>recvline := l1, rx := r1\<rparr>)" "rx_bytes r1 = payload @ [0xce] @ rest" by blast
  let ?cs = "cs\<lparr>recvline := l1, rx := r1\<rparr>"
  have "rx_bytes (rx ?cs) = payload @ [0xce] @ rest" using h(2) by simp
  from read_content_header_run [OF this assms(2)] obtain m l p r where
    "read_content_header ?cs (int (length payload)) = Inr (m, ?cs\<lparr>recvline := l, parsed := p, rx := r\<rparr>)"
    "rx_bytes r = rest" by blast
  then show ?thesis
    using h(1) length_arg_of_nat [OF assms(2), of ty ch]
    by (simp add: action_wait_publish_content_header_def)
qed

lemma body_step:
  assumes abs: "broker_abs b M" and nm: "names b (current_queue cs) nm"
    and M: "M nm = Some (ms, xs, c)" "int (length ms) < INT_MAX"
    and rx: "rx_bytes (rx cs) = frame BODY ch payload @ rest" and len: "length payload < MAXLINE"
  shows "\<exists>cs' b'. actions WAIT_PUBLISH_CONTENT cs b = Inr (WAIT_PUBLISH_CONTENT, cs', b') \<and>
    becomes cs [] rest cs' \<and> current_queue cs' = current_queue cs \<and>
    broker_abs b' (M(nm \<mapsto> (ms @ [until_nul payload], xs, c))) \<and> pool b' = pool b \<and> rodata b' = rodata b \<and>
    cstring MAXLINE (parsed cs') 0 = Inr (until_nul payload) \<and> current_queue_name cs' = current_queue_name cs"
proof -
  from names_queue_at [OF abs nm] obtain i where
    i: "trie_lookup (pool b) nm = Some i" "queue_at b (current_queue cs) = Inr (i, queues b ! i)" by blast
  from read_message_header_frame [OF rx] obtain l1 r1 where
    h: "read_message_header cs = Inr (Some \<lparr>msg_type = BODY, channel = ch, msg_length = of_nat (length payload)\<rparr>,
      cs\<lparr>recvline := l1, rx := r1\<rparr>)" "rx_bytes r1 = payload @ [0xce] @ rest" by blast
  let ?h = "\<lparr>msg_type = BODY, channel = ch, msg_length = of_nat (length payload)\<rparr>"
  let ?cs = "cs\<lparr>recvline := l1, rx := r1\<rparr>"
  have "rx_bytes (rx ?cs) = payload @ [0xce] @ rest" using h(2) by simp
  from read_body_frame [OF this len] obtain l p r where
    r: "read_body ?cs (int (length payload)) = Inr (?cs\<lparr>recvline := l, parsed := p, rx := r\<rparr>)"
    "rx_bytes r = rest" "cstring MAXLINE p 0 = Inr (until_nul payload)" by blast
  have "valid_msg (until_nul payload)"
    using length_until_nul_le [of payload] len by (simp add: valid_msg_def)
  from abs_publish [OF abs i(1) M(1) this M(2)] obtain q' h' where
    e: "q_enqueue (queues b ! i) (heap b) (until_nul payload) = Inr (q', h')"
    "broker_abs (put_queue b i q' h') (M(nm \<mapsto> (ms @ [until_nul payload], xs, c)))" by blast
  have "length_arg ?h = int (length payload)" using len by (intro length_arg_of_nat) simp
  then have "actions WAIT_PUBLISH_CONTENT cs b =
      Inr (WAIT_PUBLISH_CONTENT, cs\<lparr>recvline := l, parsed := p, rx := r\<rparr>, put_queue b i q' h')"
    using r i(2) e(1) h(1)
    by (simp add: action_wait_publish_content_def publish_body_case_def c_simps)
  then show ?thesis using r(2,3) e(2) by simp
qed

text \<open>A publish is accepted after other publishes as well as before the first.\<close>

text \<open>The queue that a name leads to, if there is one.\<close>

definition finds :: "broker \<Rightarrow> spec \<Rightarrow> nat option \<Rightarrow> byte list \<Rightarrow> bool" where
  "finds b M p nm \<longleftrightarrow> (p = None \<longleftrightarrow> M nm = None) \<and> (p \<noteq> None \<longrightarrow> names b p nm)"

lemma finds_names: "finds b M p nm \<Longrightarrow> M nm \<noteq> None \<Longrightarrow> names b p nm"
  by (simp add: finds_def)

lemma basic_publish_case_run:
  assumes abs: "broker_abs b M" and nm: "length nm < 256" "length ex < 256"
    and p: "\<forall>i < length (publish_args t ex nm tail). parsed cs (4 + i) = publish_args t ex nm tail ! i"
  shows "\<exists>q nb b'. basic_publish_case cs b =
      Inr (BASIC_PUBLISH_RECEIVED, cs\<lparr>current_queue_name := nb, current_queue := q\<rparr>, b') \<and>
    finds b' M q (until_nul nm) \<and> broker_abs b' M \<and> rodata b' = rodata b"
proof -
  from parse_basic_publish_args_name [of "parsed cs" "current_queue_name cs"] read_publish_args [OF nm p]
  obtain nb where nb: "parse_basic_publish_args (parsed cs) (current_queue_name cs) = Inr nb"
    "cstring MAX_QUEUE_NAME nb 0 = Inr (until_nul nm)" by auto
  from abs_get_queue [OF abs, of "until_nul nm"] obtain q b' where
    q: "get_queue b (until_nul nm) = (q, b')" "broker_abs b' M" "finds b' M q (until_nul nm)" "rodata b' = rodata b"
    unfolding finds_def by metis
  from nb q(1) have "basic_publish_case cs b =
      Inr (BASIC_PUBLISH_RECEIVED, cs\<lparr>current_queue_name := nb, current_queue := q\<rparr>, b')"
    by (simp add: basic_publish_case_def)
  with q show ?thesis by blast
qed

lemma publish_method_step:
  assumes abs: "broker_abs b M" and nm: "length nm < 256" "length ex < 256"
    and rx: "rx_bytes (rx cs) = method_frame ch BASIC BASIC_PUBLISH (publish_args t ex nm tail) @ rest"
    and len: "length (publish_args t ex nm tail) \<le> MAXLINE - 7"
  shows "\<exists>cs' b'. actions WAIT_FUNCTIONAL cs b = Inr (BASIC_PUBLISH_RECEIVED, cs', b') \<and>
    (becomes cs [] rest cs' \<and> finds b' M (current_queue cs') (until_nul nm) \<and> broker_abs b' M \<and> rodata b' = rodata b)"
  unfolding actions.simps action_wait_functional_def
proof (rule method_step [OF rx len])
  fix l p r
  assume r: "rx_bytes r = rest" "\<forall>i < length (publish_args t ex nm tail). p (4 + i) = publish_args t ex nm tail ! i"
  let ?cs = "cs\<lparr>recvline := l, parsed := p, rx := r\<rparr>"
  from basic_publish_case_run [OF abs nm, of t tail ?cs] r obtain q nb b' where
    "basic_publish_case ?cs b = Inr (BASIC_PUBLISH_RECEIVED, ?cs\<lparr>current_queue_name := nb, current_queue := q\<rparr>, b')"
    "finds b' M q (until_nul nm)" "broker_abs b' M" "rodata b' = rodata b" by auto
  with r(1) show "\<exists>cs' b'. bindE (functional_switch \<lparr>class_id = BASIC, method_id = BASIC_PUBLISH\<rparr>
          (cs\<lparr>recvline := l, parsed := p, rx := r\<rparr>) b)
        (\<lambda>(next_state, cs, b). if next_state = FAIL
           then fail_with (unexpected_method \<lparr>class_id = BASIC, method_id = BASIC_PUBLISH\<rparr>) cs b
           else Inr (next_state, cs, b)) = Inr (BASIC_PUBLISH_RECEIVED, cs', b') \<and>
      (becomes cs [] rest cs' \<and> finds b' M (current_queue cs') (until_nul nm) \<and> broker_abs b' M \<and> rodata b' = rodata b)"
    by (simp add: functional_switch_def c_simps)
qed

lemma content_method_run:
  assumes rx: "rx_bytes (rx cs) = method_frame ch c m args @ rest" and len: "length args \<le> MAXLINE - 7"
  shows "\<exists>l p r. action_wait_publish_content cs b =
      bindE (publish_switch \<lparr>class_id = c, method_id = m\<rparr> (cs\<lparr>recvline := l, parsed := p, rx := r\<rparr>) b)
        (\<lambda>(next_state, cs, b). if next_state = FAIL
           then fail_with (unexpected_method \<lparr>class_id = c, method_id = m\<rparr>) cs b
           else Inr (next_state, cs, b)) \<and>
    rx_bytes r = rest \<and> (\<forall>i < length args. p (4 + i) = args ! i)"
proof -
  let ?pl = "be_bytes 2 c @ be_bytes 2 m @ args"
  have lens: "4 \<le> length ?pl" "length ?pl \<le> MAXLINE - 3" "length ?pl \<le> MAXLINE"
    using len by (auto simp: MAXLINE_def)
  let ?h = "\<lparr>msg_type = METHOD, channel = ch, msg_length = of_nat (length ?pl)\<rparr>"
  from read_message_header_frame [of cs METHOD ch ?pl rest] rx
  obtain l1 r1 where h: "read_message_header cs = Inr (Some ?h, cs\<lparr>recvline := l1, rx := r1\<rparr>)"
    "rx_bytes r1 = ?pl @ [0xce] @ rest" by (auto simp: method_frame_def)
  let ?cs = "cs\<lparr>recvline := l1, rx := r1\<rparr>"
  have "rx_bytes (rx ?cs) = ?pl @ [0xce] @ rest" using h(2) by simp
  from read_method_frame [OF this lens(1,2)] obtain l p r where
    m: "read_method ?cs (int (length ?pl)) = Inr (Some (method_header_of ?pl), ?cs\<lparr>recvline := l, parsed := p, rx := r\<rparr>)"
    "rx_bytes r = rest" "\<forall>i < length ?pl. 4 \<le> i \<longrightarrow> p i = ?pl ! i" by blast
  have p: "p (4 + i) = args ! i" if "i < length args" for i
    using m(3) [rule_format, of "4 + i"] that by (simp add: nth_append)
  have "length_arg ?h = int (length ?pl)" by (rule length_arg_of_nat [OF lens(3)])
  then have "action_wait_publish_content cs b = publish_method_case ?h ?cs b"
    using h(1) by (simp add: action_wait_publish_content_def)
  also have "\<dots> = bindE (publish_switch \<lparr>class_id = c, method_id = m\<rparr> (?cs\<lparr>recvline := l, parsed := p, rx := r\<rparr>) b)
      (\<lambda>(next_state, cs, b). if next_state = FAIL then fail_with (unexpected_method \<lparr>class_id = c, method_id = m\<rparr>) cs b
       else Inr (next_state, cs, b))"
    unfolding publish_method_case_def \<open>length_arg ?h = int (length ?pl)\<close> m(1) method_header_of_payload by simp
  finally show ?thesis using m(2) p by (intro exI [of _ l] exI [of _ p] exI [of _ r]) simp
qed

lemma publish_again_step:
  assumes abs: "broker_abs b M" and nm: "length nm < 256" "length ex < 256"
    and rx: "rx_bytes (rx cs) = method_frame ch BASIC BASIC_PUBLISH (publish_args t ex nm tail) @ rest"
    and len: "length (publish_args t ex nm tail) \<le> MAXLINE - 7"
  shows "\<exists>cs' b'. actions WAIT_PUBLISH_CONTENT cs b = Inr (BASIC_PUBLISH_RECEIVED, cs', b') \<and>
    (becomes cs [] rest cs' \<and> finds b' M (current_queue cs') (until_nul nm) \<and> broker_abs b' M \<and> rodata b' = rodata b)"
proof -
  from content_method_run [OF rx len, of b] obtain l p r where
    r: "action_wait_publish_content cs b =
      bindE (publish_switch \<lparr>class_id = BASIC, method_id = BASIC_PUBLISH\<rparr> (cs\<lparr>recvline := l, parsed := p, rx := r\<rparr>) b)
        (\<lambda>(next_state, cs, b). if next_state = FAIL
           then fail_with (unexpected_method \<lparr>class_id = BASIC, method_id = BASIC_PUBLISH\<rparr>) cs b
           else Inr (next_state, cs, b))"
    "rx_bytes r = rest" "\<forall>i < length (publish_args t ex nm tail). p (4 + i) = publish_args t ex nm tail ! i" by blast
  let ?cs = "cs\<lparr>recvline := l, parsed := p, rx := r\<rparr>"
  from basic_publish_case_run [OF abs nm, of t tail ?cs] r(3) obtain q nb b' where
    "basic_publish_case ?cs b = Inr (BASIC_PUBLISH_RECEIVED, ?cs\<lparr>current_queue_name := nb, current_queue := q\<rparr>, b')"
    "finds b' M q (until_nul nm)" "broker_abs b' M" "rodata b' = rodata b" by auto
  with r(1,2) show ?thesis by (simp add: publish_switch_def c_simps)
qed

lemma close_channel_step:
  assumes rx: "rx_bytes (rx cs) = method_frame ch CHANNEL CHANNEL_CLOSE args @ rest" and len: "length args \<le> MAXLINE - 7"
  shows "\<exists>cs'. actions WAIT_PUBLISH_CONTENT cs b = Inr (CLOSE_CHANNEL_RECEIVED, cs', b) \<and> becomes cs [] rest cs'"
  using content_method_run [OF rx len, of b] by (auto simp: publish_switch_def)

lemma close_channel_reaches:
  assumes "rx_bytes (rx cs) = method_frame ch CHANNEL CHANNEL_CLOSE args @ rest" "length args \<le> MAXLINE - 7"
  shows "\<exists>cs'. reaches WAIT_PUBLISH_CONTENT cs b [channel_close_ok_frame] rest WAIT_OPEN_CHANNEL cs' b"
proof -
  obtain c1 where 1: "reaches WAIT_PUBLISH_CONTENT cs b [] rest CLOSE_CHANNEL_RECEIVED c1 b"
    using close_channel_step [OF assms, of b] by (auto simp del: actions.simps intro: reaches_step)
  moreover obtain c2 where "reaches CLOSE_CHANNEL_RECEIVED c1 b [channel_close_ok_frame] rest WAIT_OPEN_CHANNEL c2 b"
    using opening_replies(6) [of c1 b] reaches_rest [OF 1] by (auto simp del: actions.simps intro!: reaches_step)
  ultimately show ?thesis using reaches_trans by fastforce
qed

text \<open>A publication as a client sends it: a method, a content header and one body.\<close>

record publication =
  pub_channel :: "16 word"
  pub_ticket :: "16 word"
  pub_exchange :: "byte list"
  pub_queue :: "byte list"
  pub_tail :: "byte list"
  pub_header :: "byte list"
  pub_body :: "byte list"

definition pub_args :: "publication \<Rightarrow> byte list" where
  "pub_args pb = publish_args (pub_ticket pb) (pub_exchange pb) (pub_queue pb) (pub_tail pb)"

definition publication_frames :: "publication \<Rightarrow> byte list" where
  "publication_frames pb =
     method_frame (pub_channel pb) BASIC BASIC_PUBLISH (pub_args pb) @
     frame CONTENT_HEADER (pub_channel pb) (pub_header pb) @ frame BODY (pub_channel pb) (pub_body pb)"

definition publication_fits :: "publication \<Rightarrow> bool" where
  "publication_fits pb \<longleftrightarrow> length (pub_queue pb) < 256 \<and> length (pub_exchange pb) < 256 \<and>
     length (pub_args pb) \<le> MAXLINE - 7 \<and> length (pub_header pb) \<le> MAXLINE \<and> length (pub_body pb) < MAXLINE"

definition spec_publication :: "publication \<Rightarrow> spec \<Rightarrow> spec" where
  "spec_publication pb = spec_publish (until_nul (pub_queue pb)) (until_nul (pub_body pb))"

text \<open>A publication up to its body.\<close>

lemma publication_opens:
  assumes m: "m = WAIT_FUNCTIONAL \<or> m = WAIT_PUBLISH_CONTENT"
    and abs: "broker_abs b M" and fits: "publication_fits pb"
    and rx: "rx_bytes (rx cs) = publication_frames pb @ rest"
  shows "\<exists>cs' b'. reaches m cs b [] (frame BODY (pub_channel pb) (pub_body pb) @ rest) WAIT_PUBLISH_CONTENT cs' b' \<and>
    finds b' M (current_queue cs') (until_nul (pub_queue pb)) \<and> broker_abs b' M \<and> rodata b' = rodata b"
proof -
  let ?nm = "until_nul (pub_queue pb)"
  let ?r1 = "frame CONTENT_HEADER (pub_channel pb) (pub_header pb) @ frame BODY (pub_channel pb) (pub_body pb) @ rest"
  let ?r2 = "frame BODY (pub_channel pb) (pub_body pb) @ rest"
  note f = fits [unfolded publication_fits_def pub_args_def]
  have rx': "rx_bytes (rx cs) = method_frame (pub_channel pb) BASIC BASIC_PUBLISH
      (publish_args (pub_ticket pb) (pub_exchange pb) (pub_queue pb) (pub_tail pb)) @ ?r1"
    using rx by (simp add: publication_frames_def pub_args_def)
  have "\<exists>c1 b1. actions m cs b = Inr (BASIC_PUBLISH_RECEIVED, c1, b1) \<and> (becomes cs [] ?r1 c1 \<and>
      finds b1 M (current_queue c1) ?nm \<and> broker_abs b1 M \<and> rodata b1 = rodata b)"
    using m publish_method_step [OF abs _ _ rx'] publish_again_step [OF abs _ _ rx'] f by blast
  then obtain c1 b1 where a1: "actions m cs b = Inr (BASIC_PUBLISH_RECEIVED, c1, b1)" "becomes cs [] ?r1 c1"
    and b1: "finds b1 M (current_queue c1) ?nm" "broker_abs b1 M" "rodata b1 = rodata b" by blast
  have 1: "reaches m cs b [] ?r1 BASIC_PUBLISH_RECEIVED c1 b1"
    using a1 m by (intro reaches_step) auto
  have 2: "reaches BASIC_PUBLISH_RECEIVED c1 b1 [] ?r1 WAIT_PUBLISH_CONTENT_HEADER c1 b1"
    using reaches_rest [OF 1] by (intro reaches_step) (simp_all add: action_basic_publish_received_def becomes_def)
  from content_header_step [OF reaches_rest [OF 1], of b1] f obtain c2 where
    a2: "actions WAIT_PUBLISH_CONTENT_HEADER c1 b1 = Inr (WAIT_PUBLISH_CONTENT, c2, b1)" "becomes c1 [] ?r2 c2"
      "current_queue c2 = current_queue c1" by blast
  have "reaches WAIT_PUBLISH_CONTENT_HEADER c1 b1 [] ?r2 WAIT_PUBLISH_CONTENT c2 b1"
    using a2 by (intro reaches_step) auto
  with reaches_trans [OF 1 reaches_trans [OF 2]] b1 a2(3) show ?thesis by fastforce
qed

lemma publication_reaches:
  assumes m: "m = WAIT_FUNCTIONAL \<or> m = WAIT_PUBLISH_CONTENT"
    and abs: "broker_abs b M" and fits: "publication_fits pb"
    and M: "M (until_nul (pub_queue pb)) = Some (ms, xs, c)" "int (length ms) < INT_MAX"
    and rx: "rx_bytes (rx cs) = publication_frames pb @ rest"
  shows "\<exists>cs' b'. reaches m cs b [] rest WAIT_PUBLISH_CONTENT cs' b' \<and> broker_abs b' (spec_publication pb M) \<and>
    rodata b' = rodata b"
proof -
  let ?nm = "until_nul (pub_queue pb)"
  from publication_opens [OF m abs fits rx] obtain c2 b1 where
    1: "reaches m cs b [] (frame BODY (pub_channel pb) (pub_body pb) @ rest) WAIT_PUBLISH_CONTENT c2 b1"
    and b1: "finds b1 M (current_queue c2) ?nm" "broker_abs b1 M" "rodata b1 = rodata b" by blast
  have len: "length (pub_body pb) < MAXLINE" using fits by (simp add: publication_fits_def)
  have nm: "names b1 (current_queue c2) ?nm" using finds_names [OF b1(1)] M(1) by simp
  from body_step [OF b1(2) nm M reaches_rest [OF 1] len] obtain c3 b3 where
    a3: "actions WAIT_PUBLISH_CONTENT c2 b1 = Inr (WAIT_PUBLISH_CONTENT, c3, b3)" "becomes c2 [] rest c3"
    and b3: "broker_abs b3 (M(?nm \<mapsto> (ms @ [until_nul (pub_body pb)], xs, c)))" "rodata b3 = rodata b1" by blast
  have 2: "reaches WAIT_PUBLISH_CONTENT c2 b1 [] rest WAIT_PUBLISH_CONTENT c3 b3"
    using a3 by (intro reaches_step) auto
  have "spec_publication pb M = M(?nm \<mapsto> (ms @ [until_nul (pub_body pb)], xs, c))"
    using M by (simp add: spec_publication_def spec_publish_def)
  with b3 b1(3) reaches_trans [OF 1 2] show ?thesis by auto
qed

text \<open>Room for \<open>n\<close> more messages in every queue.\<close>

definition room :: "nat \<Rightarrow> spec \<Rightarrow> bool" where
  "room n M \<longleftrightarrow> (\<forall>nm ms r. M nm = Some (ms, r) \<longrightarrow> int (length ms + n) \<le> INT_MAX)"

lemma room_publication: "room (Suc n) M \<Longrightarrow> room n (spec_publication pb M)"
  by (fastforce simp: room_def spec_publication_def spec_publish_def split: option.splits if_splits)

lemma dom_publication: "spec_publication pb M nm = None \<longleftrightarrow> M nm = None"
  by (auto simp: spec_publication_def spec_publish_def split: option.splits)

lemma publications_reach:
  assumes "m = WAIT_FUNCTIONAL \<and> pbs \<noteq> [] \<or> m = WAIT_PUBLISH_CONTENT"
    and "broker_abs b M" "\<forall>pb \<in> set pbs. publication_fits pb \<and> M (until_nul (pub_queue pb)) \<noteq> None"
    and "room (length pbs) M"
    and "rx_bytes (rx cs) = concat (map publication_frames pbs) @ rest"
  shows "\<exists>cs' b'. reaches m cs b [] rest WAIT_PUBLISH_CONTENT cs' b' \<and> broker_abs b' (fold spec_publication pbs M) \<and>
    rodata b' = rodata b"
  using assms
proof (induction pbs arbitrary: m cs b M)
  case Nil
  then have "reaches m cs b [] rest WAIT_PUBLISH_CONTENT cs b" by (simp add: reaches_def becomes_def)
  with Nil show ?case by auto
next
  case (Cons pb pbs)
  obtain ms xs c where M: "M (until_nul (pub_queue pb)) = Some (ms, xs, c)"
    using Cons.prems(3) by (metis list.set_intros(1) option.exhaust prod_cases3)
  have fits: "publication_fits pb" using Cons.prems(3) by simp
  have lt: "int (length ms) < INT_MAX" using Cons.prems(4) M by (fastforce simp: room_def)
  have m: "m = WAIT_FUNCTIONAL \<or> m = WAIT_PUBLISH_CONTENT" using Cons.prems(1) by blast
  have rx: "rx_bytes (rx cs) = publication_frames pb @ concat (map publication_frames pbs) @ rest"
    using Cons.prems(5) by simp
  from publication_reaches [OF m Cons.prems(2) fits M lt rx] obtain c1 b1 where
    1: "reaches m cs b [] (concat (map publication_frames pbs) @ rest) WAIT_PUBLISH_CONTENT c1 b1"
    and b1: "broker_abs b1 (spec_publication pb M)" "rodata b1 = rodata b" by blast
  have ok: "\<forall>pb' \<in> set pbs. publication_fits pb' \<and> spec_publication pb M (until_nul (pub_queue pb')) \<noteq> None"
    using Cons.prems(3) by (simp add: dom_publication)
  have rm: "room (length pbs) (spec_publication pb M)" using Cons.prems(4) by (auto intro: room_publication)
  from Cons.IH [OF disjI2 [OF refl] b1(1) ok rm reaches_rest [OF 1]] obtain c2 b2 where
    "reaches WAIT_PUBLISH_CONTENT c1 b1 [] rest WAIT_PUBLISH_CONTENT c2 b2"
    "broker_abs b2 (fold spec_publication (pb # pbs) M)" "rodata b2 = rodata b1" by auto
  with reaches_trans [OF 1] b1(2) show ?case by fastforce
qed

section \<open>Consuming\<close>

lemma becomes_recvline [simp]: "becomes cs out rest (cs'\<lparr>recvline := l\<rparr>) = becomes cs out rest cs'"
  by (simp add: becomes_def)

lemma consume_method_step:
  assumes abs: "broker_abs b M" and nm: "length nm < 256"
    and rx: "rx_bytes (rx cs) = method_frame ch BASIC BASIC_CONSUME (name_args t nm tail) @ rest"
    and len: "length (name_args t nm tail) \<le> MAXLINE - 7"
  shows "\<exists>cs' b'. actions WAIT_FUNCTIONAL cs b = Inr (BASIC_CONSUME_RECEIVED, cs', b') \<and>
    (becomes cs [] rest cs' \<and> finds b' M (current_queue cs') (until_nul nm) \<and> broker_abs b' M \<and> rodata b' = rodata b)"
  unfolding actions.simps action_wait_functional_def
proof (rule method_step [OF rx len])
  fix l p r
  assume r: "rx_bytes r = rest" "\<forall>i < length (name_args t nm tail). p (4 + i) = name_args t nm tail ! i"
  let ?cs = "cs\<lparr>recvline := l, parsed := p, rx := r\<rparr>"
  from parse_basic_consume_args_name [of p "current_queue_name cs"] read_name_args [OF nm r(2)] obtain nb where
    nb: "parse_basic_consume_args p (current_queue_name cs) = Inr nb" "cstring MAX_QUEUE_NAME nb 0 = Inr (until_nul nm)"
    by auto
  from abs_get_queue [OF abs, of "until_nul nm"] obtain q b' where
    q: "get_queue b (until_nul nm) = (q, b')" "broker_abs b' M" "finds b' M q (until_nul nm)" "rodata b' = rodata b"
    unfolding finds_def by metis
  from nb q r(1)
  show "\<exists>cs' b'. bindE (functional_switch \<lparr>class_id = BASIC, method_id = BASIC_CONSUME\<rparr> ?cs b)
        (\<lambda>(next_state, cs, b). if next_state = FAIL
           then fail_with (unexpected_method \<lparr>class_id = BASIC, method_id = BASIC_CONSUME\<rparr>) cs b
           else Inr (next_state, cs, b)) = Inr (BASIC_CONSUME_RECEIVED, cs', b') \<and>
      (becomes cs [] rest cs' \<and> finds b' M (current_queue cs') (until_nul nm) \<and> broker_abs b' M \<and> rodata b' = rodata b)"
    by (simp add: functional_switch_def basic_consume_case_def c_simps)
qed

text \<open>The consume-ok the broker sends: its arguments run on into the bytes that follow them.\<close>

definition consume_ok_frame :: "byte list \<Rightarrow> byte list" where
  "consume_ok_frame ro = method_frame 1 BASIC BASIC_CONSUME_OK (BASIC_CONSUME_OK_ARGS @ [0] @ take 3 ro)"

lemma subscribe_step:
  assumes abs: "broker_abs b M" and nm: "names b (current_queue cs) nm"
    and M: "M nm = Some (ms, xs, c)" "tid cs \<notin> set xs" "0 \<le> tid cs" "tid cs < int MAX_CONNECTIONS"
    and ro: "3 \<le> length (rodata b)"
  shows "\<exists>cs' b'. actions BASIC_CONSUME_RECEIVED cs b = Inr (WAIT_VALUE_DEQUEUE, cs', b') \<and>
    becomes cs [consume_ok_frame (rodata b)] (rx_bytes (rx cs)) cs' \<and> current_queue cs' = current_queue cs \<and>
    names b' (current_queue cs') nm \<and>
    broker_abs b' (M(nm \<mapsto> (ms, xs @ [tid cs], if xs = [] then tid cs else c))) \<and> rodata b' = rodata b"
proof -
  from names_queue_at [OF abs nm] obtain i where
    i: "current_queue cs = Some i" "trie_lookup (pool b) nm = Some i" "queue_at b (current_queue cs) = Inr (i, queues b ! i)"
    by blast
  from abs_scheduler [OF abs i(2) M(1), of "Subscribe (tid cs)"] M obtain rr' where
    a: "add_subscriber (rr (queues b ! i)) (tid cs) = Inr rr'"
    "broker_abs (put_queue b i ((queues b ! i)\<lparr>rr := rr'\<rparr>) (heap b))
      (M(nm \<mapsto> (ms, xs @ [tid cs], if xs = [] then tid cs else c)))" by auto
  let ?args = "BASIC_CONSUME_OK_ARGS @ [0] @ rodata b"
  have t: "take BASIC_CONSUME_OK_ARGS_SIZE ?args = BASIC_CONSUME_OK_ARGS @ [0] @ take 3 (rodata b)"
    by (simp add: hardcoded_sizes)
  have n: "BASIC_CONSUME_OK_ARGS_SIZE \<le> length ?args" "BASIC_CONSUME_OK_ARGS_SIZE + 12 \<le> MAXLINE"
    using ro by (simp_all add: hardcoded_sizes MAXLINE_def)
  from send_method_frame' [OF n, of cs BASIC BASIC_CONSUME_OK 1] obtain s where
    "send_method cs BASIC BASIC_CONSUME_OK 1 ?args BASIC_CONSUME_OK_ARGS_SIZE =
      Inr (cs\<lparr>sendline := s, tx := tx cs @ [consume_ok_frame (rodata b)]\<rparr>)"
    unfolding t consume_ok_frame_def by blast
  then have "actions BASIC_CONSUME_RECEIVED cs b = Inr (WAIT_VALUE_DEQUEUE,
      cs\<lparr>sendline := s, tx := tx cs @ [consume_ok_frame (rodata b)]\<rparr>,
      put_queue b i ((queues b ! i)\<lparr>rr := rr'\<rparr>) (heap b))"
    using i(3) a(1) by (simp add: action_basic_consume_received_def q_add_subscriber_def)
  with a(2) nm show ?thesis by simp
qed

lemma dequeue_step:
  assumes abs: "broker_abs b M" and nm: "names b (current_queue cs) nm"
    and M: "M nm = Some (m # ms, xs, tid cs)" "tid cs \<in> set xs"
  shows "\<exists>cs' b'. actions WAIT_VALUE_DEQUEUE cs b = Inr (VALUE_DEQUEUE_RECEIVED, cs', b') \<and>
    becomes cs [] (rx_bytes (rx cs)) cs' \<and> current_queue cs' = current_queue cs \<and>
    names b' (current_queue cs') nm \<and> cstring MAXLINE (recvline cs') 0 = Inr m \<and>
    broker_abs b' (M(nm \<mapsto> (ms, ring_exec Next_round (xs, tid cs)))) \<and> rodata b' = rodata b"
proof -
  from names_queue_at [OF abs nm] obtain i where
    i: "current_queue cs = Some i" "trie_lookup (pool b) nm = Some i" "queue_at b (current_queue cs) = Inr (i, queues b ! i)"
    by blast
  from abs_deliver [OF abs i(2) M, of "recvline cs"] obtain s q' h' where
    d: "q_dequeue_rr MAXLINE (queues b ! i) (heap b) (tid cs) (recvline cs) =
      Inr (True, s, mem_write (recvline cs) 0 (m @ [0]), q', h')"
    "broker_abs (put_queue b i q' h') (M(nm \<mapsto> (ms, ring_exec Next_round (xs, tid cs))))" "valid_msg m" by blast
  have c: "cstring MAXLINE (mem_write (recvline cs) 0 (m @ [0])) 0 = Inr m"
    using d(3) by (simp add: valid_msg_def cstring_write)
  have "actions WAIT_VALUE_DEQUEUE cs b =
      Inr (VALUE_DEQUEUE_RECEIVED, cs\<lparr>recvline := mem_write (recvline cs) 0 (m @ [0])\<rparr>, put_queue b i q' h')"
    using i(3) d(1) by (simp add: action_wait_value_dequeue_def)
  with c d(2) nm show ?thesis by (simp add: becomes_def)
qed

text \<open>What a consumer gets for a message.\<close>

definition content_header_frame :: "nat \<Rightarrow> byte list" where
  "content_header_frame n = frame CONTENT_HEADER 1
     (be_bytes 2 BASIC @ be_bytes 2 (0 :: 16 word) @ le_bytes 8 (swipe_endianness_64 (word_of_nat n)) @
      be_bytes 2 (0x1000 :: 16 word) @ CONTENT_HEADER_PROPERTIES)"

definition deliver_frames :: "byte list \<Rightarrow> byte list list" where
  "deliver_frames m =
     [method_frame 1 BASIC BASIC_DELIVER BASIC_DELIVER_ARGS, content_header_frame (length m), frame BODY 1 m]"

lemma one_property: "bit_cardinality_16 0x1000 = 1"
proof -
  have "(0x1000 :: 16 word) = 2 ^ 12" by simp
  then have "{i. bit (0x1000 :: 16 word) i} = {12}" by (simp only: bit_exp_iff) auto
  then show ?thesis by (simp only: bit_cardinality_16_card) simp
qed

lemma send_content_header_run:
  "\<exists>s. send_content_header cs BASIC 1 0 (of_nat n) 0x1000 (CONTENT_HEADER_PROPERTIES @ [0]) =
     Inr (cs\<lparr>sendline := s, tx := tx cs @ [content_header_frame n]\<rparr>)"
proof -
  have "nat (bit_cardinality_16 0x1000) \<le> length (CONTENT_HEADER_PROPERTIES @ [0])" by (simp add: one_property)
  moreover have "take (nat (bit_cardinality_16 0x1000)) (CONTENT_HEADER_PROPERTIES @ [0]) = CONTENT_HEADER_PROPERTIES"
    by (simp add: one_property)
  ultimately show ?thesis
    unfolding content_header_frame_def using send_content_header_frame [of "0x1000"] by metis
qed

lemma deliver_step:
  assumes m: "cstring MAXLINE (recvline cs) 0 = Inr m" "length m + 8 \<le> MAXLINE"
  shows "\<exists>cs'. actions VALUE_DEQUEUE_RECEIVED cs b = Inr (WAIT_CONSUME_ACK, cs', b) \<and>
    becomes cs (deliver_frames m) (rx_bytes (rx cs)) cs' \<and> current_queue cs' = current_queue cs"
proof -
  have n: "BASIC_DELIVER_ARGS_SIZE \<le> length (BASIC_DELIVER_ARGS @ [0])" "BASIC_DELIVER_ARGS_SIZE + 12 \<le> MAXLINE"
    "take BASIC_DELIVER_ARGS_SIZE (BASIC_DELIVER_ARGS @ [0]) = BASIC_DELIVER_ARGS"
    by (simp_all add: hardcoded_sizes MAXLINE_def)
  from send_method_frame' [OF n(1,2), of cs BASIC BASIC_DELIVER 1] n(3) obtain s1 where
    1: "send_method cs BASIC BASIC_DELIVER 1 (BASIC_DELIVER_ARGS @ [0]) BASIC_DELIVER_ARGS_SIZE =
      Inr (cs\<lparr>sendline := s1, tx := tx cs @ [method_frame 1 BASIC BASIC_DELIVER BASIC_DELIVER_ARGS]\<rparr>)" by auto
  let ?c1 = "cs\<lparr>sendline := s1, tx := tx cs @ [method_frame 1 BASIC BASIC_DELIVER BASIC_DELIVER_ARGS]\<rparr>"
  from send_content_header_run [of ?c1 "length m"] obtain s2 where
    2: "send_content_header ?c1 BASIC 1 0 (of_nat (length m)) 0x1000 (CONTENT_HEADER_PROPERTIES @ [0]) =
      Inr (?c1\<lparr>sendline := s2, tx := tx ?c1 @ [content_header_frame (length m)]\<rparr>)" by blast
  let ?c2 = "?c1\<lparr>sendline := s2, tx := tx ?c1 @ [content_header_frame (length m)]\<rparr>"
  from send_body_frame [of "length m" m ?c2 1] m(2) obtain s3 where
    3: "send_body ?c2 1 m (length m) = Inr (?c2\<lparr>sendline := s3, tx := tx ?c2 @ [frame BODY 1 m]\<rparr>)" by auto
  have "actions VALUE_DEQUEUE_RECEIVED cs b =
      Inr (WAIT_CONSUME_ACK, ?c2\<lparr>sendline := s3, tx := tx ?c2 @ [frame BODY 1 m]\<rparr>, b)"
    unfolding actions.simps action_value_dequeue_received_def m(1) bindE.simps Let_def 1 2 3 ..
  then show ?thesis by (simp add: becomes_def deliver_frames_def)
qed

text \<open>A message the broker accepts can be too long to be delivered: it overruns the send buffer.\<close>

lemma deliver_overflow:
  assumes m: "cstring MAXLINE (recvline cs) 0 = Inr m" "MAXLINE < length m + 8"
  shows "actions VALUE_DEQUEUE_RECEIVED cs b = Inl (UB Out_of_bounds)"
proof -
  have n: "BASIC_DELIVER_ARGS_SIZE \<le> length (BASIC_DELIVER_ARGS @ [0])" "BASIC_DELIVER_ARGS_SIZE + 12 \<le> MAXLINE"
    by (simp_all add: hardcoded_sizes MAXLINE_def)
  from send_method_frame' [OF n, of cs BASIC BASIC_DELIVER 1] obtain c1 where
    1: "send_method cs BASIC BASIC_DELIVER 1 (BASIC_DELIVER_ARGS @ [0]) BASIC_DELIVER_ARGS_SIZE = Inr c1" by auto
  from send_content_header_run [of c1 "length m"] obtain c2 where
    2: "send_content_header c1 BASIC 1 0 (of_nat (length m)) 0x1000 (CONTENT_HEADER_PROPERTIES @ [0]) = Inr c2" by auto
  show ?thesis
    unfolding actions.simps action_value_dequeue_received_def m(1) bindE.simps Let_def 1 2
      send_body_overflow [OF le_refl m(2)] ..
qed

lemma ack_step:
  assumes "rx_bytes (rx cs) = method_frame ch BASIC BASIC_ACK args @ rest" "length args \<le> MAXLINE - 7"
  shows "\<exists>cs' b'. actions WAIT_CONSUME_ACK cs b = Inr (WAIT_VALUE_DEQUEUE, cs', b') \<and>
    (b' = b \<and> becomes cs [] rest cs' \<and> current_queue cs' = current_queue cs)"
  unfolding actions.simps action_wait_consume_ack_def by (rule method_step [OF assms]) simp

lemma becomes_tid: "becomes cs out rest cs' \<Longrightarrow> tid cs' = tid cs"
  by (simp add: becomes_def)

text \<open>One message to the only consumer of a queue, and its acknowledgement.\<close>

lemma delivery_reaches:
  assumes abs: "broker_abs b M" and nm: "names b (current_queue cs) nm"
    and M: "M nm = Some (m # ms, [tid cs], tid cs)" and len: "length m + 8 \<le> MAXLINE"
    and rx: "rx_bytes (rx cs) = method_frame ch BASIC BASIC_ACK args @ rest" "length args \<le> MAXLINE - 7"
  shows "\<exists>cs' b'. reaches WAIT_VALUE_DEQUEUE cs b (deliver_frames m) rest WAIT_VALUE_DEQUEUE cs' b' \<and>
    broker_abs b' (M(nm \<mapsto> (ms, [tid cs], tid cs))) \<and> names b' (current_queue cs') nm \<and> rodata b' = rodata b"
proof -
  from dequeue_step [OF abs nm M] obtain c1 b1 where
    1: "actions WAIT_VALUE_DEQUEUE cs b = Inr (VALUE_DEQUEUE_RECEIVED, c1, b1)" "becomes cs [] (rx_bytes (rx cs)) c1"
    "names b1 (current_queue c1) nm" "cstring MAXLINE (recvline c1) 0 = Inr m"
    "broker_abs b1 (M(nm \<mapsto> (ms, [tid cs], tid cs)))" "rodata b1 = rodata b"
    by (auto simp: ring_succ_def)
  have r1: "reaches WAIT_VALUE_DEQUEUE cs b [] (rx_bytes (rx cs)) VALUE_DEQUEUE_RECEIVED c1 b1"
    using 1(1,2) by (intro reaches_step) auto
  from deliver_step [OF 1(4) len, of b1] reaches_rest [OF r1] obtain c2 where
    2: "actions VALUE_DEQUEUE_RECEIVED c1 b1 = Inr (WAIT_CONSUME_ACK, c2, b1)"
    "becomes c1 (deliver_frames m) (rx_bytes (rx cs)) c2" "current_queue c2 = current_queue c1" by auto
  have r2: "reaches VALUE_DEQUEUE_RECEIVED c1 b1 (deliver_frames m) (rx_bytes (rx cs)) WAIT_CONSUME_ACK c2 b1"
    using 2(1,2) by (intro reaches_step) auto
  from ack_step [OF reaches_rest [OF r2, unfolded rx(1)] rx(2), of b1] obtain c3 where
    3: "actions WAIT_CONSUME_ACK c2 b1 = Inr (WAIT_VALUE_DEQUEUE, c3, b1)" "becomes c2 [] rest c3"
    "current_queue c3 = current_queue c2" by blast
  have r3: "reaches WAIT_CONSUME_ACK c2 b1 [] rest WAIT_VALUE_DEQUEUE c3 b1"
    using 3(1,2) by (intro reaches_step) auto
  from reaches_trans [OF r1 reaches_trans [OF r2 r3]] 1(3,5,6) 2(3) 3(3) show ?thesis
    by (intro exI [of _ c3] exI [of _ b1]) (simp del: fun_upd_apply)
qed

lemma deliveries_reach:
  assumes "broker_abs b M" "names b (current_queue cs) nm" "M nm = Some (ms @ ms', [tid cs], tid cs)"
    and "\<forall>m \<in> set ms. length m + 8 \<le> MAXLINE" "length acks = length ms" "\<forall>a \<in> set acks. length a \<le> MAXLINE - 7"
    and "rx_bytes (rx cs) = concat (map (method_frame 1 BASIC BASIC_ACK) acks) @ rest"
  shows "\<exists>cs' b'. reaches WAIT_VALUE_DEQUEUE cs b (concat (map deliver_frames ms)) rest WAIT_VALUE_DEQUEUE cs' b' \<and>
    broker_abs b' (M(nm \<mapsto> (ms', [tid cs], tid cs))) \<and> names b' (current_queue cs') nm \<and> rodata b' = rodata b"
  using assms
proof (induction ms arbitrary: cs b M acks)
  case Nil
  then have "reaches WAIT_VALUE_DEQUEUE cs b [] rest WAIT_VALUE_DEQUEUE cs b" by (simp add: reaches_def becomes_def)
  moreover have "M(nm \<mapsto> (ms', [tid cs], tid cs)) = M" using Nil.prems(3) by auto
  ultimately show ?case using Nil.prems(1,2) by auto
next
  case (Cons m ms)
  then obtain a acks' where acks: "acks = a # acks'" by (cases acks) auto
  have rx: "rx_bytes (rx cs) = method_frame 1 BASIC BASIC_ACK a @ concat (map (method_frame 1 BASIC BASIC_ACK) acks') @ rest"
    using Cons.prems(7) acks by simp
  have "M nm = Some (m # (ms @ ms'), [tid cs], tid cs)" using Cons.prems(3) by simp
  from delivery_reaches [OF Cons.prems(1,2) this _ rx] Cons.prems(4,6) acks obtain c1 b1 where
    1: "reaches WAIT_VALUE_DEQUEUE cs b (deliver_frames m) (concat (map (method_frame 1 BASIC BASIC_ACK) acks') @ rest)
      WAIT_VALUE_DEQUEUE c1 b1" "broker_abs b1 (M(nm \<mapsto> (ms @ ms', [tid cs], tid cs)))"
    "names b1 (current_queue c1) nm" "rodata b1 = rodata b" by auto
  have t: "tid c1 = tid cs" using 1(1) becomes_tid by (auto simp: reaches_def)
  have "(M(nm \<mapsto> (ms @ ms', [tid cs], tid cs))) nm = Some (ms @ ms', [tid c1], tid c1)" by (simp add: t)
  from Cons.IH [OF 1(2,3) this _ _ _ reaches_rest [OF 1(1)]] Cons.prems(4-6) acks obtain c2 b2 where
    "reaches WAIT_VALUE_DEQUEUE c1 b1 (concat (map deliver_frames ms)) rest WAIT_VALUE_DEQUEUE c2 b2"
    "broker_abs b2 (M(nm \<mapsto> (ms', [tid cs], tid cs)))" "names b2 (current_queue c2) nm" "rodata b2 = rodata b1"
    by (auto simp: t simp del: fun_upd_apply)
  with reaches_trans [OF 1(1)] 1(4) show ?case by fastforce
qed

lemma reaches_output: "reaches m cs b out rest m' cs' b' \<Longrightarrow> tx cs' = tx cs @ out \<and> tid cs' = tid cs"
  by (simp add: reaches_def becomes_def)

lemma reaches_run: "reaches m cs b out rest m' cs' b' \<Longrightarrow> run_machine m cs b = run_machine m' cs' b'"
  by (simp add: reaches_def steps_run)

lemma consume_reaches:
  assumes abs: "broker_abs b M" and nm: "length nm < 256"
    and rx: "rx_bytes (rx cs) = method_frame ch BASIC BASIC_CONSUME (name_args t nm tail) @ rest"
    and len: "length (name_args t nm tail) \<le> MAXLINE - 7"
    and M: "M (until_nul nm) = Some (ms, xs, c)" "tid cs \<notin> set xs" "0 \<le> tid cs" "tid cs < int MAX_CONNECTIONS"
    and ro: "3 \<le> length (rodata b)"
  shows "\<exists>cs' b'. reaches WAIT_FUNCTIONAL cs b [consume_ok_frame (rodata b)] rest WAIT_VALUE_DEQUEUE cs' b' \<and>
    names b' (current_queue cs') (until_nul nm) \<and>
    broker_abs b' (M(until_nul nm \<mapsto> (ms, xs @ [tid cs], if xs = [] then tid cs else c))) \<and> rodata b' = rodata b"
proof -
  from consume_method_step [OF abs nm rx len] obtain c2 b2 where
    a2: "actions WAIT_FUNCTIONAL cs b = Inr (BASIC_CONSUME_RECEIVED, c2, b2)" "becomes cs [] rest c2"
    and f: "finds b2 M (current_queue c2) (until_nul nm)" and b2: "broker_abs b2 M" "rodata b2 = rodata b" by blast
  have n2: "names b2 (current_queue c2) (until_nul nm)" using finds_names [OF f] M(1) by simp
  have 2: "reaches WAIT_FUNCTIONAL cs b [] rest BASIC_CONSUME_RECEIVED c2 b2"
    using a2 by (intro reaches_step) auto
  have t: "tid c2 = tid cs" using reaches_output [OF 2] by simp
  from subscribe_step [OF b2(1) n2 M(1), unfolded t b2(2)] M(2-4) ro reaches_rest [OF 2] obtain c3 b3 where
    a3: "actions BASIC_CONSUME_RECEIVED c2 b2 = Inr (WAIT_VALUE_DEQUEUE, c3, b3)"
      "becomes c2 [consume_ok_frame (rodata b)] rest c3"
    and b3: "names b3 (current_queue c3) (until_nul nm)" "rodata b3 = rodata b"
      "broker_abs b3 (M(until_nul nm \<mapsto> (ms, xs @ [tid cs], if xs = [] then tid cs else c)))"
    by (auto simp del: fun_upd_apply)
  have "reaches BASIC_CONSUME_RECEIVED c2 b2 [consume_ok_frame (rodata b)] rest WAIT_VALUE_DEQUEUE c3 b3"
    using a3 by (intro reaches_step) auto
  with reaches_trans [OF 2] b3 show ?thesis by fastforce
qed

section \<open>Sample inputs\<close>

text \<open>Input that arrives one byte at a time, for the examples.\<close>

definition one_by_one :: "byte list \<Rightarrow> rx_event list" where
  "one_by_one bs = map (\<lambda>x. Chunk x []) bs"

lemma rx_bytes_one_by_one [simp]: "rx_bytes (one_by_one bs) = bs"
  by (induction bs) (auto simp: one_by_one_def)

lemma init_connection_simps [simp]:
  "rx (init_connection fd t input) = input" "tx (init_connection fd t input) = []" "tid (init_connection fd t input) = t"
  by (simp_all add: init_connection_def)

text \<open>A publication to the queue named \<^verbatim>\<open>q\<close>, for the examples.\<close>

definition sample_publication :: "byte list \<Rightarrow> publication" where
  "sample_publication bs =
     \<lparr>pub_channel = 1, pub_ticket = 0, pub_exchange = [], pub_queue = [0x71], pub_tail = [0],
      pub_header = replicate 14 0, pub_body = bs\<rparr>"

lemma sample_publication_fits: "length bs + 8 \<le> MAXLINE \<Longrightarrow> publication_fits (sample_publication bs)"
  by (simp add: publication_fits_def sample_publication_def pub_args_def publish_args_def MAXLINE_def)

lemma sample_publication_simps [simp]:
  "pub_queue (sample_publication bs) = [0x71]" "pub_body (sample_publication bs) = bs"
  by (simp_all add: sample_publication_def)

lemma until_nul_q [simp]: "until_nul [0x71] = [0x71]"
  by (simp add: until_nul_def)

text \<open>A connection that has declared the queue \<^verbatim>\<open>q\<close> and waits for its first message.\<close>

definition waiting_input :: "byte list" where
  "waiting_input = opening_frames [[], [], [], []] @ method_frame 1 QUEUE QUEUE_DECLARE (name_args 0 [0x71] []) @
     method_frame 1 BASIC BASIC_CONSUME (name_args 0 [0x71] [])"

lemma sample_run:
  assumes "0 \<le> t" "t < int MAX_CONNECTIONS"
  shows "\<exists>cs b. machine_step\<^sup>*\<^sup>* (WAIT, init_connection fd t (one_by_one waiting_input), init_broker raw [0, 0, 0])
      (WAIT_VALUE_DEQUEUE, cs, b) \<and> broker_abs b [[0x71] \<mapsto> ([], [t], t)] \<and> names b (current_queue cs) [0x71]"
proof -
  let ?nm = "[0x71] :: byte list" and ?b = "init_broker raw [0, 0, 0]" and ?M = "(\<lambda>_. None) :: spec"
  let ?cs = "init_connection fd t (one_by_one waiting_input)"
  have abs: "broker_abs ?b ?M" by (rule init_broker_abs)
  have M: "spec_declare ?nm ?M = [?nm \<mapsto> ([], [], - 1)]" by (simp add: spec_declare_def)
  have len: "length (name_args 0 ?nm []) \<le> MAXLINE - 7" "length ?nm < 256" by (simp_all add: name_args_def MAXLINE_def)
  have args: "\<forall>i < 4. length ([[], [], [], []] ! i :: byte list) \<le> MAXLINE - 7"
    by (auto simp: less_Suc_eq numeral_eq_Suc)
  let ?r2 = "method_frame 1 BASIC BASIC_CONSUME (name_args 0 ?nm [])"
  let ?r1 = "method_frame 1 QUEUE QUEUE_DECLARE (name_args 0 ?nm []) @ ?r2"
  have "rx_bytes (rx ?cs) = opening_frames [[], [], [], []] @ ?r1" by (simp add: waiting_input_def)
  from opening_reaches [OF this args, of ?b] obtain c1 where
    1: "reaches WAIT ?cs ?b opening_output ?r1 WAIT_FUNCTIONAL c1 ?b" by blast
  from declare_reaches [OF abs len(2) reaches_rest [OF 1] len(1), of "[]" "([], - 1)"] M obtain c2 b2 where
    2: "reaches WAIT_FUNCTIONAL c1 ?b [declare_ok_frame ?nm 0] ?r2 WAIT_FUNCTIONAL c2 b2"
    and b2: "broker_abs b2 [?nm \<mapsto> ([], [], - 1)]" "rodata b2 = [0, 0, 0]"
    by (auto simp: init_broker_def simp del: fun_upd_apply) (auto simp: fun_upd_def)
  have t2: "tid c2 = t" using reaches_output [OF 1] reaches_output [OF 2] by simp
  have rx2: "rx_bytes (rx c2) = ?r2 @ []" using reaches_rest [OF 2] by simp
  from consume_reaches [OF b2(1) len(2) rx2 len(1), of "[]" "[]" "- 1"] b2(2) t2 assms obtain c3 b3 where
    3: "reaches WAIT_FUNCTIONAL c2 b2 [consume_ok_frame [0, 0, 0]] [] WAIT_VALUE_DEQUEUE c3 b3"
    and b3: "names b3 (current_queue c3) ?nm" "broker_abs b3 [?nm \<mapsto> ([], [t], t)]"
    by auto
  have "machine_step\<^sup>*\<^sup>* (WAIT, ?cs, ?b) (WAIT_VALUE_DEQUEUE, c3, b3)"
    using reaches_trans [OF 1 reaches_trans [OF 2 3]] by (simp add: reaches_def)
  with b3 show ?thesis by blast
qed

end
