(* ===== verification/Protocol.thy ===== *)
theory Protocol
  imports Session
begin

text \<open>
  What the machine keeps to on every input: the state diagram of the README, the framing of
  everything it sends, how long a connection runs; and where the code departs from the
  protocol.
\<close>

section \<open>The state diagram\<close>

text \<open>Where a state of the code leads, \<open>FAIL\<close> aside.\<close>

fun diagram :: "machine_state \<Rightarrow> machine_state set" where
  "diagram WAIT = {HEADER_RECEIVED}"
| "diagram HEADER_RECEIVED = {WAIT_START_OK}"
| "diagram WAIT_START_OK = {START_OK_RECEIVED}"
| "diagram START_OK_RECEIVED = {WAIT_TUNE_OK}"
| "diagram WAIT_TUNE_OK = {WAIT_OPEN_CONNECTION}"
| "diagram WAIT_OPEN_CONNECTION = {OPEN_CONNECTION_RECEIVED}"
| "diagram OPEN_CONNECTION_RECEIVED = {WAIT_OPEN_CHANNEL}"
| "diagram CLOSE_CONNECTION_RECEIVED = {FINISHED}"
| "diagram WAIT_OPEN_CHANNEL = {OPEN_CHANNEL_RECEIVED, CLOSE_CONNECTION_RECEIVED}"
| "diagram OPEN_CHANNEL_RECEIVED = {WAIT_FUNCTIONAL}"
| "diagram CLOSE_CHANNEL_RECEIVED = {WAIT_OPEN_CHANNEL}"
| "diagram WAIT_FUNCTIONAL = {QUEUE_DECLARE_RECEIVED, BASIC_PUBLISH_RECEIVED, BASIC_CONSUME_RECEIVED,
     CLOSE_CHANNEL_RECEIVED, CLOSE_CONNECTION_RECEIVED}"
| "diagram QUEUE_DECLARE_RECEIVED = {WAIT_FUNCTIONAL}"
| "diagram BASIC_PUBLISH_RECEIVED = {WAIT_PUBLISH_CONTENT_HEADER}"
| "diagram WAIT_PUBLISH_CONTENT_HEADER = {WAIT_PUBLISH_CONTENT}"
| "diagram WAIT_PUBLISH_CONTENT = {WAIT_PUBLISH_CONTENT, BASIC_PUBLISH_RECEIVED,
     CLOSE_CHANNEL_RECEIVED, CLOSE_CONNECTION_RECEIVED}"
| "diagram BASIC_CONSUME_RECEIVED = {WAIT_VALUE_DEQUEUE}"
| "diagram WAIT_VALUE_DEQUEUE = {VALUE_DEQUEUE_RECEIVED}"
| "diagram VALUE_DEQUEUE_RECEIVED = {WAIT_CONSUME_ACK}"
| "diagram WAIT_CONSUME_ACK = {WAIT_VALUE_DEQUEUE}"
| "diagram FINISHED = {}"
| "diagram FAIL = {}"

text \<open>
  The arrows of the diagrams in \<^verbatim>\<open>src/README.md\<close>, as they are drawn. The state after open-ok is
  drawn as a second OPEN CONNECTION RECEIVED; WAIT OPEN CHANNEL occurs only where a closed channel leads to.
  Arrows into the two closing states are drawn without their source: any of the states that wait
  for a method may be meant.
\<close>

fun readme_diagram :: "machine_state \<Rightarrow> machine_state set" where
  "readme_diagram WAIT = {HEADER_RECEIVED}"
| "readme_diagram HEADER_RECEIVED = {WAIT_START_OK}"
| "readme_diagram WAIT_START_OK = {START_OK_RECEIVED}"
| "readme_diagram START_OK_RECEIVED = {WAIT_TUNE_OK}"
| "readme_diagram WAIT_TUNE_OK = {WAIT_OPEN_CONNECTION}"
| "readme_diagram WAIT_OPEN_CONNECTION = {OPEN_CONNECTION_RECEIVED}"
| "readme_diagram OPEN_CONNECTION_RECEIVED = {OPEN_CONNECTION_RECEIVED, OPEN_CHANNEL_RECEIVED}"
| "readme_diagram CLOSE_CONNECTION_RECEIVED = {FINISHED}"
| "readme_diagram WAIT_OPEN_CHANNEL = {}"
| "readme_diagram OPEN_CHANNEL_RECEIVED = {WAIT_FUNCTIONAL}"
| "readme_diagram CLOSE_CHANNEL_RECEIVED = {WAIT_OPEN_CHANNEL}"
| "readme_diagram WAIT_FUNCTIONAL = {QUEUE_DECLARE_RECEIVED, BASIC_PUBLISH_RECEIVED, BASIC_CONSUME_RECEIVED}"
| "readme_diagram QUEUE_DECLARE_RECEIVED = {WAIT_FUNCTIONAL}"
| "readme_diagram BASIC_PUBLISH_RECEIVED = {WAIT_PUBLISH_CONTENT_HEADER}"
| "readme_diagram WAIT_PUBLISH_CONTENT_HEADER = {WAIT_PUBLISH_CONTENT}"
| "readme_diagram WAIT_PUBLISH_CONTENT = {WAIT_PUBLISH_CONTENT, BASIC_PUBLISH_RECEIVED}"
| "readme_diagram BASIC_CONSUME_RECEIVED = {WAIT_VALUE_DEQUEUE}"
| "readme_diagram WAIT_VALUE_DEQUEUE = {VALUE_DEQUEUE_RECEIVED}"
| "readme_diagram VALUE_DEQUEUE_RECEIVED = {WAIT_CONSUME_ACK}"
| "readme_diagram WAIT_CONSUME_ACK = {WAIT_VALUE_DEQUEUE}"
| "readme_diagram FINISHED = {}"
| "readme_diagram FAIL = {}"

text \<open>The states in which the code takes a close channel or close connection.\<close>

fun closings :: "machine_state \<Rightarrow> machine_state set" where
  "closings WAIT_OPEN_CHANNEL = {CLOSE_CONNECTION_RECEIVED}"
| "closings WAIT_FUNCTIONAL = {CLOSE_CHANNEL_RECEIVED, CLOSE_CONNECTION_RECEIVED}"
| "closings WAIT_PUBLISH_CONTENT = {CLOSE_CHANNEL_RECEIVED, CLOSE_CONNECTION_RECEIVED}"
| "closings _ = {}"

lemma diagram_readme:
  "diagram m = (if m = OPEN_CONNECTION_RECEIVED then {WAIT_OPEN_CHANNEL}
     else if m = WAIT_OPEN_CHANNEL then insert OPEN_CHANNEL_RECEIVED (closings m)
     else readme_diagram m \<union> closings m)"
  by (cases m) auto

lemma fail_with_state: "fail_with e cs b = Inr (m', cs', b') \<Longrightarrow> m' = FAIL"
  by (auto simp: fail_with_def bindE_eq_Inr)

lemma functional_switch_state:
  "functional_switch m cs b = Inr (m', cs', b') \<Longrightarrow> m' \<in> insert FAIL (diagram WAIT_FUNCTIONAL)"
  by (auto simp: functional_switch_def queue_case_def connection_case_def channel_case_def basic_publish_case_def
      basic_consume_case_def bindE_eq_Inr Let_def split_beta split: if_splits)

lemma publish_switch_state:
  "publish_switch m cs b = Inr (m', cs', b') \<Longrightarrow> m' \<in> insert FAIL (diagram WAIT_PUBLISH_CONTENT)"
  by (auto simp: publish_switch_def basic_publish_case_def bindE_eq_Inr Let_def split_beta split: if_splits)

lemma unsubscribe_state:
  "bindE (unsubscribe cs b) (\<lambda>(_, cs, b). fail_with e cs b) = Inr (m', cs', b') \<Longrightarrow> m' = FAIL"
  by (auto simp: bindE_eq_Inr dest: fail_with_state)

lemma header_elim:
  assumes "bindE (read_message_header cs)
      (\<lambda>(header, cs). case header of None \<Rightarrow> f cs | Some h \<Rightarrow> g h cs) = Inr r"
    and "\<And>c. read_frame cs c \<Longrightarrow> f c = Inr r \<Longrightarrow> P" "\<And>h c. read_frame cs c \<Longrightarrow> g h c = Inr r \<Longrightarrow> P"
  shows P
proof -
  from assms(1) obtain h c where h: "read_message_header cs = Inr (h, c)"
    and k: "(case h of None \<Rightarrow> f c | Some h \<Rightarrow> g h c) = Inr r" by (auto simp: bindE_eq_Inr)
  from read_message_header_frame_only [OF h] k assms(2,3) show P by (cases h) auto
qed

lemma method_elim:
  assumes "bindE (read_method cs n)
      (\<lambda>(meth, cs). case meth of None \<Rightarrow> f cs | Some h \<Rightarrow> g h cs) = Inr r"
    and "\<And>c. read_frame cs c \<Longrightarrow> f c = Inr r \<Longrightarrow> P" "\<And>h c. read_frame cs c \<Longrightarrow> g h c = Inr r \<Longrightarrow> P"
  shows P
proof -
  from assms(1) obtain h c where h: "read_method cs n = Inr (h, c)"
    and k: "(case h of None \<Rightarrow> f c | Some h \<Rightarrow> g h c) = Inr r" by (auto simp: bindE_eq_Inr)
  from read_method_frame_only [OF h] k assms(2,3) show P by (cases h) auto
qed

lemma checked_elim:
  assumes "bindE F (\<lambda>(m, cs, b). if m = FAIL then fail_with e cs b else Inr (m, cs, b)) = Inr (m', cs', b')"
    and "m' = FAIL \<Longrightarrow> P" "F = Inr (m', cs', b') \<Longrightarrow> P"
  shows P
  using assms by (auto simp: bindE_eq_Inr fail_with_def set_error_def split: if_splits)

lemma reading_states_lead:
  "action_wait_start_ok cs b = Inr (m', cs', b') \<Longrightarrow> m' \<in> insert FAIL (diagram WAIT_START_OK)"
  "action_wait_tune_ok cs b = Inr (m', cs', b') \<Longrightarrow> m' \<in> insert FAIL (diagram WAIT_TUNE_OK)"
  "action_wait_open_connection cs b = Inr (m', cs', b') \<Longrightarrow> m' \<in> insert FAIL (diagram WAIT_OPEN_CONNECTION)"
  "action_wait_open_channel cs b = Inr (m', cs', b') \<Longrightarrow> m' \<in> insert FAIL (diagram WAIT_OPEN_CHANNEL)"
  unfolding action_wait_start_ok_def action_wait_tune_ok_def action_wait_open_connection_def
    action_wait_open_channel_def Let_def
  by (erule header_elim; auto elim!: method_elim split: if_splits)+

lemma publish_content_header_leads:
  "action_wait_publish_content_header cs b = Inr (m', cs', b') \<Longrightarrow> m' \<in> insert FAIL (diagram WAIT_PUBLISH_CONTENT_HEADER)"
  unfolding action_wait_publish_content_header_def by (erule header_elim; auto simp: bindE_eq_Inr)

lemma wait_functional_leads:
  "action_wait_functional cs b = Inr (m', cs', b') \<Longrightarrow> m' \<in> insert FAIL (diagram WAIT_FUNCTIONAL)"
  unfolding action_wait_functional_def
  by (elim header_elim method_elim checked_elim) (auto dest!: functional_switch_state)

lemma publish_body_state: "publish_body_case h cs b = Inr (m', cs', b') \<Longrightarrow> m' = WAIT_PUBLISH_CONTENT"
  by (auto simp: publish_body_case_def bindE_eq_Inr)

lemma publish_content_leads:
  "action_wait_publish_content cs b = Inr (m', cs', b') \<Longrightarrow> m' \<in> insert FAIL (diagram WAIT_PUBLISH_CONTENT)"
  unfolding action_wait_publish_content_def publish_method_case_def
  by (erule header_elim)
    (auto elim!: method_elim checked_elim dest!: publish_switch_state publish_body_state split: if_splits)

lemma consume_ack_leads:
  "action_wait_consume_ack cs b = Inr (m', cs', b') \<Longrightarrow> m' \<in> insert FAIL (diagram WAIT_CONSUME_ACK)"
  unfolding action_wait_consume_ack_def
  by (erule header_elim)
    (auto elim!: method_elim dest: unsubscribe_state simp del: fail_with_literals split: if_splits)

lemma wait_leads: "action_wait cs b = Inr (m', cs', b') \<Longrightarrow> m' \<in> insert FAIL (diagram WAIT)"
  by (auto simp: action_wait_def bindE_eq_Inr split: if_splits)

lemma action_state: "actions m cs b = Inr (m', cs', b') \<Longrightarrow> m' \<in> insert FAIL (diagram m)"
proof (cases "m \<in> set reading_states")
  case True
  then show "actions m cs b = Inr (m', cs', b') \<Longrightarrow> ?thesis"
    using reading_states_lead publish_content_header_leads wait_functional_leads publish_content_leads consume_ack_leads
    unfolding reading_states_def by fastforce
next
  case False
  then show "actions m cs b = Inr (m', cs', b') \<Longrightarrow> ?thesis"
    using wait_leads
    by (cases m) (auto simp: reading_states_def sending_actions action_noop_def bindE_eq_Inr Let_def)
qed

section \<open>Everything sent is a frame\<close>

text \<open>What a connection sent after \<open>cs\<close>: frames, one per \<^verbatim>\<open>write\<close>.\<close>

definition sends_frames :: "connection_state \<Rightarrow> connection_state \<Rightarrow> bool" where
  "sends_frames cs cs' \<longleftrightarrow> (\<exists>out. tx cs' = tx cs @ out \<and> (\<forall>f \<in> set out. \<exists>t ch payload. f = frame t ch payload))"

lemma sends_frames_same: "tx cs' = tx cs \<Longrightarrow> sends_frames cs cs'"
  by (simp add: sends_frames_def)

lemma sends_frames_one: "tx cs' = tx cs @ [frame t ch payload] \<Longrightarrow> sends_frames cs cs'"
  by (auto simp: sends_frames_def)

lemma sends_frames_trans: "sends_frames a b \<Longrightarrow> sends_frames b c \<Longrightarrow> sends_frames a c"
  by (fastforce simp: sends_frames_def)

lemma send_method_sends:
  assumes "send_method cs c m ch args n = Inr cs'"
  shows "sends_frames cs cs'"
proof -
  have "n \<le> length args" "n + 12 \<le> MAXLINE"
    using assms by (auto simp: send_method_def Let_def bindE_eq_Inr)
  from send_method_frame [OF this, of cs c m ch] assms show ?thesis by (auto intro: sends_frames_one)
qed

lemma send_queue_declare_ok_sends: "send_queue_declare_ok cs ch nb mc cc = Inr cs' \<Longrightarrow> sends_frames cs cs'"
  by (auto simp: send_queue_declare_ok_def Let_def bindE_eq_Inr dest: send_method_sends)

lemma send_content_header_sends:
  assumes "send_content_header cs c ch w bsz fl props = Inr cs'"
  shows "sends_frames cs cs'"
proof -
  have "nat (bit_cardinality_16 fl) \<le> length props"
    using assms by (auto simp: send_content_header_def Let_def bindE_eq_Inr)
  from send_content_header_frame [OF this, of cs c ch w bsz] assms show ?thesis by (auto intro: sends_frames_one)
qed

lemma send_body_sends:
  assumes "send_body cs ch payload n = Inr cs'"
  shows "sends_frames cs cs'"
proof -
  have "n \<le> length payload" "n + 8 \<le> MAXLINE"
    using assms by (auto simp: send_body_def Let_def bindE_eq_Inr)
  from send_body_frame [OF this, of cs ch] assms show ?thesis by (auto intro: sends_frames_one)
qed

lemma read_frame_tx: "read_frame cs cs' \<Longrightarrow> tx cs' = tx cs"
  by (simp add: read_frame_def)

lemma switch_tx:
  "functional_switch m cs b = Inr (m', cs', b') \<Longrightarrow> tx cs' = tx cs"
  "publish_switch m cs b = Inr (m', cs', b') \<Longrightarrow> tx cs' = tx cs"
  by (auto simp: functional_switch_def publish_switch_def queue_case_def basic_publish_case_def
      basic_consume_case_def bindE_eq_Inr Let_def split_beta split: if_splits)

lemma checked_tx:
  assumes "bindE F (\<lambda>(m, cs, b). if m = FAIL then fail_with e cs b else Inr (m, cs, b)) = Inr (m', cs', b')"
    and "\<And>n c b1. F = Inr (n, c, b1) \<Longrightarrow> tx c = tx cs"
  shows "tx cs' = tx cs"
  using assms by (auto simp: bindE_eq_Inr fail_with_def set_error_def split: if_splits)

lemma unsubscribe_tx:
  "bindE (unsubscribe cs b) (\<lambda>(_, cs, b). fail_with e cs b) = Inr (m', cs', b') \<Longrightarrow> tx cs' = tx cs"
  by (auto simp: unsubscribe_def bindE_eq_Inr fail_with_def set_error_def)

lemma opening_reads_tx:
  "action_wait_start_ok cs b = Inr (m', cs', b') \<Longrightarrow> tx cs' = tx cs"
  "action_wait_tune_ok cs b = Inr (m', cs', b') \<Longrightarrow> tx cs' = tx cs"
  "action_wait_open_connection cs b = Inr (m', cs', b') \<Longrightarrow> tx cs' = tx cs"
  "action_wait_open_channel cs b = Inr (m', cs', b') \<Longrightarrow> tx cs' = tx cs"
  unfolding action_wait_start_ok_def action_wait_tune_ok_def action_wait_open_connection_def
    action_wait_open_channel_def Let_def
  by (erule header_elim; auto elim!: method_elim dest!: read_frame_tx split: if_splits)+

lemma working_reads_tx:
  "action_wait_functional cs b = Inr (m', cs', b') \<Longrightarrow> tx cs' = tx cs"
  "action_wait_publish_content_header cs b = Inr (m', cs', b') \<Longrightarrow> tx cs' = tx cs"
  "action_wait_consume_ack cs b = Inr (m', cs', b') \<Longrightarrow> tx cs' = tx cs"
proof -
  show "action_wait_functional cs b = Inr (m', cs', b') \<Longrightarrow> tx cs' = tx cs"
    unfolding action_wait_functional_def
    by (elim header_elim method_elim; (drule checked_tx, erule switch_tx)?) (auto dest!: read_frame_tx)
  show "action_wait_publish_content_header cs b = Inr (m', cs', b') \<Longrightarrow> tx cs' = tx cs"
    unfolding action_wait_publish_content_header_def
    by (erule header_elim) (auto simp: bindE_eq_Inr dest!: read_content_header_frame_only read_frame_tx)
  show "action_wait_consume_ack cs b = Inr (m', cs', b') \<Longrightarrow> tx cs' = tx cs"
    unfolding action_wait_consume_ack_def
    by (erule header_elim)
      (auto elim!: method_elim dest!: unsubscribe_tx read_frame_tx simp del: fail_with_literals split: if_splits)
qed

lemma publish_body_tx: "publish_body_case h cs b = Inr (m', cs', b') \<Longrightarrow> tx cs' = tx cs"
  by (auto simp: publish_body_case_def bindE_eq_Inr dest!: read_body_frame_only read_frame_tx)

lemma publish_method_tx: "publish_method_case h cs b = Inr (m', cs', b') \<Longrightarrow> tx cs' = tx cs"
  unfolding publish_method_case_def
  by (elim method_elim; (drule checked_tx, erule switch_tx)?) (auto dest!: read_frame_tx)

lemma publish_content_tx: "action_wait_publish_content cs b = Inr (m', cs', b') \<Longrightarrow> tx cs' = tx cs"
  unfolding action_wait_publish_content_def
  by (erule header_elim) (auto dest!: publish_body_tx publish_method_tx read_frame_tx split: if_splits)

lemma wait_tx: "action_wait cs b = Inr (m', cs', b') \<Longrightarrow> tx cs' = tx cs"
  by (auto simp: action_wait_def bindE_eq_Inr dest!: read_protocol_header_frame_only read_frame_tx split: if_splits)

lemmas reads_tx = opening_reads_tx working_reads_tx publish_content_tx wait_tx

lemmas sends_sends = send_method_sends send_queue_declare_ok_sends send_content_header_sends send_body_sends

lemma action_sends: "actions m cs b = Inr (m', cs', b') \<Longrightarrow> sends_frames cs cs'"
proof (cases "m \<in> set reading_states \<or> m = WAIT")
  case True
  then show "actions m cs b = Inr (m', cs', b') \<Longrightarrow> ?thesis"
    using reads_tx unfolding reading_states_def by (fastforce intro: sends_frames_same)
next
  case False
  then show "actions m cs b = Inr (m', cs', b') \<Longrightarrow> ?thesis"
    by (cases m) (auto simp: reading_states_def sending_actions action_noop_def bindE_eq_Inr Let_def
        dest!: sends_sends intro: sends_frames_same sends_frames_trans)
qed

lemma steps_send: "machine_step\<^sup>*\<^sup>* (m, cs, b) s \<Longrightarrow> sends_frames cs (fst (snd s))"
proof (induction rule: rtranclp_induct)
  case base
  then show ?case by (simp add: sends_frames_same)
next
  case (step s t)
  obtain m1 c1 b1 m2 c2 b2 where st: "s = (m1, c1, b1)" "t = (m2, c2, b2)" by (cases s, cases t)
  with step have "actions m1 c1 b1 = Inr (m2, c2, b2)" by (simp add: machine_step_simp)
  with st step.IH show ?case by (auto dest: action_sends intro: sends_frames_trans)
qed

lemma finishing:
  assumes "machine_step\<^sup>*\<^sup>* (m, cs, b) (FINISHED, cs', b')" "m \<noteq> FINISHED"
  shows "\<exists>out. tx cs' = out @ [connection_close_ok_frame]"
proof -
  from assms obtain s where s: "machine_step s (FINISHED, cs', b')" by (auto elim: rtranclp.cases)
  obtain m1 c1 b1 where st: "s = (m1, c1, b1)" by (cases s)
  with s have a: "actions m1 c1 b1 = Inr (FINISHED, cs', b')" by (simp add: machine_step_simp)
  from action_state [OF a] have "m1 = CLOSE_CONNECTION_RECEIVED" by (cases m1) auto
  with opening_replies(5) [of c1 b1] a show ?thesis by (auto simp: becomes_def)
qed

section \<open>How long a connection runs\<close>

definition budget :: "machine_state \<Rightarrow> connection_state \<Rightarrow> nat" where
  "budget m cs = 5 * rx_size (rx cs) + rank m"

lemma rank_le: "rank m \<le> 4"
  by (cases m) auto

lemma step_budget: "machine_step (m, cs, b) (m', cs', b') \<Longrightarrow> budget m' cs' < budget m cs"
  using action_advances [of m cs b m' cs' b'] rank_le [of m']
  by (auto simp: machine_step_simp advances_def budget_def)

text \<open>An action of a connection, taken on whatever the other connections have made of the
  queues by then.\<close>

definition local_step :: "machine_state \<times> connection_state \<Rightarrow> machine_state \<times> connection_state \<Rightarrow> bool" where
  "local_step s t \<longleftrightarrow> (\<exists>b b'. machine_step (fst s, snd s, b) (fst t, snd t, b'))"

lemma steps_budget: "(local_step ^^ n) (m, cs) (m', cs') \<Longrightarrow> n + budget m' cs' \<le> budget m cs"
proof (induction n arbitrary: m' cs')
  case (Suc n)
  then obtain s where s: "(local_step ^^ n) (m, cs) s" "local_step s (m', cs')" by auto
  obtain m1 c1 where st: "s = (m1, c1)" by (cases s)
  from s(2) st obtain b b' where "machine_step (m1, c1, b) (m', cs', b')" by (auto simp: local_step_def)
  from Suc.IH [OF s(1) [unfolded st]] step_budget [OF this] show ?case by simp
qed simp

section \<open>Properties\<close>

text \<open>C19. Where the actions lead, compared with the state diagrams of the README: on every input
  and every state of the queues, an action that ends leads to \<open>FAIL\<close>, along an arrow drawn in the
  README, or from one of three waiting states to a closing state, with one exception. The README draws the state between
  open-ok and open-channel as OPEN CONNECTION RECEIVED once more; in the code it is WAIT OPEN
  CHANNEL: the code goes there from OPEN CONNECTION RECEIVED, which it leaves for no other state but \<open>FAIL\<close>, and
  on to OPEN CHANNEL RECEIVED from there.\<close>

theorem actions_follow_diagram:
  assumes "machine_step (m, cs, b) (m', cs', b')"
  shows "m' = FAIL \<or>
    (if m = OPEN_CONNECTION_RECEIVED then m' = WAIT_OPEN_CHANNEL \<and> m' \<notin> readme_diagram m
     else if m = WAIT_OPEN_CHANNEL then m' \<in> {OPEN_CHANNEL_RECEIVED, CLOSE_CONNECTION_RECEIVED}
     else m' \<in> readme_diagram m \<union> closings m)"
  using assms action_state [of m cs b m' cs' b'] unfolding diagram_readme
  by (auto simp: machine_step_simp split: if_splits)

definition sample_connection :: connection_state where
  "sample_connection = init_connection 4 2 []"

definition sample_broker :: broker where
  "sample_broker = init_broker \<lparr>count = 0, first = 0, last_sub = 0, current = 0,
     subs = (\<lambda>_. \<lparr>prev = 0, nxt = 0, thread_id = 0\<rparr>)\<rparr> [0, 0, 0]"

theorem actions_follow_diagram_witness:
  "\<exists>m' cs'. machine_step (CLOSE_CONNECTION_RECEIVED, sample_connection, sample_broker) (m', cs', sample_broker) \<and>
     (m' = FAIL \<or> m' \<in> readme_diagram CLOSE_CONNECTION_RECEIVED)"
proof -
  from opening_replies(5) [of sample_connection sample_broker] obtain cs' where
    "machine_step (CLOSE_CONNECTION_RECEIVED, sample_connection, sample_broker) (FINISHED, cs', sample_broker)"
    by (auto simp: machine_step_simp)
  with actions_follow_diagram [OF this] show ?thesis by auto
qed

text \<open>C20. Termination: whatever arrives and whatever the other connections do to the queues
  in between its actions, no run of a connection has more than five actions per byte or
  failed read of its input, plus one; and the machine itself ends in \<open>FINISHED\<close> or \<open>FAIL\<close>,
  or at an action that blocks or has undefined behaviour.\<close>

theorem connections_end:
  assumes "(local_step ^^ n) (WAIT, init_connection fd t input) (m', cs')"
  shows "n \<le> 5 * rx_size input + 1 \<and>
    ((\<exists>m cs b'. state_machine_main fd t input b = Inr (m, cs, b') \<and> (m = FINISHED \<or> m = FAIL)) \<or>
     (\<exists>e m cs b'. state_machine_main fd t input b = Inl e \<and> actions m cs b' = Inl e \<and>
        machine_step\<^sup>*\<^sup>* (WAIT, init_connection fd t input, b) (m, cs, b')))"
proof -
  have "n \<le> 5 * rx_size input + 1"
    using steps_budget [OF assms] by (simp add: budget_def init_connection_def)
  with run_reaches [of WAIT "init_connection fd t input" b] show ?thesis
    unfolding state_machine_main_def by blast
qed

theorem connections_end_witness:
  "\<exists>cs'. machine_step (WAIT, init_connection 4 2 [Chunk 0x41 []], sample_broker) (FAIL, cs', sample_broker) \<and>
     (1 :: nat) \<le> 5 * rx_size [Chunk 0x41 []] + 1"
proof -
  have "\<exists>cs'. actions WAIT (init_connection 4 2 [Chunk 0x41 []]) sample_broker = Inr (FAIL, cs', sample_broker)"
    using recv_eof [of 8 "init_connection 4 2 [Chunk 0x41 []]"]
    by (simp add: action_wait_def read_protocol_header_def parse_protocol_header_def init_connection_def MAXLINE_def)
  then obtain cs' where s: "machine_step (WAIT, init_connection 4 2 [Chunk 0x41 []], sample_broker) (FAIL, cs', sample_broker)"
    by (auto simp: machine_step_simp)
  then have "(local_step ^^ 1) (WAIT, init_connection 4 2 [Chunk 0x41 []]) (FAIL, cs')"
    by (simp only: relpowp_1) (auto simp: local_step_def)
  from connections_end [OF this] s show ?thesis by blast
qed

text \<open>C21. What a client can rely on: when a connection ends, everything it was sent is a
  sequence of whole frames, and when it ends in \<open>FINISHED\<close> the last of them is close-ok.\<close>

theorem connection_output:
  assumes "state_machine_main fd t input b = Inr (m, cs, b')"
  shows "(m = FINISHED \<or> m = FAIL) \<and> (\<forall>f \<in> set (tx cs). \<exists>ty ch payload. f = frame ty ch payload) \<and>
    (m = FINISHED \<longrightarrow> (\<exists>out. tx cs = out @ [connection_close_ok_frame]))"
proof -
  from run_reaches [of WAIT "init_connection fd t input" b] assms
  have r: "m = FINISHED \<or> m = FAIL" "machine_step\<^sup>*\<^sup>* (WAIT, init_connection fd t input, b) (m, cs, b')"
    by (auto simp: state_machine_main_def)
  have "tx (init_connection fd t input) = []" by (simp add: init_connection_def)
  with steps_send [OF r(2)] have "\<forall>f \<in> set (tx cs). \<exists>ty ch payload. f = frame ty ch payload"
    by (auto simp: sends_frames_def)
  with r finishing show ?thesis by blast
qed

theorem connection_output_witness:
  "\<exists>cs. state_machine_main 4 2 [Chunk 0x41 []] sample_broker = Inr (FAIL, cs, sample_broker) \<and>
     (\<forall>f \<in> set (tx cs). \<exists>ty ch payload. f = frame ty ch payload)"
proof -
  have "\<exists>cs'. actions WAIT (init_connection 4 2 [Chunk 0x41 []]) sample_broker = Inr (FAIL, cs', sample_broker)"
    using recv_eof [of 8 "init_connection 4 2 [Chunk 0x41 []]"]
    by (simp add: action_wait_def read_protocol_header_def parse_protocol_header_def init_connection_def MAXLINE_def)
  then obtain cs where "state_machine_main 4 2 [Chunk 0x41 []] sample_broker = Inr (FAIL, cs, sample_broker)"
    by (auto simp: state_machine_main_def run_step)
  from connection_output [OF this] this show ?thesis by blast
qed

end
