(* ===== verification/Faults.thy ===== *)
theory Faults
  imports Protocol
begin

text \<open>
  What the code does with requests it does not foresee: a queue that was not declared, a
  message that fits one buffer and not the other, a method of another class.
\<close>

lemma session_stops:
  assumes "reaches WAIT (init_connection fd t input) b out rest m cs b'" "actions m cs b' = Inl e"
    and "m \<noteq> FINISHED" "m \<noteq> FAIL"
  shows "state_machine_main fd t input b = Inl e"
  using reaches_run [OF assms(1)] run_stop [OF assms(2-4)] by (simp add: state_machine_main_def)

lemma body_without_queue:
  assumes "rx_bytes (rx cs) = frame BODY ch payload @ rest" "length payload < MAXLINE" "current_queue cs = None"
  shows "actions WAIT_PUBLISH_CONTENT cs b = Inl (UB Null_deref)"
proof -
  from read_message_header_frame [OF assms(1)] obtain l1 r1 where
    h: "read_message_header cs = Inr (Some \<lparr>msg_type = BODY, channel = ch, msg_length = of_nat (length payload)\<rparr>,
      cs\<lparr>recvline := l1, rx := r1\<rparr>)" "rx_bytes r1 = payload @ [0xce] @ rest" by blast
  let ?h = "\<lparr>msg_type = BODY, channel = ch, msg_length = of_nat (length payload)\<rparr>"
  let ?cs = "cs\<lparr>recvline := l1, rx := r1\<rparr>"
  have "rx_bytes (rx ?cs) = payload @ [0xce] @ rest" using h(2) by simp
  from read_body_frame [OF this assms(2)] obtain l p r where
    "read_body ?cs (int (length payload)) = Inr (?cs\<lparr>recvline := l, parsed := p, rx := r\<rparr>)" by blast
  moreover have "length_arg ?h = int (length payload)" using assms(2) by (intro length_arg_of_nat) simp
  ultimately show ?thesis
    using h(1) assms(3) by (simp add: action_wait_publish_content_def publish_body_case_def queue_at_def c_simps)
qed

lemma low_bits_iff:
  assumes "n \<le> MAXLINE"
  shows "and (word_of_nat n :: 64 word) 0xffff0000 = 0 \<longleftrightarrow> n < 65536"
proof -
  have "i < 32 \<Longrightarrow> bit (word_of_nat n :: 64 word) i \<longleftrightarrow> odd (n div 2 ^ i)" for i
    by (simp add: bit_of_nat_iff bit_nat_def possible_bit_word)
  note w = this
  have "and (word_of_nat n :: 64 word) 0xffff0000 = 0 \<longleftrightarrow> (\<forall>i. \<not> bit (and (word_of_nat n :: 64 word) 0xffff0000) i)"
    by (auto intro: bit_word_eqI)
  also have "\<dots> \<longleftrightarrow> (\<forall>i. 16 \<le> i \<and> i < 32 \<longrightarrow> \<not> odd (n div 2 ^ i))"
    using w by (simp only: bit_and_iff bit_0xffff0000) blast
  also have "\<dots> \<longleftrightarrow> n < 65536"
  proof
    assume *: "\<forall>i. 16 \<le> i \<and> i < 32 \<longrightarrow> \<not> odd (n div 2 ^ i)"
    show "n < 65536"
    proof (rule ccontr)
      assume "\<not> n < 65536"
      then consider "n div 65536 = 1" | "n div 131072 = 1"
        using assms by (cases "n < 131072") (auto simp: MAXLINE_def div_nat_eqI)
      then show False using *[rule_format, of 16] *[rule_format, of 17] by cases auto
    qed
  next
    assume n: "n < 65536"
    show "\<forall>i. 16 \<le> i \<and> i < 32 \<longrightarrow> \<not> odd (n div 2 ^ i)"
    proof (intro allI impI)
      fix i :: nat assume "16 \<le> i \<and> i < 32"
      then have "(2 :: nat) ^ 16 \<le> 2 ^ i" by (intro power_increasing) auto
      with n have "n div 2 ^ i = 0" by simp
      then show "\<not> odd (n div 2 ^ i)" by simp
    qed
  qed
  finally show ?thesis .
qed

section \<open>Properties\<close>

lemma publish_to_undeclared:
  assumes "broker_abs b M" "M (until_nul (pub_queue pb)) = None"
    and "rx_bytes input = opening_frames args @ publication_frames pb @ rest"
    and "\<forall>i < 4. length (args ! i) \<le> MAXLINE - 7" "publication_fits pb"
  shows "state_machine_main fd t input b = Inl (UB Null_deref)"
proof -
  let ?cs = "init_connection fd t input"
  have "rx_bytes (rx ?cs) = rx_bytes input" by simp
  from opening_reaches [OF this [unfolded assms(3)] assms(4), of b] obtain c1 where
    1: "reaches WAIT ?cs b opening_output (publication_frames pb @ rest) WAIT_FUNCTIONAL c1 b" by blast
  from publication_opens [OF disjI1 [OF refl] assms(1,5) reaches_rest [OF 1]] obtain c2 b2 where
    2: "reaches WAIT_FUNCTIONAL c1 b [] (frame BODY (pub_channel pb) (pub_body pb) @ rest) WAIT_PUBLISH_CONTENT c2 b2"
    and "finds b2 M (current_queue c2) (until_nul (pub_queue pb))" by blast
  with assms(2) have "current_queue c2 = None" by (simp add: finds_def)
  with body_without_queue [OF reaches_rest [OF 2]] assms(5)
  have "actions WAIT_PUBLISH_CONTENT c2 b2 = Inl (UB Null_deref)" unfolding publication_fits_def by blast
  from session_stops [OF reaches_trans [OF 1 2] this] show ?thesis by simp
qed

lemma consume_from_undeclared:
  assumes "broker_abs b M" "M (until_nul nm) = None"
    and "rx_bytes input = opening_frames args @ method_frame ch BASIC BASIC_CONSUME (name_args t nm tail) @ rest"
    and "\<forall>i < 4. length (args ! i) \<le> MAXLINE - 7" "length nm < 256" "length (name_args t nm tail) \<le> MAXLINE - 7"
  shows "state_machine_main fd thread input b = Inl (UB Null_deref)"
proof -
  let ?cs = "init_connection fd thread input"
  have "rx_bytes (rx ?cs) = rx_bytes input" by simp
  from opening_reaches [OF this [unfolded assms(3)] assms(4), of b] obtain c1 where
    1: "reaches WAIT ?cs b opening_output (method_frame ch BASIC BASIC_CONSUME (name_args t nm tail) @ rest)
      WAIT_FUNCTIONAL c1 b" by blast
  from consume_method_step [OF assms(1,5) reaches_rest [OF 1] assms(6)] obtain c2 b2 where
    a: "actions WAIT_FUNCTIONAL c1 b = Inr (BASIC_CONSUME_RECEIVED, c2, b2)" "becomes c1 [] rest c2"
    and f: "finds b2 M (current_queue c2) (until_nul nm)" by blast
  have 2: "reaches WAIT_FUNCTIONAL c1 b [] rest BASIC_CONSUME_RECEIVED c2 b2"
    using a by (intro reaches_step) auto
  have "actions BASIC_CONSUME_RECEIVED c2 b2 = Inl (UB Null_deref)"
    using f assms(2) by (simp add: finds_def action_basic_consume_received_def queue_at_def)
  from session_stops [OF reaches_trans [OF 1 2] this] show ?thesis by simp
qed

text \<open>C36. Publishing to a queue that was not declared brings the broker down: the look-up
  gives a null pointer, nothing checks it, and it is followed when the body arrives.
  So does consuming from one, at once.\<close>

theorem undeclared_queues_crash:
  assumes "broker_abs b M" "M (until_nul nm) = None" "\<forall>i < 4. length (args ! i) \<le> MAXLINE - 7"
    and "rx_bytes input = opening_frames args @ publication_frames pb @ rest \<and> publication_fits pb \<and> nm = pub_queue pb \<or>
      rx_bytes input = opening_frames args @ method_frame ch BASIC BASIC_CONSUME (name_args t nm tail) @ rest \<and>
        length nm < 256 \<and> length (name_args t nm tail) \<le> MAXLINE - 7"
  shows "state_machine_main fd thread input b = Inl (UB Null_deref)"
  using assms publish_to_undeclared [of b M pb input args rest fd thread]
    consume_from_undeclared [of b M nm input args ch t tail rest fd thread] by blast

theorem undeclared_queues_crash_witness:
  "state_machine_main 4 2 (one_by_one (opening_frames [[], [], [], []] @ publication_frames (sample_publication [0x68])))
     (init_broker two_subscribers [0, 0, 0]) = Inl (UB Null_deref) \<and>
   state_machine_main 4 2 (one_by_one (opening_frames [[], [], [], []] @ method_frame 1 BASIC BASIC_CONSUME (name_args 0 [0x71] [])))
     (init_broker two_subscribers [0, 0, 0]) = Inl (UB Null_deref)"
proof -
  have a: "\<forall>i < 4. length ([[], [], [], []] ! i :: byte list) \<le> MAXLINE - 7"
    by (auto simp: less_Suc_eq numeral_eq_Suc)
  from undeclared_queues_crash [OF init_broker_abs _ a, where nm = "pub_queue (sample_publication [0x68])"
      and pb = "sample_publication [0x68]" and rest = "[]"]
    undeclared_queues_crash [OF init_broker_abs _ a, where nm = "[0x71]" and rest = "[]" and ch = 1 and t = 0 and tail = "[]"]
  show ?thesis by (simp add: sample_publication_fits name_args_def MAXLINE_def)
qed

text \<open>C37. A message that a publisher may send and no consumer can be sent: bodies of up to
  \<^verbatim>\<open>MAXLINE - 1\<close> bytes are queued, and one that leaves less than eight bytes of \<^verbatim>\<open>sendline\<close>
  for the frame around it makes the next consumer write past the end of that buffer.\<close>

theorem long_message_crashes_consumer:
  assumes "broker_abs b M" "M (until_nul nm) = Some (m # ms, [], c)" "MAXLINE < length m + 8"
    and "rx_bytes input = opening_frames args @ method_frame ch BASIC BASIC_CONSUME (name_args t nm tail) @ rest"
    and "\<forall>i < 4. length (args ! i) \<le> MAXLINE - 7" "length nm < 256" "length (name_args t nm tail) \<le> MAXLINE - 7"
    and "0 \<le> thread" "thread < int MAX_CONNECTIONS" "3 \<le> length (rodata b)"
  shows "state_machine_main fd thread input b = Inl (UB Out_of_bounds)"
proof -
  let ?cs = "init_connection fd thread input" and ?nm = "until_nul nm"
  have "rx_bytes (rx ?cs) = rx_bytes input" by simp
  from opening_reaches [OF this [unfolded assms(4)] assms(5), of b] obtain c1 where
    1: "reaches WAIT ?cs b opening_output (method_frame ch BASIC BASIC_CONSUME (name_args t nm tail) @ rest)
      WAIT_FUNCTIONAL c1 b" by blast
  have t1: "tid c1 = thread" using reaches_output [OF 1] by simp
  with consume_reaches [OF assms(1,6) reaches_rest [OF 1] assms(7,2)] assms(8-10) obtain c2 b2 where
    2: "reaches WAIT_FUNCTIONAL c1 b [consume_ok_frame (rodata b)] rest WAIT_VALUE_DEQUEUE c2 b2"
    and b2: "names b2 (current_queue c2) ?nm" "broker_abs b2 (M(?nm \<mapsto> (m # ms, [thread], thread)))"
    by (auto simp del: fun_upd_apply)
  have "(M(?nm \<mapsto> (m # ms, [thread], thread))) ?nm = Some (m # ms, [thread], tid c2)"
    using t1 reaches_output [OF 2] by simp
  from dequeue_step [OF b2(2,1) this] t1 reaches_output [OF 2] obtain c3 b3 where
    3: "actions WAIT_VALUE_DEQUEUE c2 b2 = Inr (VALUE_DEQUEUE_RECEIVED, c3, b3)" "becomes c2 [] (rx_bytes (rx c2)) c3"
      "cstring MAXLINE (recvline c3) 0 = Inr m" by (auto simp del: fun_upd_apply actions.simps)
  have r3: "reaches WAIT_VALUE_DEQUEUE c2 b2 [] (rx_bytes (rx c2)) VALUE_DEQUEUE_RECEIVED c3 b3"
    using 3 by (intro reaches_step) auto
  from session_stops [OF reaches_trans [OF 1 reaches_trans [OF 2 r3]] deliver_overflow [OF 3(3) assms(3)]]
  show ?thesis by simp
qed

theorem long_message_crashes_consumer_witness:
  "\<exists>b. broker_abs b [[0x71] \<mapsto> ([replicate 131070 0x41], [], - 1)] \<and>
     state_machine_main 4 2 (one_by_one (opening_frames [[], [], [], []] @ method_frame 1 BASIC BASIC_CONSUME (name_args 0 [0x71] [])))
       b = Inl (UB Out_of_bounds)"
proof -
  let ?nm = "[0x71] :: byte list" and ?m = "replicate 131070 0x41 :: byte list"
  have 0: "broker_abs (init_broker two_subscribers [0, 0, 0]) (\<lambda>_. None)" by (rule init_broker_abs)
  have "spec_declare ?nm (\<lambda>_. None) = [?nm \<mapsto> ([], [], - 1)]" by (simp add: spec_declare_def)
  with abs_declare [OF 0, of ?nm] obtain b1 i where 1: "broker_abs b1 [?nm \<mapsto> ([], [], - 1)]"
    "trie_lookup (pool b1) ?nm = Some i" "rodata b1 = [0, 0, 0]"
    by (auto simp: names_def MAX_QUEUE_NAME_def init_broker_def simp del: fun_upd_apply)
  have v: "valid_msg ?m" by (simp add: valid_msg_def nul_free_def MAXLINE_def)
  have e: "[?nm \<mapsto> ([] :: byte list list, [] :: int list, - 1 :: int)] ?nm = Some ([], [], - 1)" by simp
  from abs_publish [OF 1(1,2) e v] obtain q2 h2 where
    2: "broker_abs (put_queue b1 i q2 h2) [?nm \<mapsto> ([?m], [], - 1)]"
    by (auto simp: INT_MAX_def simp del: fun_upd_apply replicate_Suc)
  have rx: "rx_bytes (one_by_one (opening_frames [[], [], [], []] @ method_frame 1 BASIC BASIC_CONSUME (name_args 0 ?nm []))) =
      opening_frames [[], [], [], []] @ method_frame 1 BASIC BASIC_CONSUME (name_args 0 ?nm []) @ []" by simp
  have args: "\<forall>i < 4. length ([[], [], [], []] ! i :: byte list) \<le> MAXLINE - 7"
    by (auto simp: less_Suc_eq numeral_eq_Suc)
  have M: "[?nm \<mapsto> ([?m], [] :: int list, - 1 :: int)] (until_nul ?nm) = Some (?m # [], [], - 1)" by simp
  have long: "MAXLINE < length ?m + 8" by (simp add: MAXLINE_def)
  from long_message_crashes_consumer [OF 2 M long rx args, of 2 4] 2 1(3) show ?thesis
    by (auto simp: name_args_def MAXLINE_def MAX_CONNECTIONS_def simp del: fun_upd_apply)
qed

text \<open>C38. Methods of the wrong class: the cases of the switch have no \<^verbatim>\<open>break\<close>, so a method with
  the number of queue declare does the same for the classes of connections and channels as
  for queues, and a method with the number of connection close closes a connection when
  it is sent as a channel method.\<close>

theorem misrouted_methods:
  assumes "c = CHANNEL \<or> c = CONNECTION"
  shows "functional_switch \<lparr>class_id = c, method_id = QUEUE_DECLARE\<rparr> cs b =
      functional_switch \<lparr>class_id = QUEUE, method_id = QUEUE_DECLARE\<rparr> cs b \<and>
    functional_switch \<lparr>class_id = c, method_id = CONNECTION_CLOSE\<rparr> cs b = Inr (CLOSE_CONNECTION_RECEIVED, cs, b)"
  using assms by (auto simp: functional_switch_def queue_case_def connection_case_def c_simps)

theorem misrouted_methods_witness:
  "functional_switch \<lparr>class_id = CHANNEL, method_id = CONNECTION_CLOSE\<rparr> sample_connection sample_broker =
     Inr (CLOSE_CONNECTION_RECEIVED, sample_connection, sample_broker)"
  using misrouted_methods [of CHANNEL sample_connection sample_broker] by simp

text \<open>C40. The size a content header announces to a consumer is the size of the body exactly for
  messages shorter than 65536 bytes.\<close>

theorem announced_size:
  assumes "n \<le> MAXLINE"
  shows "\<exists>s announced. send_content_header cs BASIC 1 0 (of_nat n) 0x1000 (CONTENT_HEADER_PROPERTIES @ [0]) =
      Inr (cs\<lparr>sendline := s, tx := tx cs @ [frame CONTENT_HEADER 1 (be_bytes 2 BASIC @ be_bytes 2 (0 :: 16 word) @
        announced @ be_bytes 2 (0x1000 :: 16 word) @ CONTENT_HEADER_PROPERTIES)]\<rparr>) \<and>
    (announced = be_bytes 8 (of_nat n :: 64 word) \<longleftrightarrow> n < 65536)"
  using send_content_header_run [of cs n] low_bits_iff [OF assms] swipe_is_network_order_iff [of "of_nat n"]
  unfolding content_header_frame_def by blast

theorem announced_size_witness:
  "\<exists>s announced. send_content_header sample_connection BASIC 1 0 (of_nat 70000) 0x1000 (CONTENT_HEADER_PROPERTIES @ [0]) =
      Inr (sample_connection\<lparr>sendline := s, tx := tx sample_connection @ [frame CONTENT_HEADER 1 (be_bytes 2 BASIC @
        be_bytes 2 (0 :: 16 word) @ announced @ be_bytes 2 (0x1000 :: 16 word) @ CONTENT_HEADER_PROPERTIES)]\<rparr>) \<and>
    announced \<noteq> be_bytes 8 (of_nat 70000 :: 64 word)"
proof -
  have "70000 \<le> MAXLINE" "\<not> (70000 :: nat) < 65536" by (simp_all add: MAXLINE_def)
  with announced_size [of 70000 sample_connection] show ?thesis by blast
qed

end
