(* ===== verification/World.thy ===== *)
theory World
  imports Session
begin

text \<open>
  All connections at once: threads that come, run their state machines on the shared memory
  and go, in any order. An action of a thread does at most one operation on the shared
  memory, under the lock of that operation, so actions are the steps that interleave. A
  thread that waits in \<^verbatim>\<open>q_dequeue_rr\<close> does not look at its condition again once woken, so it
  may go on at any time, whatever the state of the queue then is.
\<close>

section \<open>What an action does to the shared memory\<close>

definition consuming :: "machine_state set" where
  "consuming = {WAIT_VALUE_DEQUEUE, VALUE_DEQUEUE_RECEIVED, WAIT_CONSUME_ACK}"

lemma consuming_simps [simp]:
  "m \<in> consuming \<longleftrightarrow> m = WAIT_VALUE_DEQUEUE \<or> m = VALUE_DEQUEUE_RECEIVED \<or> m = WAIT_CONSUME_ACK"
  by (auto simp: consuming_def)

inductive effect ::
  "machine_state \<Rightarrow> connection_state \<Rightarrow> broker \<Rightarrow> machine_state \<Rightarrow> connection_state \<Rightarrow> broker \<Rightarrow> bool"
where
  quiet: "tid cs' = tid cs \<Longrightarrow> current_queue cs' = current_queue cs \<Longrightarrow>
    (m' \<in> consuming \<longleftrightarrow> m \<in> consuming) \<Longrightarrow> m' \<noteq> QUEUE_DECLARE_RECEIVED \<Longrightarrow> m \<noteq> WAIT_VALUE_DEQUEUE \<Longrightarrow>
    m \<noteq> WAIT_PUBLISH_CONTENT \<or> m' \<noteq> WAIT_PUBLISH_CONTENT \<Longrightarrow> effect m cs b m' cs' b"
| declare_queue: "tid cs' = tid cs \<Longrightarrow> length nm < MAX_QUEUE_NAME \<Longrightarrow>
    create_queue b nm = Inr (current_queue cs', b') \<Longrightarrow>
    effect WAIT_FUNCTIONAL cs b QUEUE_DECLARE_RECEIVED cs' b'"
| find_queue: "tid cs' = tid cs \<Longrightarrow> get_queue b nm = (current_queue cs', b') \<Longrightarrow>
    m \<notin> consuming \<Longrightarrow> m' \<notin> consuming \<Longrightarrow> m' \<noteq> QUEUE_DECLARE_RECEIVED \<Longrightarrow>
    m \<noteq> WAIT_PUBLISH_CONTENT \<or> m' \<noteq> WAIT_PUBLISH_CONTENT \<Longrightarrow> effect m cs b m' cs' b'"
| enqueue: "tid cs' = tid cs \<Longrightarrow> current_queue cs' = current_queue cs \<Longrightarrow>
    queue_at b (current_queue cs) = Inr (i, q) \<Longrightarrow> cstring MAXLINE (parsed cs') 0 = Inr msg \<Longrightarrow>
    q_enqueue q (heap b) msg = Inr (q', h') \<Longrightarrow>
    effect WAIT_PUBLISH_CONTENT cs b WAIT_PUBLISH_CONTENT cs' (put_queue b i q' h')"
| subscribe: "tid cs' = tid cs \<Longrightarrow> current_queue cs' = current_queue cs \<Longrightarrow>
    queue_at b (current_queue cs) = Inr (i, q) \<Longrightarrow> add_subscriber (rr q) (tid cs) = Inr rr' \<Longrightarrow>
    effect BASIC_CONSUME_RECEIVED cs b WAIT_VALUE_DEQUEUE cs' (put_queue b i (q\<lparr>rr := rr'\<rparr>) (heap b))"
| dequeue: "tid cs' = tid cs \<Longrightarrow> current_queue cs' = current_queue cs \<Longrightarrow>
    queue_at b (current_queue cs) = Inr (i, q) \<Longrightarrow>
    q_dequeue_turn MAXLINE q (heap b) (recvline cs) = Inr (ret, signalled, line, q', h') \<Longrightarrow>
    effect WAIT_VALUE_DEQUEUE cs b VALUE_DEQUEUE_RECEIVED cs' (put_queue b i q' h')"
| leave: "tid cs' = tid cs \<Longrightarrow> current_queue cs' = current_queue cs \<Longrightarrow>
    queue_at b (current_queue cs) = Inr (i, q) \<Longrightarrow> remove_subscriber (rr q) (tid cs) = Inr rr' \<Longrightarrow>
    effect WAIT_CONSUME_ACK cs b FAIL cs' (put_queue b i (q\<lparr>rr := rr'\<rparr>) (heap b))"

text \<open>Reads and sends leave the fields the effects speak of.\<close>

definition same_queue :: "connection_state \<Rightarrow> connection_state \<Rightarrow> bool" where
  "same_queue cs cs' \<longleftrightarrow> tid cs' = tid cs \<and> current_queue cs' = current_queue cs"

lemma same_queue_refl [simp]: "same_queue cs cs"
  by (simp add: same_queue_def)

lemma same_queue_trans: "same_queue a b \<Longrightarrow> same_queue b c \<Longrightarrow> same_queue a c"
  by (simp add: same_queue_def)

lemma same_queue_frames: "read_frame cs cs' \<Longrightarrow> same_queue cs cs'" "send_frame cs cs' \<Longrightarrow> same_queue cs cs'"
  by (simp_all add: read_frame_def send_frame_def same_queue_def)

lemma same_queue_error [simp]: "same_queue cs (cs'\<lparr>error_msg := e\<rparr>) = same_queue cs cs'"
  by (simp add: same_queue_def)

lemma effect_after:
  assumes "same_queue cs cs1" "effect m cs1 b m' cs' b'" "m \<noteq> WAIT_VALUE_DEQUEUE"
  shows "effect m cs b m' cs' b'"
  using assms(2,1,3) by (cases rule: effect.cases) (auto simp: same_queue_def intro: effect.intros)

lemma header_effect:
  assumes "bindE (read_message_header cs)
      (\<lambda>(header, cs). case header of None \<Rightarrow> f cs | Some h \<Rightarrow> g h cs) = Inr (m', cs', b')"
    and "m \<noteq> WAIT_VALUE_DEQUEUE"
    and "\<And>c. f c = Inr (m', cs', b') \<Longrightarrow> effect m c b m' cs' b'"
    and "\<And>h c. g h c = Inr (m', cs', b') \<Longrightarrow> effect m c b m' cs' b'"
  shows "effect m cs b m' cs' b'"
proof -
  from assms(1) obtain header c where r: "read_message_header cs = Inr (header, c)"
    and k: "(case header of None \<Rightarrow> f c | Some h \<Rightarrow> g h c) = Inr (m', cs', b')"
    by (auto simp: bindE_eq_Inr)
  have "same_queue cs c" using read_message_header_frame_only [OF r] same_queue_frames by blast
  moreover have "effect m c b m' cs' b'" using k assms(3,4) by (auto split: option.splits)
  ultimately show ?thesis using effect_after assms(2) by blast
qed

lemma method_effect:
  assumes "bindE (read_method cs n)
      (\<lambda>(meth, cs). case meth of None \<Rightarrow> f cs | Some h \<Rightarrow> g h cs) = Inr (m', cs', b')"
    and "m \<noteq> WAIT_VALUE_DEQUEUE"
    and "\<And>c. f c = Inr (m', cs', b') \<Longrightarrow> effect m c b m' cs' b'"
    and "\<And>h c. g h c = Inr (m', cs', b') \<Longrightarrow> effect m c b m' cs' b'"
  shows "effect m cs b m' cs' b'"
proof -
  from assms(1) obtain meth c where r: "read_method cs n = Inr (meth, c)"
    and k: "(case meth of None \<Rightarrow> f c | Some h \<Rightarrow> g h c) = Inr (m', cs', b')"
    by (auto simp: bindE_eq_Inr)
  have "same_queue cs c" using read_method_frame_only [OF r] same_queue_frames by blast
  moreover have "effect m c b m' cs' b'" using k assms(3,4) by (auto split: option.splits)
  ultimately show ?thesis using effect_after assms(2) by blast
qed

lemma fail_effect:
  "fail_with e c b = Inr (m', cs', b') \<Longrightarrow> m \<notin> consuming \<Longrightarrow> effect m c b m' cs' b'"
  by (auto simp: fail_with_def set_error_def bindE_eq_Inr intro!: quiet)

lemma quiet_effect:
  "same_queue cs cs' \<Longrightarrow> m \<notin> consuming \<Longrightarrow> m' \<notin> consuming \<Longrightarrow> m' \<noteq> QUEUE_DECLARE_RECEIVED \<Longrightarrow>
   m \<noteq> WAIT_PUBLISH_CONTENT \<or> m' \<noteq> WAIT_PUBLISH_CONTENT \<Longrightarrow> effect m cs b m' cs' b"
  by (intro quiet) (auto simp: same_queue_def)

lemma wait_start_ok_effect:
  "action_wait_start_ok cs b = Inr (m', cs', b') \<Longrightarrow> effect WAIT_START_OK cs b m' cs' b'"
  unfolding action_wait_start_ok_def
  by (erule header_effect) (auto elim!: method_effect intro!: quiet_effect split: if_splits)

lemma wait_tune_ok_effect:
  "action_wait_tune_ok cs b = Inr (m', cs', b') \<Longrightarrow> effect WAIT_TUNE_OK cs b m' cs' b'"
  unfolding action_wait_tune_ok_def
  by (erule header_effect) (auto elim!: method_effect intro!: quiet_effect split: if_splits)

lemma wait_open_connection_effect:
  "action_wait_open_connection cs b = Inr (m', cs', b') \<Longrightarrow> effect WAIT_OPEN_CONNECTION cs b m' cs' b'"
  unfolding action_wait_open_connection_def
  by (erule header_effect) (auto elim!: method_effect intro!: quiet_effect split: if_splits)

lemma wait_open_channel_effect:
  "action_wait_open_channel cs b = Inr (m', cs', b') \<Longrightarrow> effect WAIT_OPEN_CHANNEL cs b m' cs' b'"
  unfolding action_wait_open_channel_def Let_def
  by (erule header_effect) (auto elim!: method_effect intro!: quiet_effect split: if_splits)

lemma effect_error: "effect m c b m' c' b' \<Longrightarrow> effect m c b m' (c'\<lparr>error_msg := e\<rparr>) b'"
  by (erule effect.cases) (auto intro: effect.intros)

lemma wait_effect: "action_wait cs b = Inr (m', cs', b') \<Longrightarrow> effect WAIT cs b m' cs' b'"
  by (auto simp: action_wait_def bindE_eq_Inr split: if_splits intro!: quiet_effect
      dest!: read_protocol_header_frame_only same_queue_frames)

lemma checked_effect:
  assumes "bindE F (\<lambda>(m, cs, b). if m = FAIL then fail_with e cs b else Inr (m, cs, b)) = Inr (m', cs', b')"
    and "\<And>n c' b1. F = Inr (n, c', b1) \<Longrightarrow> effect m c b n c' b1"
  shows "effect m c b m' cs' b'"
  using assms by (auto simp: bindE_eq_Inr fail_with_def set_error_def intro: effect_error split: if_splits)

lemma queue_case_effect:
  "queue_case h n c b = Inr (m', cs', b') \<Longrightarrow> n \<notin> consuming \<Longrightarrow> n \<noteq> QUEUE_DECLARE_RECEIVED \<Longrightarrow>
   effect WAIT_FUNCTIONAL c b m' cs' b'"
  by (auto simp: queue_case_def bindE_eq_Inr Let_def split: if_splits intro!: quiet_effect
      dest!: cstring_eq_InrD intro: declare_queue)

lemma find_queue_effect:
  "tid cs' = tid cs \<Longrightarrow> current_queue cs' = fst (get_queue b nm) \<Longrightarrow>
    m \<notin> consuming \<Longrightarrow> m' \<notin> consuming \<Longrightarrow> m' \<noteq> QUEUE_DECLARE_RECEIVED \<Longrightarrow>
    m \<noteq> WAIT_PUBLISH_CONTENT \<or> m' \<noteq> WAIT_PUBLISH_CONTENT \<Longrightarrow> effect m cs b m' cs' (snd (get_queue b nm))"
  by (rule find_queue) simp_all

lemma publish_case_effect:
  "basic_publish_case c b = Inr (m', cs', b') \<Longrightarrow> m \<notin> consuming \<Longrightarrow> effect m c b m' cs' b'"
  by (auto simp: basic_publish_case_def bindE_eq_Inr Let_def split_beta intro!: find_queue_effect)

lemma consume_case_effect:
  "basic_consume_case c b = Inr (m', cs', b') \<Longrightarrow> m \<notin> consuming \<Longrightarrow> effect m c b m' cs' b'"
  by (auto simp: basic_consume_case_def bindE_eq_Inr Let_def split_beta intro!: find_queue_effect)

lemma functional_switch_effect:
  "functional_switch h c b = Inr (m', cs', b') \<Longrightarrow> effect WAIT_FUNCTIONAL c b m' cs' b'"
  by (auto simp: functional_switch_def connection_case_def channel_case_def split: if_splits
      dest!: queue_case_effect intro: publish_case_effect consume_case_effect quiet_effect)

lemma wait_functional_effect:
  "action_wait_functional cs b = Inr (m', cs', b') \<Longrightarrow> effect WAIT_FUNCTIONAL cs b m' cs' b'"
  unfolding action_wait_functional_def
  by (erule header_effect)
    (auto elim!: method_effect checked_effect intro: functional_switch_effect intro!: quiet_effect)

lemma wait_publish_content_header_effect:
  "action_wait_publish_content_header cs b = Inr (m', cs', b') \<Longrightarrow> effect WAIT_PUBLISH_CONTENT_HEADER cs b m' cs' b'"
  unfolding action_wait_publish_content_header_def
  by (erule header_effect)
    (auto simp: bindE_eq_Inr intro!: quiet_effect dest!: read_content_header_frame_only same_queue_frames)

lemma publish_switch_effect:
  "publish_switch h c b = Inr (m', cs', b') \<Longrightarrow> effect WAIT_PUBLISH_CONTENT c b m' cs' b'"
  by (auto simp: publish_switch_def split: if_splits intro: publish_case_effect quiet_effect)

lemma publish_body_case_effect:
  assumes "publish_body_case h cs b = Inr (m', cs', b')"
  shows "effect WAIT_PUBLISH_CONTENT cs b m' cs' b'"
proof -
  from assms obtain c i q msg q' h' where r: "read_body cs (length_arg h) = Inr c"
    "queue_at b (current_queue c) = Inr (i, q)" "cstring MAXLINE (parsed c) 0 = Inr msg"
    "q_enqueue q (heap b) msg = Inr (q', h')" "m' = WAIT_PUBLISH_CONTENT" "cs' = c" "b' = put_queue b i q' h'"
    by (auto simp: publish_body_case_def bindE_eq_Inr)
  have "same_queue cs c" using read_body_frame_only [OF r(1)] same_queue_frames by blast
  then show ?thesis using r by (auto simp: same_queue_def intro!: enqueue)
qed

lemma wait_publish_content_effect:
  "action_wait_publish_content cs b = Inr (m', cs', b') \<Longrightarrow> effect WAIT_PUBLISH_CONTENT cs b m' cs' b'"
  unfolding action_wait_publish_content_def publish_method_case_def
  by (erule header_effect)
    (auto elim!: method_effect checked_effect intro: publish_switch_effect publish_body_case_effect
      intro!: quiet_effect split: if_splits)

lemma basic_consume_received_effect:
  "action_basic_consume_received cs b = Inr (m', cs', b') \<Longrightarrow> effect BASIC_CONSUME_RECEIVED cs b m' cs' b'"
  by (auto simp: action_basic_consume_received_def q_add_subscriber_def bindE_eq_Inr Let_def
      send_frame_def dest!: send_method_frame_only intro!: subscribe)

lemma wait_value_dequeue_effect:
  "action_wait_value_dequeue cs b = Inr (m', cs', b') \<Longrightarrow> effect WAIT_VALUE_DEQUEUE cs b m' cs' b'"
  by (auto simp: action_wait_value_dequeue_def q_dequeue_rr_def bindE_eq_Inr intro: dequeue)

lemma value_dequeue_received_effect:
  "action_value_dequeue_received cs b = Inr (m', cs', b') \<Longrightarrow> effect VALUE_DEQUEUE_RECEIVED cs b m' cs' b'"
  by (auto simp: action_value_dequeue_received_def bindE_eq_Inr Let_def send_frame_def
      dest!: sends_only intro!: quiet)

lemma unsubscribe_then_effect:
  "bindE (unsubscribe c b) (\<lambda>(_, cs, b). fail_with e cs b) = Inr (m', cs', b') \<Longrightarrow>
   effect WAIT_CONSUME_ACK c b m' cs' b'"
  by (auto simp: unsubscribe_def bindE_eq_Inr fail_with_def set_error_def intro!: leave)

lemma wait_consume_ack_effect:
  "action_wait_consume_ack cs b = Inr (m', cs', b') \<Longrightarrow> effect WAIT_CONSUME_ACK cs b m' cs' b'"
  unfolding action_wait_consume_ack_def
  by (erule header_effect)
    (auto elim!: method_effect simp del: fail_with_literals intro: unsubscribe_then_effect intro!: quiet split: if_splits)

lemmas reading_effects = wait_start_ok_effect wait_tune_ok_effect wait_open_connection_effect
  wait_open_channel_effect wait_functional_effect wait_publish_content_header_effect wait_publish_content_effect
  basic_consume_received_effect wait_value_dequeue_effect value_dequeue_received_effect wait_consume_ack_effect
  wait_effect

lemma sending_effect:
  assumes "actions m cs b = Inr (m', cs', b')"
    and "m \<in> {HEADER_RECEIVED, START_OK_RECEIVED, OPEN_CONNECTION_RECEIVED, CLOSE_CONNECTION_RECEIVED,
      OPEN_CHANNEL_RECEIVED, CLOSE_CHANNEL_RECEIVED, QUEUE_DECLARE_RECEIVED, BASIC_PUBLISH_RECEIVED}"
  shows "effect m cs b m' cs' b'"
  using assms
  by (auto simp: sending_actions bindE_eq_Inr Let_def dest!: sends_only same_queue_frames intro!: quiet_effect)

lemma action_effect:
  "actions m cs b = Inr (m', cs', b') \<Longrightarrow> m \<noteq> FINISHED \<Longrightarrow> m \<noteq> FAIL \<Longrightarrow> effect m cs b m' cs' b'"
  by (cases m) (auto intro: reading_effects sending_effect)

section \<open>Interleavings\<close>

record world =
  shared :: broker
  threads :: "int \<Rightarrow> (machine_state \<times> connection_state) option"

definition init_world :: "round_robin_scheduler \<Rightarrow> byte list \<Rightarrow> world" where
  "init_world raw ro = \<lparr>shared = init_broker raw ro, threads = (\<lambda>_. None)\<rparr>"

text \<open>
  What an action does to messages, read off the states before and after it: a body frame was
  taken up and its text enqueued, or the turn of \<^verbatim>\<open>q_dequeue_rr\<close> took a message out of the
  queue into \<^verbatim>\<open>recvline\<close>.
\<close>

definition publish_events :: "broker \<Rightarrow> connection_state \<Rightarrow> event list" where
  "publish_events b cs' =
     (case queue_at b (current_queue cs') of Inl _ \<Rightarrow> []
      | Inr (i, q) \<Rightarrow> (case cstring MAXLINE (parsed cs') 0 of Inl _ \<Rightarrow> [] | Inr m \<Rightarrow> [Published (name q) m]))"

definition turn_events :: "broker \<Rightarrow> connection_state \<Rightarrow> event list" where
  "turn_events b cs =
     (case queue_at b (current_queue cs) of Inl _ \<Rightarrow> []
      | Inr (i, q) \<Rightarrow> (case q_dequeue_turn MAXLINE q (heap b) (recvline cs) of Inl _ \<Rightarrow> []
        | Inr (ret, signalled, line, q', h') \<Rightarrow>
            if ret then (case cstring MAXLINE line 0 of Inl _ \<Rightarrow> [] | Inr m \<Rightarrow> [Delivered (name q) (tid cs) m]) else []))"

definition action_events ::
  "machine_state \<Rightarrow> connection_state \<Rightarrow> broker \<Rightarrow> machine_state \<Rightarrow> connection_state \<Rightarrow> event list" where
  "action_events m cs b m' cs' =
     (if m = WAIT_PUBLISH_CONTENT \<and> m' = WAIT_PUBLISH_CONTENT then publish_events b cs'
      else if m = WAIT_VALUE_DEQUEUE then turn_events b cs else [])"

text \<open>
  The thread that accepts connections gives a new one a thread id nobody has; the id is free
  again once its state machine ended. A thread that waits in \<^verbatim>\<open>q_dequeue_rr\<close> may wake at any
  time.
\<close>

inductive world_step :: "world \<Rightarrow> event list \<Rightarrow> world \<Rightarrow> bool" where
  accept: "0 \<le> t \<Longrightarrow> t < int MAX_CONNECTIONS \<Longrightarrow> threads w t = None \<Longrightarrow>
    world_step w [] (w\<lparr>threads := (threads w)(t \<mapsto> (WAIT, init_connection fd t input))\<rparr>)"
| work: "threads w t = Some (m, cs) \<Longrightarrow> machine_step (m, cs, shared w) (m', cs', b') \<Longrightarrow>
    world_step w (action_events m cs (shared w) m' cs') \<lparr>shared = b', threads = (threads w)(t \<mapsto> (m', cs'))\<rparr>"
| wake: "threads w t = Some (WAIT_VALUE_DEQUEUE, cs) \<Longrightarrow>
    queue_at (shared w) (current_queue cs) = Inr (i, q) \<Longrightarrow>
    q_dequeue_turn MAXLINE q (heap (shared w)) (recvline cs) = Inr (ret, signalled, line, q', h') \<Longrightarrow>
    world_step w (turn_events (shared w) cs) \<lparr>shared = put_queue (shared w) i q' h',
      threads = (threads w)(t \<mapsto> (VALUE_DEQUEUE_RECEIVED, cs\<lparr>recvline := line\<rparr>))\<rparr>"
| close: "threads w t = Some (m, cs) \<Longrightarrow> m = FINISHED \<or> m = FAIL \<Longrightarrow>
    world_step w [] (w\<lparr>threads := (threads w)(t := None)\<rparr>)"

text \<open>The worlds a broker can get to, with what happened to messages on the way.\<close>

inductive history :: "round_robin_scheduler \<Rightarrow> byte list \<Rightarrow> event list \<Rightarrow> world \<Rightarrow> bool" for raw ro where
  start: "history raw ro [] (init_world raw ro)"
| more: "history raw ro evs w \<Longrightarrow> world_step w ev w' \<Longrightarrow> history raw ro (evs @ ev) w'"

definition consumes :: "world \<Rightarrow> int \<Rightarrow> byte list \<Rightarrow> bool" where
  "consumes w t nm \<longleftrightarrow>
     (\<exists>m cs. threads w t = Some (m, cs) \<and> m \<in> consuming \<and> names (shared w) (current_queue cs) nm)"

definition thread_ok :: "world \<Rightarrow> int \<Rightarrow> machine_state \<Rightarrow> connection_state \<Rightarrow> bool" where
  "thread_ok w t m cs \<longleftrightarrow> tid cs = t \<and> 0 \<le> t \<and> t < int MAX_CONNECTIONS \<and>
     (current_queue cs = None \<or> (\<exists>nm. names (shared w) (current_queue cs) nm)) \<and>
     (m \<in> consuming \<or> m = QUEUE_DECLARE_RECEIVED \<longrightarrow> current_queue cs \<noteq> None)"

definition world_inv :: "world \<Rightarrow> spec \<Rightarrow> bool" where
  "world_inv w M \<longleftrightarrow> broker_abs (shared w) M \<and>
     (\<forall>t m cs. threads w t = Some (m, cs) \<longrightarrow> thread_ok w t m cs) \<and>
     (\<forall>nm ms xs c t. M nm = Some (ms, xs, c) \<longrightarrow> (t \<in> set xs \<longleftrightarrow> consumes w t nm))"

lemma init_world_inv: "world_inv (init_world raw ro) (\<lambda>_. None)"
  using init_broker_abs by (simp add: world_inv_def init_world_def)

lemma inv_update:
  assumes inv: "world_inv w M" and t: "0 \<le> t" "t < int MAX_CONNECTIONS"
    and abs: "broker_abs b' M'" and mono: "\<And>p k. names (shared w) p k \<Longrightarrow> names b' p k"
    and th: "tid cs' = t" "current_queue cs' = None \<or> (\<exists>nm. names b' (current_queue cs') nm)"
      "m' \<in> consuming \<or> m' = QUEUE_DECLARE_RECEIVED \<Longrightarrow> current_queue cs' \<noteq> None"
    and own: "\<And>nm ms xs c. M' nm = Some (ms, xs, c) \<Longrightarrow> t \<in> set xs \<longleftrightarrow> m' \<in> consuming \<and> names b' (current_queue cs') nm"
    and others: "\<And>nm ms xs c t'. M' nm = Some (ms, xs, c) \<Longrightarrow> t' \<noteq> t \<Longrightarrow> t' \<in> set xs \<longleftrightarrow> consumes w t' nm"
  shows "world_inv \<lparr>shared = b', threads = (threads w)(t \<mapsto> (m', cs'))\<rparr> M'" (is "world_inv ?w M'")
proof -
  have ok: "\<And>t m cs. threads w t = Some (m, cs) \<Longrightarrow> thread_ok w t m cs"
    using inv by (simp add: world_inv_def)
  have pool: "pool_ok b'" using abs by (rule abs_pool_ok)
  have "thread_ok ?w t' m cs" if "threads ?w t' = Some (m, cs)" for t' m cs
  proof (cases "t' = t")
    case True
    with that t th show ?thesis by (auto simp: thread_ok_def)
  next
    case False
    with that ok [of t' m cs] mono show ?thesis by (auto simp: thread_ok_def)
  qed
  moreover have "consumes ?w t' nm = consumes w t' nm" if "t' \<noteq> t" for t' nm
  proof -
    have "names b' (current_queue cs) nm = names (shared w) (current_queue cs) nm"
      if "threads w t' = Some (m, cs)" "m \<in> consuming" for m cs
    proof -
      from ok [OF that(1)] that(2) obtain k where k: "names (shared w) (current_queue cs) k"
        by (auto simp: thread_ok_def)
      with mono names_unique [OF pool] show ?thesis by blast
    qed
    with \<open>t' \<noteq> t\<close> show ?thesis by (auto simp: consumes_def)
  qed
  moreover have "consumes ?w t nm \<longleftrightarrow> m' \<in> consuming \<and> names b' (current_queue cs') nm" for nm
    by (simp add: consumes_def)
  ultimately show ?thesis
    using abs own others unfolding world_inv_def by (metis world.select_convs(1))
qed

text \<open>Changes of one queue: the names stay, and the ring changes for the acting thread only.\<close>

lemma inv_queue_update:
  assumes inv: "world_inv w M" and th: "threads w t = Some (m, cs)"
    and q: "queue_at (shared w) (current_queue cs) = Inr (i, q)"
    and nm: "names (shared w) (current_queue cs) nm" "M nm = Some (ms, xs, c)"
    and abs: "broker_abs (put_queue (shared w) i q' h') (M(nm \<mapsto> (ms', xs', c')))"
    and cs': "tid cs' = tid cs" "current_queue cs' = current_queue cs"
    and ring: "\<And>t'. t' \<noteq> t \<Longrightarrow> t' \<in> set xs' \<longleftrightarrow> t' \<in> set xs" "t \<in> set xs' \<longleftrightarrow> m' \<in> consuming"
    and m: "m' \<noteq> QUEUE_DECLARE_RECEIVED" "m \<in> consuming \<longleftrightarrow> t \<in> set xs"
  shows "world_inv \<lparr>shared = put_queue (shared w) i q' h', threads = (threads w)(t \<mapsto> (m', cs'))\<rparr>
    (M(nm \<mapsto> (ms', xs', c')))"
proof -
  have ok: "thread_ok w t m cs" and pool: "pool_ok (shared w)"
    and rings: "\<And>nm ms xs c t. M nm = Some (ms, xs, c) \<Longrightarrow> t \<in> set xs \<longleftrightarrow> consumes w t nm"
    using inv th abs_pool_ok unfolding world_inv_def by blast+
  have own: "t \<in> set ys \<longleftrightarrow> m' \<in> consuming \<and> names (shared w) (current_queue cs') k"
    if "(M(nm \<mapsto> (ms', xs', c'))) k = Some (ks, ys, d)" for k ks ys d
  proof (cases "k = nm")
    case True
    with that ring(2) nm(1) cs' show ?thesis by auto
  next
    case False
    with names_unique [OF pool nm(1)] have no: "\<not> names (shared w) (current_queue cs) k" by blast
    with that False rings [of k ks ys d t] th cs'(2) show ?thesis by (auto simp: consumes_def)
  qed
  have others: "t' \<in> set ys \<longleftrightarrow> consumes w t' k"
    if "(M(nm \<mapsto> (ms', xs', c'))) k = Some (ks, ys, d)" "t' \<noteq> t" for k ks ys d t'
    using that ring(1) [OF that(2)] rings [OF nm(2), of t'] rings [of k ks ys d t'] by (cases "k = nm") auto
  show ?thesis
  proof (rule inv_update [OF inv _ _ abs])
    show "0 \<le> t" "t < int MAX_CONNECTIONS" "tid cs' = t" using ok cs' by (auto simp: thread_ok_def)
    show "current_queue cs' = None \<or> (\<exists>nm. names (put_queue (shared w) i q' h') (current_queue cs') nm)"
      "current_queue cs' \<noteq> None"
      using nm(1) cs'(2) by (auto simp: names_def)
    show "t \<in> set xs \<longleftrightarrow> m' \<in> consuming \<and> names (put_queue (shared w) i q' h') (current_queue cs') nm1"
      if "(M(nm \<mapsto> (ms', xs', c'))) nm1 = Some (ms, xs, c)" for nm1 ms xs c using own [OF that] by simp
  qed (use others in auto)
qed

lemma cstring_valid_msg: "cstring MAXLINE b 0 = Inr m \<Longrightarrow> valid_msg m"
  using cstring_eq_InrD [of MAXLINE b 0 m] cstring_nul_free [of MAXLINE b 0 m] by (auto simp: valid_msg_def)

lemma inv_effect:
  assumes inv: "world_inv w M" and th: "threads w t = Some (m, cs)" and eff: "effect m cs (shared w) m' cs' b'"
  shows "\<exists>M'. world_inv \<lparr>shared = b', threads = (threads w)(t \<mapsto> (m', cs'))\<rparr> M' \<and>
    spec_step M (action_events m cs (shared w) m' cs') M'"
proof -
  have abs: "broker_abs (shared w) M" and ok: "thread_ok w t m cs" and pool: "pool_ok (shared w)"
    and rings: "\<And>nm ms xs c t. M nm = Some (ms, xs, c) \<Longrightarrow> t \<in> set xs \<longleftrightarrow> consumes w t nm"
    using inv th abs_pool_ok unfolding world_inv_def by blast+
  have t: "tid cs = t" "0 \<le> t" "t < int MAX_CONNECTIONS" using ok by (auto simp: thread_ok_def)
  have own: "consumes w t nm \<longleftrightarrow> m \<in> consuming \<and> names (shared w) (current_queue cs) nm" for nm
    using th by (auto simp: consumes_def)
  have queue: "\<exists>nm ms xs c. names (shared w) (current_queue cs) nm \<and> trie_lookup (pool (shared w)) nm = Some i \<and>
      q = queues (shared w) ! i \<and> M nm = Some (ms, xs, c) \<and> (t \<in> set xs \<longleftrightarrow> m \<in> consuming) \<and> name q = nm"
    if "queue_at (shared w) (current_queue cs) = Inr (i, q)" for i q
  proof -
    from that ok obtain nm where nm: "names (shared w) (current_queue cs) nm"
      by (auto simp: thread_ok_def queue_at_def)
    from names_queue_at [OF abs nm] that abs_named [OF abs nm] nm rings [of nm _ _ _ t] own [of nm] pool_lookup [OF pool]
    show ?thesis by fastforce
  qed
  show ?thesis
    using eff
  proof (cases rule: effect.cases)
    case quiet
    have "world_inv \<lparr>shared = b', threads = (threads w)(t \<mapsto> (m', cs'))\<rparr> M"
      by (rule inv_update [OF inv t(2,3)]) (use quiet abs ok rings own t in \<open>auto simp: thread_ok_def\<close>)
    then show ?thesis using stutter quiet by (auto simp: action_events_def)
  next
    case (declare_queue nm)
    from abs_declare [OF abs declare_queue(4)] declare_queue(5) have b': "broker_abs b' (spec_declare nm M)"
      "names b' (current_queue cs') nm" "\<And>p k. names (shared w) p k \<Longrightarrow> names b' p k" by auto
    have ring: "t' \<in> set xs \<longleftrightarrow> consumes w t' k" if "spec_declare nm M k = Some (ms, xs, c)" for t' k ms xs c
    proof (cases "M k")
      case None
      then have "\<not> names (shared w) p k" for p using abs_dom [OF abs, of k] by (auto simp: names_def)
      moreover have "xs = []" using that None by (auto simp: spec_declare_def split: if_splits)
      ultimately show ?thesis by (simp add: consumes_def)
    next
      case (Some r)
      then have "spec_declare nm M k = M k" by (auto simp: spec_declare_def)
      with that rings show ?thesis by auto
    qed
    have "world_inv \<lparr>shared = b', threads = (threads w)(t \<mapsto> (m', cs'))\<rparr> (spec_declare nm M)"
      by (rule inv_update [OF inv t(2,3) b'(1,3)])
        (use declare_queue b'(2) ring own t in \<open>auto simp: names_def\<close>)
    then show ?thesis using declares declare_queue(1) by (auto simp: action_events_def)
  next
    case (find_queue nm)
    from abs_get_queue [OF abs, of nm] find_queue(2) have b': "broker_abs b' M"
      "\<And>p k. names (shared w) p k \<Longrightarrow> names b' p k" "current_queue cs' = None \<or> names b' (current_queue cs') nm" by auto
    have "world_inv \<lparr>shared = b', threads = (threads w)(t \<mapsto> (m', cs'))\<rparr> M"
      by (rule inv_update [OF inv t(2,3) b'(1,2)]) (use find_queue b'(3) rings own t in auto)
    then show ?thesis using stutter find_queue by (auto simp: action_events_def)
  next
    case (enqueue i q msg q' h')
    from queue [OF enqueue(6)] obtain nm ms xs c where n: "names (shared w) (current_queue cs) nm"
      "trie_lookup (pool (shared w)) nm = Some i" "q = queues (shared w) ! i" "M nm = Some (ms, xs, c)"
      "t \<in> set xs \<longleftrightarrow> m \<in> consuming" "name q = nm" by blast
    note msg = cstring_valid_msg [OF enqueue(7)]
    have "int (length ms) < INT_MAX"
      using q_enqueue_limit [OF enqueue(8)] abs_q_size [OF abs n(2) n(4)] n(3) by (simp add: q_size_def)
    from abs_publish [OF abs n(2,4) msg this] enqueue(8) n(3)
    have "broker_abs (put_queue (shared w) i q' h') (M(nm \<mapsto> (ms @ [msg], xs, c)))" by auto
    from inv_queue_update [OF inv th enqueue(6) n(1,4) this, of cs' m'] enqueue n(5)
    have "world_inv \<lparr>shared = b', threads = (threads w)(t \<mapsto> (m', cs'))\<rparr> (spec_publish nm msg M)"
      by (simp add: spec_updates [of M, OF n(4)] del: fun_upd_apply)
    moreover have "spec_step M [Published nm msg] (spec_publish nm msg M)"
      using n(4) msg by (intro publishes) (auto simp: valid_msg_def)
    moreover have "action_events m cs (shared w) m' cs' = [Published nm msg]"
      using enqueue n(6) by (simp add: action_events_def publish_events_def)
    ultimately show ?thesis by auto
  next
    case (subscribe i q rr')
    from queue [OF subscribe(6)] obtain nm ms xs c where n: "names (shared w) (current_queue cs) nm"
      "trie_lookup (pool (shared w)) nm = Some i" "q = queues (shared w) ! i" "M nm = Some (ms, xs, c)"
      "t \<in> set xs \<longleftrightarrow> m \<in> consuming" by blast
    have "op_ok (Subscribe t) (xs, c)" using n(5) subscribe(1) t by simp
    from abs_scheduler [OF abs n(2,4) this] subscribe(7) n(3) t(1)
    have "broker_abs (put_queue (shared w) i (q\<lparr>rr := rr'\<rparr>) (heap (shared w)))
        (M(nm \<mapsto> (ms, xs @ [t], if xs = [] then t else c)))" by auto
    from inv_queue_update [OF inv th subscribe(6) n(1,4) this, of cs' m'] subscribe n(5)
    have "world_inv \<lparr>shared = b', threads = (threads w)(t \<mapsto> (m', cs'))\<rparr> (spec_subscribe nm t M)"
      by (simp add: spec_updates [of M, OF n(4)] del: fun_upd_apply)
    moreover have "t \<notin> set xs" using n(5) subscribe(1) by simp
    ultimately show ?thesis using subscribes [of M, OF n(4)] subscribe(1) by (auto simp: action_events_def)
  next
    case (dequeue i q ret s line q' h')
    from queue [OF dequeue(6)] obtain nm ms xs c where n: "names (shared w) (current_queue cs) nm"
      "trie_lookup (pool (shared w)) nm = Some i" "q = queues (shared w) ! i" "M nm = Some (ms, xs, c)"
      "t \<in> set xs \<longleftrightarrow> m \<in> consuming" "name q = nm" by blast
    have xs: "t \<in> set xs" "xs \<noteq> []" using n(5) dequeue(1) by auto
    from abs_dequeue_turn [OF abs n(2,4) xs(2), of "recvline cs"] dequeue(7) n(3)
    have d: "broker_abs (put_queue (shared w) i q' h') (M(nm \<mapsto> (tl ms, xs, ring_succ xs c)))"
      "if ret then ms \<noteq> [] \<and> cstring MAXLINE line 0 = Inr (hd ms) else ms = []" by auto
    have "action_events m cs (shared w) m' cs' = map (Delivered nm t) (take 1 ms)"
      using dequeue n(6) d(2) t(1) by (cases ms) (auto simp: action_events_def turn_events_def split: if_splits)
    moreover from inv_queue_update [OF inv th dequeue(6) n(1,4) d(1), of cs' m'] dequeue n(5)
    have "world_inv \<lparr>shared = b', threads = (threads w)(t \<mapsto> (m', cs'))\<rparr> (spec_deliver nm M)"
      by (simp add: spec_updates [of M, OF n(4)] del: fun_upd_apply)
    ultimately show ?thesis using delivers [of M, OF n(4) xs(1)] by auto
  next
    case (leave i q rr')
    from queue [OF leave(6)] obtain nm ms xs c where n: "names (shared w) (current_queue cs) nm"
      "trie_lookup (pool (shared w)) nm = Some i" "q = queues (shared w) ! i" "M nm = Some (ms, xs, c)"
      "t \<in> set xs \<longleftrightarrow> m \<in> consuming" by blast
    have d: "distinct xs" using abs_distinct(1) [OF abs n(4)] .
    have "op_ok (Unsubscribe t) (xs, c)" using n(5) leave(1) by simp
    from abs_scheduler [OF abs n(2,4) this] leave(7) n(3) t(1)
    have "broker_abs (put_queue (shared w) i (q\<lparr>rr := rr'\<rparr>) (heap (shared w)))
        (M(nm \<mapsto> (ms, remove1 t xs, if c = t then ring_succ xs t else c)))" by auto
    from inv_queue_update [OF inv th leave(6) n(1,4) this, of cs' m'] leave n(5) d
    have "world_inv \<lparr>shared = b', threads = (threads w)(t \<mapsto> (m', cs'))\<rparr> (spec_unsubscribe nm t M)"
      by (simp add: spec_updates [of M, OF n(4)] del: fun_upd_apply)
    moreover have "t \<in> set xs" using n(5) leave(1) by simp
    ultimately show ?thesis using unsubscribes [of M, OF n(4)] leave(1) by (auto simp: action_events_def)
  qed
qed

section \<open>The undefined behaviour that is left\<close>

text \<open>Computations that can only go wrong at a buffer, or in \<^verbatim>\<open>int\<close> arithmetic.\<close>

definition buffer_only :: "'a result \<Rightarrow> bool" where
  "buffer_only r \<longleftrightarrow> (\<forall>e. r = Inl e \<longrightarrow> e = UB Out_of_bounds \<or> e = UB Signed_overflow)"

lemma buffer_only_Inr [simp]: "buffer_only (Inr x)"
  by (simp add: buffer_only_def)

lemma buffer_only_bindE:
  "buffer_only m \<Longrightarrow> (\<And>x. m = Inr x \<Longrightarrow> buffer_only (f x)) \<Longrightarrow> buffer_only (bindE m f)"
  by (auto simp: buffer_only_def bindE_eq_Inl)

lemma buffer_only_assertE [simp]: "buffer_only (assertE Out_of_bounds b)" "buffer_only (assertE Signed_overflow b)"
  by (simp_all add: buffer_only_def assertE_def)

lemma buffer_only_mem [simp]: "buffer_only (buf_store c f off bs)" "buffer_only (buf_load c f off n)"
  by (simp_all add: buf_store_def buf_load_def buffer_only_bindE)

lemma buffer_only_cstring [simp]: "buffer_only (cstring c f off)"
  using cstring_nulless_Inl by (auto simp: buffer_only_def)

lemma buffer_only_read_loop: "buffer_only (read_loop cap sz acc buf inp)"
proof (induction cap sz acc buf inp rule: read_loop.induct)
  case (1 cap sz acc buf inp)
  obtain res rx1 where rd: "posix_read (unat (sz - acc)) inp = (res, rx1)" by fastforce
  show ?case
  proof (cases "acc < sz")
    case True
    with rd "1.IH"(1) [OF True rd [symmetric]] "1.IH"(2) [OF True rd [symmetric]] show ?thesis
      by (subst read_loop.simps) (auto intro!: buffer_only_bindE split: read_result.splits)
  qed (subst read_loop.simps, simp)
qed

lemma buffer_only_recv [simp]: "buffer_only (recv cs n)"
  by (auto simp: recv_def read_until_def intro!: buffer_only_bindE buffer_only_read_loop)

lemma buffer_only_reads [simp]:
  "buffer_only (read_protocol_header cs)" "buffer_only (read_message_header cs)" "buffer_only (read_method cs len)"
  "buffer_only (read_content_header cs len)" "buffer_only (read_body cs len)"
  by (auto simp: read_protocol_header_def read_message_header_def read_method_def parse_method_def
      read_content_header_def parse_content_header_def read_body_def Let_def intro!: buffer_only_bindE)

lemma buffer_only_sends [simp]:
  "buffer_only (put_sendline off bs cs)" "buffer_only (write_sendline cs n)"
  "buffer_only (send_method cs c m ch args n)" "buffer_only (send_content_header cs c ch w bsz fl props)"
  "buffer_only (send_body cs chan payload n)" "buffer_only (send_queue_declare_ok cs ch nb mc cc)"
proof -
  have p: "buffer_only (put_sendline off bs cs)" "buffer_only (write_sendline cs n)" for off bs cs n
    by (auto simp: put_sendline_def write_sendline_def intro!: buffer_only_bindE)
  then have m: "buffer_only (send_method cs c m ch args n)" for cs c m ch args n
    by (auto simp: send_method_def Let_def intro!: buffer_only_bindE)
  show "buffer_only (put_sendline off bs cs)" "buffer_only (write_sendline cs n)"
    "buffer_only (send_method cs c m ch args n)" by (rule p m)+
  show "buffer_only (send_content_header cs c ch w bsz fl props)" "buffer_only (send_body cs chan payload n)"
    using p by (auto simp: send_content_header_def send_body_def Let_def intro!: buffer_only_bindE)
  show "buffer_only (send_queue_declare_ok cs ch nb mc cc)"
    using m by (auto simp: send_queue_declare_ok_def fill_short_string_def Let_def intro!: buffer_only_bindE)
qed

lemma buffer_only_fail [simp]: "buffer_only (fail_with e cs b)" "buffer_only (set_error e cs)"
  by (auto simp: fail_with_def set_error_def intro!: buffer_only_bindE)

lemma buffer_only_args [simp]:
  "buffer_only (parse_queue_declare_args p q)" "buffer_only (parse_basic_publish_args p q)"
  "buffer_only (parse_basic_consume_args p q)"
  by (auto simp: parse_queue_declare_args_def parse_basic_publish_args_def parse_basic_consume_args_def Let_def
      intro!: buffer_only_bindE)

text \<open>The operations on the shared memory cannot go wrong, but for the size of a queue.\<close>

lemma buffer_only_create: "broker_abs b M \<Longrightarrow> cstring MAX_QUEUE_NAME nb 0 = Inr nm \<Longrightarrow> buffer_only (create_queue b nm)"
  using abs_declare [of b M nm] cstring_eq_InrD [of MAX_QUEUE_NAME nb 0 nm] by auto

lemma buffer_only_switch:
  assumes "broker_abs b M"
  shows "buffer_only (functional_switch h cs b)" "buffer_only (publish_switch h cs b)"
proof -
  have p: "buffer_only (basic_publish_case c b)" "buffer_only (basic_consume_case c b)" for c
    by (auto simp: basic_publish_case_def basic_consume_case_def Let_def split_beta intro!: buffer_only_bindE)
  have q: "buffer_only (queue_case h n c b)" for h n c
    using buffer_only_create [OF assms]
    by (auto simp: queue_case_def Let_def split_beta intro!: buffer_only_bindE)
  show "buffer_only (functional_switch h cs b)" "buffer_only (publish_switch h cs b)"
    using p q by (auto simp: functional_switch_def publish_switch_def)
qed

text \<open>The same, but for a null pointer under a condition.\<close>

definition errors_within :: "bool \<Rightarrow> bool \<Rightarrow> 'a result \<Rightarrow> bool" where
  "errors_within N B r \<longleftrightarrow> (\<forall>e. r = Inl e \<longrightarrow>
     e = UB Out_of_bounds \<or> e = UB Signed_overflow \<or> e = UB Null_deref \<and> N \<or> e = Blocked \<and> B)"

lemma errors_within_buffer: "buffer_only r \<Longrightarrow> errors_within N B r"
  by (auto simp: buffer_only_def errors_within_def)

lemma errors_within_bindE:
  "errors_within N B m \<Longrightarrow> (\<And>x. m = Inr x \<Longrightarrow> errors_within N B (f x)) \<Longrightarrow> errors_within N B (bindE m f)"
  by (auto simp: errors_within_def bindE_eq_Inl)

lemma errors_within_simps [simp]: "errors_within N B (Inr x)" "errors_within N True (Inl Blocked)"
  by (simp_all add: errors_within_def)

lemma enqueue_errors:
  assumes "queue_rep h q as ms" "heap_ok h"
  shows "errors_within N B (q_enqueue q h m)"
proof (cases "as = []")
  case True
  with assms(1) have "first_node q = None" by (simp add: queue_rep_def)
  then show ?thesis
    by (auto simp: q_enqueue_def malloc_node_def Let_def intro!: errors_within_buffer buffer_only_bindE)
next
  case False
  then have l: "last as \<in> set as" by simp
  from assms(1) False have f: "first_node q = Some (last as)" by (simp add: queue_rep_def)
  from assms(1) l obtain n where n: "nodes h (last as) = Some n"
    using holds_allocated [of "nodes h" "last_node q" as ms] by (auto simp: queue_rep_def)
  have "last as \<noteq> next_addr h" using queue_rep_below [OF assms(2,1) l] by simp
  with f n show ?thesis
    by (auto simp: q_enqueue_def malloc_node_def Let_def deref_def intro!: errors_within_buffer buffer_only_bindE)
qed

lemma abs_enqueue_errors:
  assumes "broker_abs b M" "trie_lookup (pool b) nm = Some i" "M nm = Some (ms, xs, c)"
  shows "errors_within N B (q_enqueue (queues b ! i) (heap b) m)"
proof (rule abs_obtain [OF assms])
  fix as mss xss
  assume "broker_rep b as mss xss" "i < length (queues b)"
  from broker_rep_queue(1,4) [OF this] show ?thesis by (rule enqueue_errors)
qed

lemma quiet_errors:
  assumes "broker_abs b M"
    and "m \<notin> {QUEUE_DECLARE_RECEIVED, WAIT_PUBLISH_CONTENT, BASIC_CONSUME_RECEIVED, WAIT_VALUE_DEQUEUE, WAIT_CONSUME_ACK}"
  shows "buffer_only (actions m cs b)"
proof -
  note defs = sending_actions reading_actions action_wait_def action_noop_def
  show ?thesis
    using assms(2) buffer_only_switch [OF assms(1)]
    by (cases m) (auto simp: defs Let_def split_beta split: option.splits intro!: buffer_only_bindE)
qed

lemma declare_errors: "queue_at b (current_queue cs) = Inr (i, q) \<Longrightarrow> buffer_only (action_queue_declare_received cs b)"
  by (auto simp: action_queue_declare_received_def intro!: buffer_only_bindE)

lemma publish_content_errors:
  assumes abs: "broker_abs b M"
    and q: "current_queue cs \<noteq> None \<Longrightarrow> \<exists>i q. queue_at b (current_queue cs) = Inr (i, q) \<and>
      (\<forall>msg. errors_within False B (q_enqueue q (heap b) msg))"
  shows "errors_within (current_queue cs = None) B (action_wait_publish_content cs b)"
proof -
  let ?N = "current_queue cs = None"
  have meth: "buffer_only (publish_method_case h c b)" for h c
    using buffer_only_switch [OF abs]
    by (auto simp: publish_method_case_def split_beta split: option.splits intro!: buffer_only_bindE)
  have "errors_within ?N B (publish_body_case h c b)" if c: "same_queue cs c" for h c
    unfolding publish_body_case_def
  proof (rule errors_within_bindE)
    fix c' assume "read_body c (length_arg h) = Inr c'"
    then have c': "current_queue c' = current_queue cs"
      using read_body_frame_only same_queue_frames c by (fastforce simp: same_queue_def)
    show "errors_within ?N B (bindE (queue_at b (current_queue c')) (\<lambda>(i, q). bindE (cstring MAXLINE (parsed c') 0)
        (\<lambda>msg. bindE (q_enqueue q (heap b) msg) (\<lambda>(q, hp). Inr (WAIT_PUBLISH_CONTENT, c', put_queue b i q hp)))))"
    proof (cases ?N)
      case True
      then show ?thesis by (simp add: c' queue_at_def errors_within_def)
    next
      case False
      with q obtain i q where i: "queue_at b (current_queue cs) = Inr (i, q)"
        "\<And>msg. errors_within False B (q_enqueue q (heap b) msg)" by blast
      then have "errors_within ?N B (q_enqueue q (heap b) msg)" for msg by (auto simp: errors_within_def)
      then show ?thesis unfolding c' i(1)
        by (simp only: bindE.simps split, intro errors_within_bindE) (auto simp: errors_within_buffer)
    qed
  qed (simp add: errors_within_buffer)
  moreover have "same_queue cs c" if "read_message_header cs = Inr (h, c)" for h c
    using read_message_header_frame_only [OF that] same_queue_frames by blast
  ultimately show ?thesis
    unfolding action_wait_publish_content_def
    by (intro errors_within_bindE) (auto simp: errors_within_buffer meth split: option.splits)
qed

lemma consume_errors:
  assumes "current_queue cs \<noteq> None \<Longrightarrow> \<exists>i q rr'. queue_at b (current_queue cs) = Inr (i, q) \<and>
      add_subscriber (rr q) (tid cs) = Inr rr'"
  shows "errors_within (current_queue cs = None) B (action_basic_consume_received cs b)"
proof (cases "current_queue cs = None")
  case True
  then show ?thesis by (simp add: action_basic_consume_received_def queue_at_def errors_within_def)
next
  case False
  with assms show ?thesis
    by (auto simp: action_basic_consume_received_def q_add_subscriber_def Let_def
        intro!: errors_within_buffer buffer_only_bindE)
qed

lemma dequeue_errors:
  assumes "queue_at b (current_queue cs) = Inr (i, q)" "0 \<le> tid cs" "tid cs < int MAX_CONNECTIONS"
    and "q_dequeue_turn MAXLINE q (heap b) (recvline cs) = Inr r"
  shows "errors_within False True (action_wait_value_dequeue cs b)"
proof -
  have "errors_within False True (q_dequeue_rr MAXLINE q (heap b) (tid cs) (recvline cs))"
    using assms(2-4)
    by (auto simp: q_dequeue_rr_def wait_round_def wait_msg_def rr_index_ok intro!: errors_within_bindE)
  with assms(1) show ?thesis
    by (auto simp: action_wait_value_dequeue_def split_beta intro!: errors_within_bindE)
qed

lemma ack_errors:
  assumes q: "queue_at b (current_queue cs) = Inr (i, q)" "remove_subscriber (rr q) (tid cs) = Inr rr'"
  shows "buffer_only (action_wait_consume_ack cs b)"
proof -
  have u: "buffer_only (bindE (unsubscribe c b) (\<lambda>(_, cs, b). fail_with e cs b))" if "same_queue cs c" for c e
    using that q by (auto simp: unsubscribe_def same_queue_def split_beta intro!: buffer_only_bindE)
  have h: "same_queue cs c" if "read_message_header cs = Inr (h, c)" for h c
    using read_message_header_frame_only [OF that] same_queue_frames by blast
  have m: "same_queue cs d" if "read_message_header cs = Inr (h, c)" "read_method c n = Inr (k, d)" for h c n k d
    using h [OF that(1)] read_method_frame_only [OF that(2)] same_queue_frames same_queue_trans by blast
  have k: "buffer_only (bindE (read_method c n) (\<lambda>(meth, cs). case meth of
         None \<Rightarrow> bindE (unsubscribe cs b) (\<lambda>(_, cs, b). fail_with ''Error reading method'' cs b)
       | Some m \<Rightarrow>
         if class_id m \<noteq> BASIC \<or> method_id m \<noteq> BASIC_ACK
         then bindE (unsubscribe cs b) (\<lambda>(_, cs, b). fail_with (unexpected_method m) cs b)
         else Inr (WAIT_VALUE_DEQUEUE, cs, b)))" if r: "read_message_header cs = Inr (hd, c)" for hd c n
  proof (rule buffer_only_bindE)
    fix x assume "read_method c n = Inr x"
    then obtain meth d where x: "x = (meth, d)" "same_queue cs d" using m [OF r] by (cases x) auto
    show "buffer_only (case x of (meth, cs) \<Rightarrow> case meth of
         None \<Rightarrow> bindE (unsubscribe cs b) (\<lambda>(_, cs, b). fail_with ''Error reading method'' cs b)
       | Some m \<Rightarrow>
         if class_id m \<noteq> BASIC \<or> method_id m \<noteq> BASIC_ACK
         then bindE (unsubscribe cs b) (\<lambda>(_, cs, b). fail_with (unexpected_method m) cs b)
         else Inr (WAIT_VALUE_DEQUEUE, cs, b))"
      using u [OF x(2)] by (simp add: x(1) split: option.splits del: fail_with_literals)
  qed simp
  show ?thesis
    unfolding action_wait_consume_ack_def
  proof (rule buffer_only_bindE)
    fix x assume "read_message_header cs = Inr x"
    then show "buffer_only (case x of (header, cs) \<Rightarrow> case header of
         None \<Rightarrow> bindE (unsubscribe cs b) (\<lambda>(_, cs, b). fail_with ''Error reading message header'' cs b)
       | Some h \<Rightarrow> bindE (read_method cs (length_arg h)) (\<lambda>(meth, cs). case meth of
         None \<Rightarrow> bindE (unsubscribe cs b) (\<lambda>(_, cs, b). fail_with ''Error reading method'' cs b)
       | Some m \<Rightarrow>
         if class_id m \<noteq> BASIC \<or> method_id m \<noteq> BASIC_ACK
         then bindE (unsubscribe cs b) (\<lambda>(_, cs, b). fail_with (unexpected_method m) cs b)
         else Inr (WAIT_VALUE_DEQUEUE, cs, b)))"
      using u h k by (cases x) (simp split: option.splits del: fail_with_literals)
  qed simp
qed

lemma world_errors:
  assumes inv: "world_inv w M" and th: "threads w t = Some (m, cs)"
  shows "errors_within (current_queue cs = None \<and> (m = WAIT_PUBLISH_CONTENT \<or> m = BASIC_CONSUME_RECEIVED))
    (m = WAIT_VALUE_DEQUEUE) (actions m cs (shared w))"
proof -
  let ?b = "shared w"
  have abs: "broker_abs ?b M" and ok: "thread_ok w t m cs"
    and rings: "\<And>nm ms xs c t. M nm = Some (ms, xs, c) \<Longrightarrow> t \<in> set xs \<longleftrightarrow> consumes w t nm"
    using inv th unfolding world_inv_def by blast+
  have t: "tid cs = t" "0 \<le> t" "t < int MAX_CONNECTIONS" using ok by (auto simp: thread_ok_def)
  have queue: "\<exists>nm i ms xs c. queue_at ?b (current_queue cs) = Inr (i, queues ?b ! i) \<and>
      trie_lookup (pool ?b) nm = Some i \<and> M nm = Some (ms, xs, c) \<and> (t \<in> set xs \<longleftrightarrow> m \<in> consuming)"
    if "current_queue cs \<noteq> None"
  proof -
    from that ok obtain nm where nm: "names ?b (current_queue cs) nm" by (auto simp: thread_ok_def)
    moreover have "consumes w t nm \<longleftrightarrow> m \<in> consuming" using th nm by (auto simp: consumes_def)
    ultimately show ?thesis using names_queue_at [OF abs nm] abs_named [OF abs nm] rings [of nm _ _ _ t] by fastforce
  qed
  show ?thesis
  proof (cases "m \<in> {QUEUE_DECLARE_RECEIVED, WAIT_PUBLISH_CONTENT, BASIC_CONSUME_RECEIVED, WAIT_VALUE_DEQUEUE, WAIT_CONSUME_ACK}")
    case False
    with quiet_errors [OF abs, of m cs] show ?thesis by (intro errors_within_buffer) auto
  next
    case True
    then consider "m = QUEUE_DECLARE_RECEIVED" | "m = WAIT_PUBLISH_CONTENT" | "m = BASIC_CONSUME_RECEIVED"
      | "m = WAIT_VALUE_DEQUEUE" | "m = WAIT_CONSUME_ACK" by blast
    then show ?thesis
    proof cases
      case 1
      with ok queue obtain i q where "queue_at ?b (current_queue cs) = Inr (i, q)" by (auto simp: thread_ok_def)
      from declare_errors [OF this] 1 show ?thesis by (simp add: errors_within_buffer)
    next
      case 2
      have "\<exists>i q. queue_at ?b (current_queue cs) = Inr (i, q) \<and> (\<forall>msg. errors_within False False (q_enqueue q (heap ?b) msg))"
        if "current_queue cs \<noteq> None"
        using queue [OF that] abs_enqueue_errors [OF abs] by blast
      from publish_content_errors [OF abs this] 2 show ?thesis by simp
    next
      case 3
      have "\<exists>i q rr'. queue_at ?b (current_queue cs) = Inr (i, q) \<and> add_subscriber (rr q) (tid cs) = Inr rr'"
        if "current_queue cs \<noteq> None"
      proof -
        from queue [OF that] 3 obtain nm i ms xs c where n: "queue_at ?b (current_queue cs) = Inr (i, queues ?b ! i)"
          "trie_lookup (pool ?b) nm = Some i" "M nm = Some (ms, xs, c)" "t \<notin> set xs" by auto
        from abs_scheduler [OF abs n(2,3), of "Subscribe t"] n(4) t have "\<exists>rr'. add_subscriber (rr (queues ?b ! i)) t = Inr rr'"
          by auto
        with n(1) t(1) show ?thesis by auto
      qed
      from consume_errors [OF this] 3 show ?thesis by simp
    next
      case 4
      with ok queue obtain nm i ms xs c where n: "queue_at ?b (current_queue cs) = Inr (i, queues ?b ! i)"
        "trie_lookup (pool ?b) nm = Some i" "M nm = Some (ms, xs, c)" "t \<in> set xs" by (auto simp: thread_ok_def)
      have "xs \<noteq> []" using n(4) by auto
      from abs_dequeue_turn [OF abs n(2,3) this, of "recvline cs"] obtain r where
        "q_dequeue_turn MAXLINE (queues ?b ! i) (heap ?b) (recvline cs) = Inr r" by blast
      from dequeue_errors [OF n(1) _ _ this] t 4 show ?thesis by (auto simp: errors_within_def)
    next
      case 5
      with ok queue obtain nm i ms xs c where n: "queue_at ?b (current_queue cs) = Inr (i, queues ?b ! i)"
        "trie_lookup (pool ?b) nm = Some i" "M nm = Some (ms, xs, c)" "t \<in> set xs" by (auto simp: thread_ok_def)
      from abs_scheduler [OF abs n(2,3), of "Unsubscribe t"] n(4) t(1) obtain rr' where
        "remove_subscriber (rr (queues ?b ! i)) (tid cs) = Inr rr'" by auto
      from ack_errors [OF n(1) this] 5 show ?thesis by (simp add: errors_within_buffer)
    qed
  qed
qed

section \<open>Every reachable world\<close>

lemma inv_accept:
  assumes "world_inv w M" "0 \<le> t" "t < int MAX_CONNECTIONS" "threads w t = None"
  shows "world_inv (w\<lparr>threads := (threads w)(t \<mapsto> (WAIT, init_connection fd t input))\<rparr>) M"
proof -
  have "consumes (w\<lparr>threads := (threads w)(t \<mapsto> (WAIT, init_connection fd t input))\<rparr>) t' nm = consumes w t' nm" for t' nm
    using assms(4) by (auto simp: consumes_def)
  then show ?thesis using assms by (auto simp: world_inv_def thread_ok_def init_connection_def)
qed

lemma inv_close:
  assumes "world_inv w M" "threads w t = Some (m, cs)" "m = FINISHED \<or> m = FAIL"
  shows "world_inv (w\<lparr>threads := (threads w)(t := None)\<rparr>) M"
proof -
  have "consumes (w\<lparr>threads := (threads w)(t := None)\<rparr>) t' nm = consumes w t' nm" for t' nm
    using assms(2,3) by (auto simp: consumes_def)
  then show ?thesis using assms by (auto simp: world_inv_def thread_ok_def)
qed

lemma inv_step:
  assumes "world_step w ev w'" "world_inv w M"
  shows "\<exists>M'. world_inv w' M' \<and> spec_step M ev M'"
  using assms
proof (induction rule: world_step.induct)
  case (accept t w fd input)
  then show ?case using inv_accept stutter by blast
next
  case (work w t m cs m' cs' b')
  from work(2) have "effect m cs (shared w) m' cs' b'" by (auto simp: machine_step_simp intro: action_effect)
  from inv_effect [OF work(3,1) this] show ?case .
next
  case (wake w t cs i q ret signalled line q' h')
  have "effect WAIT_VALUE_DEQUEUE cs (shared w) VALUE_DEQUEUE_RECEIVED (cs\<lparr>recvline := line\<rparr>) (put_queue (shared w) i q' h')"
    using wake(2,3) by (intro dequeue) auto
  from inv_effect [OF wake(4,1) this] show ?case by (simp add: action_events_def)
next
  case (close w t m cs)
  then show ?case using inv_close stutter by blast
qed

lemma history_inv: "history raw ro evs w \<Longrightarrow> \<exists>M. world_inv w M \<and> spec_run evs M"
proof (induction rule: history.induct)
  case start
  then show ?case using init_world_inv spec_start by blast
next
  case (more evs w ev w')
  then show ?case using inv_step spec_more by blast
qed

lemma exactly_once:
  assumes "history raw ro evs w"
  shows "case trie_lookup (pool (shared w)) nm of
      None \<Rightarrow> published nm evs = [] \<and> handed nm evs = []
    | Some i \<Rightarrow> \<exists>as ms. queue_rep (heap (shared w)) (queues (shared w) ! i) as ms \<and>
        published nm evs = handed nm evs @ ms"
proof -
  from history_inv [OF assms] obtain M where M: "world_inv w M" "spec_run evs M" by blast
  then have abs: "broker_abs (shared w) M" by (simp add: world_inv_def)
  note c = spec_conserves [OF M(2), of nm]
  show ?thesis
  proof (cases "trie_lookup (pool (shared w)) nm")
    case None
    with c abs_dom [OF abs, of nm] show ?thesis by (auto simp: messages_def)
  next
    case (Some i)
    then obtain ms xs c where M: "M nm = Some (ms, xs, c)" using abs_dom [OF abs, of nm] by (cases "M nm") auto
    show ?thesis
    proof (rule abs_obtain [OF abs Some M])
      fix as mss xss
      assume "broker_rep (shared w) as mss xss" "i < length (queues (shared w))" "mss i = ms"
      with broker_rep_queue(1) [of "shared w" as mss xss i] c M Some show ?thesis by (auto simp: messages_def)
    qed
  qed
qed

end
