(* ===== verification/Safety.thy ===== *)
theory Safety
  imports World
begin

text \<open>
  What holds of all connections together, whatever they send and however they interleave:
  the shared memory implements the abstract broker, messages are neither lost nor
  duplicated, and only few kinds of undefined behaviour are left.
\<close>

section \<open>One connection inside a world\<close>

lemma world_history:
  assumes "history raw ro evs w" "threads w t = Some (m, cs)" "machine_step\<^sup>*\<^sup>* (m, cs, shared w) s"
  shows "\<exists>ev. history raw ro (evs @ ev) \<lparr>shared = snd (snd s), threads = (threads w)(t \<mapsto> (fst s, fst (snd s)))\<rparr>"
  using assms(3)
proof (induction rule: rtranclp_induct)
  case base
  from assms(1,2) show ?case
    by (intro exI [of _ "[]"]) (cases w, simp add: fun_upd_idem)
next
  case (step s s')
  obtain m1 c1 b1 m2 c2 b2 where st: "s = (m1, c1, b1)" "s' = (m2, c2, b2)" by (cases s, cases s')
  let ?w = "\<lparr>shared = b1, threads = (threads w)(t \<mapsto> (m1, c1))\<rparr>"
  from step.IH st obtain ev where h: "history raw ro (evs @ ev) ?w" by (auto simp del: fun_upd_apply)
  have "world_step ?w (action_events m1 c1 b1 m2 c2) \<lparr>shared = b2, threads = (threads ?w)(t \<mapsto> (m2, c2))\<rparr>"
    using work [of ?w t m1 c1 m2 c2 b2] step.hyps(2) st by simp
  from more [OF h this] st show ?case by (auto simp del: fun_upd_apply)
qed

lemma accepted_history:
  assumes "0 \<le> t" "t < int MAX_CONNECTIONS" "machine_step\<^sup>*\<^sup>* (WAIT, init_connection fd t input, init_broker raw ro) (m, cs, b)"
  shows "\<exists>evs. history raw ro evs \<lparr>shared = b, threads = [t \<mapsto> (m, cs)]\<rparr>"
proof -
  let ?w = "init_world raw ro\<lparr>threads := [t \<mapsto> (WAIT, init_connection fd t input)]\<rparr>"
  have "world_step (init_world raw ro) [] ?w"
    using accept [of t "init_world raw ro" fd input] assms(1,2) by (simp add: init_world_def)
  from more [OF start this] have h: "history raw ro [] ?w" by simp
  from world_history [OF h, of t WAIT "init_connection fd t input" "(m, cs, b)"] assms(3) show ?thesis
    by (auto simp: init_world_def)
qed

text \<open>Where a dequeue blocks.\<close>

lemma consumer_dequeues:
  assumes inv: "world_inv w M" and th: "threads w t = Some (WAIT_VALUE_DEQUEUE, cs)"
  shows "\<exists>i q ret signalled line q' h'. queue_at (shared w) (current_queue cs) = Inr (i, q) \<and>
    q_dequeue_turn MAXLINE q (heap (shared w)) (recvline cs) = Inr (ret, signalled, line, q', h') \<and>
    (ret \<longleftrightarrow> queue_size q \<noteq> 0)"
proof -
  let ?b = "shared w"
  have abs: "broker_abs ?b M" and ok: "thread_ok w t WAIT_VALUE_DEQUEUE cs"
    and rings: "\<And>nm ms xs c t. M nm = Some (ms, xs, c) \<Longrightarrow> t \<in> set xs \<longleftrightarrow> consumes w t nm"
    using inv th unfolding world_inv_def by blast+
  from ok obtain nm where nm: "names ?b (current_queue cs) nm" by (auto simp: thread_ok_def)
  from names_queue_at [OF abs nm] obtain i where
    i: "trie_lookup (pool ?b) nm = Some i" "queue_at ?b (current_queue cs) = Inr (i, queues ?b ! i)" by blast
  from abs_named [OF abs nm] obtain ms xs c where M: "M nm = Some (ms, xs, c)" by blast
  have "t \<in> set xs" using rings [OF M, of t] th nm by (auto simp: consumes_def)
  then have "xs \<noteq> []" by auto
  from abs_dequeue_turn [OF abs i(1) M this, of "recvline cs"] obtain ret s line q' h' where
    r: "q_dequeue_turn MAXLINE (queues ?b ! i) (heap ?b) (recvline cs) = Inr (ret, s, line, q', h')"
      "if ret then ms \<noteq> [] \<and> cstring MAXLINE line 0 = Inr (hd ms) else ms = []" by blast
  have "ret \<longleftrightarrow> queue_size (queues ?b ! i) \<noteq> 0"
    using r(2) abs_q_size [OF abs i(1) M] by (auto simp: q_size_def split: if_splits)
  with i(2) r(1) show ?thesis by blast
qed

lemma dequeue_blocks_iff:
  assumes inv: "world_inv w M" and th: "threads w t = Some (WAIT_VALUE_DEQUEUE, cs)"
  shows "\<exists>i. queue_at (shared w) (current_queue cs) = Inr (i, queues (shared w) ! i) \<and>
    (actions WAIT_VALUE_DEQUEUE cs (shared w) = Inl Blocked \<longleftrightarrow>
      current (rr (queues (shared w) ! i)) \<noteq> t \<or> queue_size (queues (shared w) ! i) = 0)"
proof -
  from consumer_dequeues [OF assms] obtain i ret s line q' h' where
    i: "queue_at (shared w) (current_queue cs) = Inr (i, queues (shared w) ! i)"
    and "q_dequeue_turn MAXLINE (queues (shared w) ! i) (heap (shared w)) (recvline cs) = Inr (ret, s, line, q', h')"
    by (auto simp: queue_at_def split: option.splits if_splits)
  moreover have "tid cs = t" "0 \<le> t" "t < int MAX_CONNECTIONS" using inv th by (auto simp: world_inv_def thread_ok_def)
  ultimately show ?thesis
    by (auto simp: action_wait_value_dequeue_def q_dequeue_rr_def wait_round_def wait_msg_def
        must_wait_round_def must_wait_msg_def rr_index_ok)
qed


section \<open>A sample world\<close>

lemma sample_world:
  "\<exists>evs b cs. history two_subscribers [0, 0, 0] evs \<lparr>shared = b, threads = [2 \<mapsto> (WAIT_VALUE_DEQUEUE, cs)]\<rparr> \<and>
     broker_abs b [[0x71] \<mapsto> ([], [2], 2)] \<and> names b (current_queue cs) [0x71]"
proof -
  obtain cs b where
    "machine_step\<^sup>*\<^sup>* (WAIT, init_connection 4 2 (one_by_one waiting_input), init_broker two_subscribers [0, 0, 0])
      (WAIT_VALUE_DEQUEUE, cs, b)" "broker_abs b [[0x71] \<mapsto> ([], [2], 2)]" "names b (current_queue cs) [0x71]"
    using sample_run [of 2 4 two_subscribers] by (auto simp: MAX_CONNECTIONS_def)
  with accepted_history [OF _ _ this(1)] show ?thesis by (auto simp: MAX_CONNECTIONS_def)
qed

text \<open>Then a second connection publishes a message to \<^verbatim>\<open>q\<close>.\<close>

lemma sample_world_with_message:
  "\<exists>evs b cs cs'. history two_subscribers [0, 0, 0] evs
       \<lparr>shared = b, threads = [2 \<mapsto> (WAIT_VALUE_DEQUEUE, cs), 3 \<mapsto> (WAIT_PUBLISH_CONTENT, cs')]\<rparr> \<and>
     broker_abs b [[0x71] \<mapsto> ([[0x68]], [2], 2)]"
proof -
  obtain evs b cs where
    h: "history two_subscribers [0, 0, 0] evs \<lparr>shared = b, threads = [2 \<mapsto> (WAIT_VALUE_DEQUEUE, cs)]\<rparr>"
    and abs: "broker_abs b [[0x71] \<mapsto> ([], [2], 2)]" using sample_world by blast
  let ?pbs = "[sample_publication [0x68]]" and ?w = "\<lparr>shared = b, threads = [2 \<mapsto> (WAIT_VALUE_DEQUEUE, cs)]\<rparr>"
  let ?input = "one_by_one (opening_frames [[], [], [], []] @ concat (map publication_frames ?pbs))"
  let ?cs = "init_connection 5 3 ?input"
  have "world_step ?w [] (?w\<lparr>threads := (threads ?w)(3 \<mapsto> (WAIT, ?cs))\<rparr>)"
    by (rule accept) (simp_all add: MAX_CONNECTIONS_def)
  from more [OF h this] have h1: "history two_subscribers [0, 0, 0] evs (?w\<lparr>threads := (threads ?w)(3 \<mapsto> (WAIT, ?cs))\<rparr>)"
    by simp
  have args: "\<forall>i < 4. length ([[], [], [], []] ! i :: byte list) \<le> MAXLINE - 7"
    by (auto simp: less_Suc_eq numeral_eq_Suc)
  have "rx_bytes (rx ?cs) = opening_frames [[], [], [], []] @ concat (map publication_frames ?pbs)" by simp
  from opening_reaches [OF this args, of b] obtain c1 where
    1: "reaches WAIT ?cs b opening_output (concat (map publication_frames ?pbs)) WAIT_FUNCTIONAL c1 b" by blast
  have rx: "rx_bytes (rx c1) = concat (map publication_frames ?pbs) @ []" using reaches_rest [OF 1] by simp
  have fits: "\<forall>pb \<in> set ?pbs. publication_fits pb \<and> [[0x71] \<mapsto> ([] :: byte list list, [2 :: int], 2 :: int)] (until_nul (pub_queue pb)) \<noteq> None"
    by (simp add: sample_publication_fits MAXLINE_def)
  have room: "room (length ?pbs) [[0x71] \<mapsto> ([], [2], 2)]" by (simp add: room_def INT_MAX_def)
  have m: "WAIT_FUNCTIONAL = WAIT_FUNCTIONAL \<and> ?pbs \<noteq> [] \<or> WAIT_FUNCTIONAL = WAIT_PUBLISH_CONTENT" by simp
  have fold: "fold spec_publication ?pbs [[0x71] \<mapsto> ([], [2], 2)] = [[0x71] \<mapsto> ([[0x68]], [2], 2)]"
    by (simp add: spec_publication_def spec_publish_def until_nul_def)
  from publications_reach [OF m abs fits room rx, unfolded fold] obtain c2 b2 where
    2: "reaches WAIT_FUNCTIONAL c1 b [] [] WAIT_PUBLISH_CONTENT c2 b2"
    and b2: "broker_abs b2 [[0x71] \<mapsto> ([[0x68]], [2], 2)]" by blast
  have "machine_step\<^sup>*\<^sup>* (WAIT, ?cs, b) (WAIT_PUBLISH_CONTENT, c2, b2)"
    using reaches_trans [OF 1 2] by (simp add: reaches_def)
  with world_history [OF h1, of 3 WAIT ?cs "(WAIT_PUBLISH_CONTENT, c2, b2)"] b2 show ?thesis
    by (auto simp: fun_upd_twist)
qed

section \<open>Properties\<close>

text \<open>C2. Refinement: all connections together implement the abstract broker. Whatever the
  clients send and however the threads' actions interleave, the shared memory represents a map from
  names to messages and subscribers that a run of the abstract broker with the same events
  leads to, and every step of a thread is a step of the abstract broker.\<close>

theorem broker_refines_queues:
  assumes "history raw ro evs w" "world_step w ev w'"
  shows "\<exists>M M'. spec_run evs M \<and> broker_abs (shared w) M \<and> spec_step M ev M' \<and> broker_abs (shared w') M'"
proof -
  from history_inv [OF assms(1)] obtain M where M: "world_inv w M" "spec_run evs M" by blast
  with inv_step [OF assms(2)] obtain M' where "world_inv w' M'" "spec_step M ev M'" by blast
  with M show ?thesis unfolding world_inv_def by blast
qed

theorem broker_refines_queues_witness:
  "\<exists>evs w w'. world_step w [] w' \<and> threads w' 3 = Some (WAIT, init_connection 5 3 []) \<and>
     (\<exists>M M'. spec_run evs M \<and> broker_abs (shared w) M \<and> spec_step M [] M' \<and> broker_abs (shared w') M')"
proof -
  obtain evs b cs where
    h: "history two_subscribers [0, 0, 0] evs \<lparr>shared = b, threads = [2 \<mapsto> (WAIT_VALUE_DEQUEUE, cs)]\<rparr>"
    using sample_world by blast
  let ?w = "\<lparr>shared = b, threads = [2 \<mapsto> (WAIT_VALUE_DEQUEUE, cs)]\<rparr>"
  have s: "world_step ?w [] (?w\<lparr>threads := (threads ?w)(3 \<mapsto> (WAIT, init_connection 5 3 []))\<rparr>)"
    by (rule accept) (simp_all add: MAX_CONNECTIONS_def)
  from broker_refines_queues [OF h s] s show ?thesis by fastforce
qed

text \<open>C1. Delivery exactly once and in order: at any moment, in any interleaving of the
  threads' actions, the messages that were published to a queue are those handed to its consumers, in the order they were
  handed, followed by those the linked list of the queue still holds; nothing was published
  to or taken from a queue that does not exist.\<close>

theorem messages_exactly_once:
  assumes "history raw ro evs w"
  shows "case trie_lookup (pool (shared w)) nm of
      None \<Rightarrow> published nm evs = [] \<and> handed nm evs = []
    | Some i \<Rightarrow> \<exists>as ms. queue_rep (heap (shared w)) (queues (shared w) ! i) as ms \<and>
        published nm evs = handed nm evs @ ms"
  using exactly_once [OF assms] .

theorem messages_exactly_once_witness:
  "\<exists>evs b cs. broker_abs b [[0x71] \<mapsto> ([], [2], 2)] \<and>
     history two_subscribers [0, 0, 0] evs \<lparr>shared = b, threads = [2 \<mapsto> (WAIT_VALUE_DEQUEUE, cs)]\<rparr> \<and>
     (\<exists>i as ms. trie_lookup (pool b) [0x71] = Some i \<and> queue_rep (heap b) (queues b ! i) as ms \<and>
       published [0x71] evs = handed [0x71] evs @ ms)"
proof -
  obtain evs b cs where h: "history two_subscribers [0, 0, 0] evs \<lparr>shared = b, threads = [2 \<mapsto> (WAIT_VALUE_DEQUEUE, cs)]\<rparr>"
    "broker_abs b [[0x71] \<mapsto> ([], [2], 2)]" using sample_world by blast
  from abs_dom [OF h(2), of "[0x71]"] obtain i where "trie_lookup (pool b) [0x71] = Some i" by auto
  with messages_exactly_once [OF h(1), of "[0x71]"] h show ?thesis by fastforce
qed
text \<open>C12. Who the subscribers are: the ring of a queue holds, without repetition, exactly the
  threads whose connection is consuming from that queue at that moment, through any
  interleaving of connections that come, subscribe, fail and go.\<close>

theorem subscribers_are_consumers:
  assumes "history raw ro evs w" "trie_lookup (pool (shared w)) nm = Some i"
  shows "\<exists>xs. rr_ring (rr (queues (shared w) ! i)) xs \<and> distinct xs \<and>
    (\<forall>t. t \<in> set xs \<longleftrightarrow> (\<exists>m cs. threads w t = Some (m, cs) \<and>
      m \<in> {WAIT_VALUE_DEQUEUE, VALUE_DEQUEUE_RECEIVED, WAIT_CONSUME_ACK} \<and> current_queue cs = Some i))"
proof -
  from history_inv [OF assms(1)] obtain M where M: "world_inv w M" by blast
  then have abs: "broker_abs (shared w) M"
    and rings: "\<And>ms xs c t. M nm = Some (ms, xs, c) \<Longrightarrow> t \<in> set xs \<longleftrightarrow> consumes w t nm"
    unfolding world_inv_def by blast+
  obtain ms xs c where m: "M nm = Some (ms, xs, c)"
    using abs_dom [OF abs, of nm] assms(2) by (cases "M nm") auto
  have "consumes w t nm \<longleftrightarrow> (\<exists>m cs. threads w t = Some (m, cs) \<and>
      m \<in> {WAIT_VALUE_DEQUEUE, VALUE_DEQUEUE_RECEIVED, WAIT_CONSUME_ACK} \<and> current_queue cs = Some i)" for t
    using assms(2) by (auto simp: consumes_def names_def)
  with rings [OF m] have "\<forall>t. t \<in> set xs \<longleftrightarrow> (\<exists>m cs. threads w t = Some (m, cs) \<and>
      m \<in> {WAIT_VALUE_DEQUEUE, VALUE_DEQUEUE_RECEIVED, WAIT_CONSUME_ACK} \<and> current_queue cs = Some i)" by blast
  moreover have "rr_ring (rr (queues (shared w) ! i)) xs" using abs_ring [OF abs assms(2) m] by (simp add: rr_abs_def)
  ultimately show ?thesis using abs_distinct(1) [OF abs m] by blast
qed

theorem subscribers_are_consumers_witness:
  "\<exists>evs b cs i. history two_subscribers [0, 0, 0] evs \<lparr>shared = b, threads = [2 \<mapsto> (WAIT_VALUE_DEQUEUE, cs)]\<rparr> \<and>
     (\<exists>xs. rr_ring (rr (queues b ! i)) xs \<and> set xs = {2})"
proof -
  obtain evs b cs where
    h: "history two_subscribers [0, 0, 0] evs \<lparr>shared = b, threads = [2 \<mapsto> (WAIT_VALUE_DEQUEUE, cs)]\<rparr>"
    "names b (current_queue cs) [0x71]" using sample_world by blast
  then obtain i where i: "trie_lookup (pool b) [0x71] = Some i" "current_queue cs = Some i" by (auto simp: names_def)
  with subscribers_are_consumers [OF h(1), of "[0x71]" i] obtain xs where
    "rr_ring (rr (queues b ! i)) xs" "\<forall>t. t \<in> set xs \<longleftrightarrow> t = 2" by (auto split: if_splits)
  with h(1) show ?thesis by blast
qed



text \<open>C14. The turn is never lost: as long as a queue has subscribers and messages, the thread
  whose turn it is is one of its consumers; of all threads it alone finds nothing to wait for when it looks at
  the round, nor is there anything to wait for at the message; and what it dequeues then is the oldest
  published message that was not handed over yet. Nothing is said here of a thread that went to
  sleep before: C16 and C17 are about those.\<close>

theorem turn_belongs_to_a_consumer:
  assumes "history raw ro evs w" "trie_lookup (pool (shared w)) nm = Some i"
    and "0 < queue_size (queues (shared w) ! i)" "0 < count (rr (queues (shared w) ! i))"
  shows "\<exists>m cs k rest. threads w (current (rr (queues (shared w) ! i))) = Some (m, cs) \<and> current_queue cs = Some i \<and>
    m \<in> {WAIT_VALUE_DEQUEUE, VALUE_DEQUEUE_RECEIVED, WAIT_CONSUME_ACK} \<and>
    (\<forall>t \<in> {0..<int MAX_CONNECTIONS}. wait_round (rr (queues (shared w) ! i)) t =
      (if t = current (rr (queues (shared w) ! i)) then Inr () else Inl Blocked)) \<and>
    wait_msg (queues (shared w) ! i) = Inr () \<and> published nm evs = handed nm evs @ k # rest \<and>
    (\<forall>dest. \<exists>signalled q' h'. q_dequeue_turn MAXLINE (queues (shared w) ! i) (heap (shared w)) dest =
      Inr (True, signalled, mem_write dest 0 (k @ [0]), q', h'))"
proof -
  let ?b = "shared w" and ?q = "queues (shared w) ! i"
  from history_inv [OF assms(1)] obtain M where M: "world_inv w M" and run: "spec_run evs M" by blast
  then have abs: "broker_abs ?b M"
    and rings: "\<And>ms xs c t. M nm = Some (ms, xs, c) \<Longrightarrow> t \<in> set xs \<longleftrightarrow> consumes w t nm"
    unfolding world_inv_def by blast+
  obtain ms xs c where m: "M nm = Some (ms, xs, c)"
    using abs_dom [OF abs, of nm] assms(2) by (cases "M nm") auto
  from abs_ring [OF abs assms(2) m] assms(4) have xs: "xs \<noteq> []" "current (rr ?q) = c" by (auto simp: rr_abs_def rr_ring_def)
  with abs_distinct(2) [OF abs m] have c: "c \<in> set xs" by blast
  with rings [OF m, of c] have "consumes w c nm" by simp
  then obtain m1 cs where th: "threads w c = Some (m1, cs)" "m1 \<in> consuming" "current_queue cs = Some i"
    using assms(2) by (auto simp: consumes_def names_def)
  from abs_q_size [OF abs assms(2) m] assms(3) obtain k rest where ms: "ms = k # rest"
    by (cases ms) (auto simp: q_size_def)
  have "published nm evs = handed nm evs @ k # rest"
    using spec_conserves [OF run, of nm] m ms by (simp add: messages_def)
  moreover have "\<exists>s q' h'. q_dequeue_turn MAXLINE ?q (heap ?b) dest = Inr (True, s, mem_write dest 0 (k @ [0]), q', h')" for dest
    using abs_deliver [OF abs assms(2) m [unfolded ms] c, of dest] by (auto simp: q_dequeue_rr_def bindE_eq_Inr)
  moreover have "wait_msg ?q = Inr ()" using assms(3) by (simp add: wait_msg_def must_wait_msg_def)
  moreover have "wait_round (rr ?q) t = (if t = current (rr ?q) then Inr () else Inl Blocked)"
    if "t \<in> {0..<int MAX_CONNECTIONS}" for t
    using that by (simp add: wait_round_def must_wait_round_def rr_index_ok)
  ultimately show ?thesis using th xs(2) by auto
qed

theorem turn_belongs_to_a_consumer_witness:
  "\<exists>evs b cs cs' i. history two_subscribers [0, 0, 0] evs
       \<lparr>shared = b, threads = [2 \<mapsto> (WAIT_VALUE_DEQUEUE, cs), 3 \<mapsto> (WAIT_PUBLISH_CONTENT, cs')]\<rparr> \<and>
     trie_lookup (pool b) [0x71] = Some i \<and> wait_round (rr (queues b ! i)) 2 = Inr () \<and>
     (\<exists>k rest signalled q' h'. published [0x71] evs = handed [0x71] evs @ k # rest \<and>
       q_dequeue_turn MAXLINE (queues b ! i) (heap b) zero_buf = Inr (True, signalled, mem_write zero_buf 0 (k @ [0]), q', h'))"
proof -
  obtain evs b cs cs' where
    h: "history two_subscribers [0, 0, 0] evs
       \<lparr>shared = b, threads = [2 \<mapsto> (WAIT_VALUE_DEQUEUE, cs), 3 \<mapsto> (WAIT_PUBLISH_CONTENT, cs')]\<rparr>"
    and abs: "broker_abs b [[0x71] \<mapsto> ([[0x68]], [2], 2)]" using sample_world_with_message by blast
  from abs_dom [OF abs, of "[0x71]"] obtain i where i: "trie_lookup (pool b) [0x71] = Some i" by auto
  have m: "[[0x71] \<mapsto> ([[0x68]], [2], 2)] [0x71] = Some ([[0x68]], [2], 2)" by simp
  from abs_ring [OF abs i m] have r: "count (rr (queues b ! i)) = 1" "current (rr (queues b ! i)) = 2" by (auto simp: rr_abs_def rr_ring_def)
  have "queue_size (queues b ! i) = 1" using abs_q_size [OF abs i m] by (simp add: q_size_def)
  with turn_belongs_to_a_consumer [OF h, of "[0x71]" i] i r(1) obtain k rest where
    k: "\<forall>t \<in> {0..<int MAX_CONNECTIONS}. wait_round (rr (queues b ! i)) t =
      (if t = current (rr (queues b ! i)) then Inr () else Inl Blocked)" "published [0x71] evs = handed [0x71] evs @ k # rest"
      "\<forall>dest. \<exists>signalled q' h'. q_dequeue_turn MAXLINE (queues b ! i) (heap b) dest =
        Inr (True, signalled, mem_write dest 0 (k @ [0]), q', h')" by auto
  from k(1) [rule_format, of 2] r(2) have "wait_round (rr (queues b ! i)) 2 = Inr ()" by (simp add: MAX_CONNECTIONS_def)
  with h i k(2) k(3) [rule_format, of zero_buf] show ?thesis by blast
qed

end
