(* ===== verification/Memory.thy ===== *)
theory Memory
  imports Safety
begin

text \<open>
  What the broker keeps in memory: the nodes in the heap are the messages that wait in the queues,
  no more and no less.
\<close>

section \<open>Every node belongs to a waiting message\<close>

definition heap_exact :: "broker \<Rightarrow> bool" where
  "heap_exact b \<longleftrightarrow> finite (dom (nodes (heap b))) \<and>
     int (card (dom (nodes (heap b)))) = (\<Sum>q\<leftarrow>queues b. queue_size q)"

lemma sum_sizes_update:
  "i < length qs \<Longrightarrow> (\<Sum>q\<leftarrow>qs[i := q']. queue_size q) = (\<Sum>q\<leftarrow>qs. queue_size q) + queue_size q' - queue_size (qs ! i)"
  by (induction qs arbitrary: i) (auto split: nat.splits)

text \<open>A new node is at an address of its own; a node that is freed was there.\<close>

lemma enqueue_allocates:
  assumes "q_enqueue q h m = Inr (q', h')" "heap_ok h"
  shows "dom (nodes h') = insert (next_addr h) (dom (nodes h)) \<and> next_addr h \<notin> dom (nodes h) \<and>
    queue_size q' = queue_size q + 1"
  using assms heap_ok_fresh [OF assms(2)]
  by (auto simp: q_enqueue_def malloc_node_def deref_def bindE_eq_Inr Let_def split: if_splits option.splits)

lemma turn_frees:
  assumes "q_dequeue_turn cap q h dest = Inr (ret, signalled, dest', q', h')"
  shows "dom (nodes h') = dom (nodes h) \<and> queue_size q' = queue_size q \<or>
    (\<exists>a. a \<in> dom (nodes h) \<and> dom (nodes h') = dom (nodes h) - {a} \<and> queue_size q' = queue_size q - 1)"
  using assms
  by (auto simp: q_dequeue_turn_def q_dequeue_def free_node_def deref_def bindE_eq_Inr Let_def
      split: if_splits option.splits)

lemma queue_at_eq_Inr: "queue_at b p = Inr (i, q) \<longleftrightarrow> p = Some i \<and> i < length (queues b) \<and> q = queues b ! i"
  by (auto simp: queue_at_def split: option.splits)

lemma exact_put:
  assumes "heap_exact b" "i < length (queues b)" "finite (dom (nodes h'))"
    and "int (card (dom (nodes h'))) - int (card (dom (nodes (heap b)))) = queue_size q' - queue_size (queues b ! i)"
  shows "heap_exact (put_queue b i q' h')"
  using assms by (simp add: heap_exact_def put_queue_def sum_sizes_update)

lemma exact_enqueue:
  assumes "heap_exact b" "queue_at b p = Inr (i, q)" "q_enqueue q (heap b) m = Inr (q', h')" "heap_ok (heap b)"
  shows "heap_exact (put_queue b i q' h')"
  using enqueue_allocates [OF assms(3,4)] assms(1,2) by (intro exact_put) (auto simp: heap_exact_def queue_at_eq_Inr)

lemma exact_turn:
  assumes "heap_exact b" "queue_at b p = Inr (i, q)" "q_dequeue_turn cap q (heap b) dest = Inr (ret, signalled, dest', q', h')"
  shows "heap_exact (put_queue b i q' h')"
proof -
  have fin: "finite (dom (nodes (heap b)))" using assms(1) by (simp add: heap_exact_def)
  have "int (card (dom (nodes (heap b)) - {a})) = int (card (dom (nodes (heap b)))) - 1" if "a \<in> dom (nodes (heap b))" for a
    using card.remove [OF fin that] by simp
  with turn_frees [OF assms(3)]
  have "int (card (dom (nodes h'))) - int (card (dom (nodes (heap b)))) = queue_size q' - queue_size q"
    "finite (dom (nodes h'))" using fin by (elim disjE exE conjE; simp)+
  with assms(1,2) show ?thesis by (intro exact_put) (simp_all add: queue_at_eq_Inr)
qed

lemma exact_create:
  assumes "heap_exact b" "create_queue b nm = Inr (p, b')"
  shows "heap_exact b'"
  using assms by (auto simp: create_queue_def heap_exact_def new_queue_eq_Inr bindE_eq_Inr Let_def split: option.splits if_splits)

lemma exact_effect:
  assumes "effect m cs b m' cs' b'" "heap_exact b" "heap_ok (heap b)"
  shows "heap_exact b'"
  using assms(1)
proof (cases rule: effect.cases)
  case (declare_queue nm)
  with exact_create assms(2) show ?thesis by blast
next
  case (find_queue nm)
  with assms(2) show ?thesis by (auto simp: get_queue_lookup heap_exact_def)
next
  case (enqueue i q msg q' h')
  with exact_enqueue assms(2,3) show ?thesis by blast
next
  case (dequeue i q ret signalled line q' h')
  with exact_turn assms(2) show ?thesis by blast
next
  case (subscribe i q rr')
  with assms(2) exact_put [of b i "heap b" "q\<lparr>rr := rr'\<rparr>"] show ?thesis by (simp add: queue_at_eq_Inr heap_exact_def)
next
  case (leave i q rr')
  with assms(2) exact_put [of b i "heap b" "q\<lparr>rr := rr'\<rparr>"] show ?thesis by (simp add: queue_at_eq_Inr heap_exact_def)
qed (use assms(2) in simp)

lemma history_heap_ok: "history raw ro evs w \<Longrightarrow> heap_ok (heap (shared w))"
  using history_inv [of raw ro evs w] by (auto simp: world_inv_def broker_abs_def broker_rep_def)

lemma history_exact: "history raw ro evs w \<Longrightarrow> heap_exact (shared w)"
proof (induction rule: history.induct)
  case start
  then show ?case by (simp add: heap_exact_def init_world_def init_broker_def empty_heap_def)
next
  case (more evs w ev w')
  note ok = history_heap_ok [OF more.hyps(1)]
  from more.hyps(2) show ?case
  proof (cases rule: world_step.cases)
    case (work t m cs m' cs' b')
    then have "effect m cs (shared w) m' cs' b'" by (auto simp: machine_step_simp intro: action_effect)
    from exact_effect [OF this more.IH ok] work show ?thesis by simp
  next
    case (wake t cs i q ret signalled line q' h')
    from exact_turn [OF more.IH wake(4,5)] wake show ?thesis by simp
  qed (use more.IH in simp_all)
qed

text \<open>With no node lost, the nodes of the heap are those of the queues.\<close>

lemma exact_nodes:
  assumes "heap_exact b" "broker_rep b as ms xs"
  shows "dom (nodes (heap b)) = (\<Union>p < length (queues b). set (as p))"
proof -
  let ?n = "length (queues b)"
  have rep: "p < ?n \<Longrightarrow> queue_rep (heap b) (queues b ! p) (as p) (ms p)" for p using assms(2) by (simp add: broker_rep_def)
  have sub: "(\<Union>p < ?n. set (as p)) \<subseteq> dom (nodes (heap b))"
    using rep holds_allocated unfolding queue_rep_def by blast
  have size: "int (card (set (as p))) = queue_size (queues b ! p)" if "p < ?n" for p
    using rep [OF that] by (auto simp: queue_rep_def distinct_card dest: holds_length)
  have "\<forall>p \<in> {..<?n}. \<forall>p' \<in> {..<?n}. p \<noteq> p' \<longrightarrow> set (as p) \<inter> set (as p') = {}"
    using assms(2) by (simp add: broker_rep_def)
  then have "int (card (\<Union>p < ?n. set (as p))) = (\<Sum>p < ?n. int (card (set (as p))))"
    by (subst card_UN_disjoint) auto
  also have "\<dots> = (\<Sum>p < ?n. queue_size (queues b ! p))" using size by (intro sum.cong) auto
  also have "\<dots> = int (card (dom (nodes (heap b))))"
    using assms(1) by (simp add: heap_exact_def sum_list_sum_nth atLeast0LessThan)
  finally show ?thesis using card_subset_eq [OF _ sub] assms(1) by (simp add: heap_exact_def)
qed

section \<open>Properties\<close>

text \<open>C10. No message leaks: in every reachable state the heap holds exactly as many message nodes as
  the sizes of the queues say, and the size of each queue is the number of messages published to
  it less the number handed over.\<close>

theorem no_message_leaks:
  assumes "history raw ro evs w"
  shows "finite (dom (nodes (heap (shared w)))) \<and>
    int (card (dom (nodes (heap (shared w))))) = (\<Sum>q\<leftarrow>queues (shared w). queue_size q) \<and>
    (\<forall>q \<in> set (queues (shared w)).
      queue_size q = int (length (published (name q) evs)) - int (length (handed (name q) evs)))"
proof -
  have "pool_ok (shared w)" using history_inv [OF assms] by (auto simp: world_inv_def dest: abs_pool_ok)
  then have look: "p < length (queues (shared w)) \<Longrightarrow>
      trie_lookup (pool (shared w)) (name (queues (shared w) ! p)) = Some p" for p unfolding pool_ok_def by blast
  have "queue_size q = int (length (published (name q) evs)) - int (length (handed (name q) evs))"
    if "q \<in> set (queues (shared w))" for q
  proof -
    from that obtain p where p: "p < length (queues (shared w))" "q = queues (shared w) ! p" by (auto simp: in_set_conv_nth)
    from exactly_once [OF assms, of "name q"] look [OF p(1)] p(2) show ?thesis by (auto simp: queue_rep_def)
  qed
  with history_exact [OF assms] show ?thesis by (simp add: heap_exact_def)
qed

theorem no_message_leaks_witness:
  "\<exists>evs w i. history two_subscribers [0, 0, 0] evs w \<and> trie_lookup (pool (shared w)) [0x71] = Some i \<and>
     queue_size (queues (shared w) ! i) = 1 \<and>
     int (length (published [0x71] evs)) - int (length (handed [0x71] evs)) = 1 \<and>
     int (card (dom (nodes (heap (shared w))))) = (\<Sum>q\<leftarrow>queues (shared w). queue_size q)"
proof -
  obtain evs b cs cs' where
    h: "history two_subscribers [0, 0, 0] evs \<lparr>shared = b, threads = [2 \<mapsto> (WAIT_VALUE_DEQUEUE, cs), 3 \<mapsto> (WAIT_PUBLISH_CONTENT, cs')]\<rparr>"
    and abs: "broker_abs b [[0x71] \<mapsto> ([[0x68]], [2], 2)]" using sample_world_with_message by blast
  from abs_dom [OF abs, of "[0x71]"] obtain i where i: "trie_lookup (pool b) [0x71] = Some i" by auto
  from pool_lookup [OF abs_pool_ok [OF abs] i] have p: "i < length (queues b)" "name (queues b ! i) = [0x71]" by auto
  from abs obtain as ms xs where rep: "broker_rep b as ms xs"
    and "\<forall>nm p. trie_lookup (pool b) nm = Some p \<longrightarrow>
      (\<exists>c. [[0x71] \<mapsto> ([[0x68]], [2 :: int], 2 :: int)] nm = Some (ms p, xs p, c) \<and> rr_abs (rr (queues b ! p)) (xs p, c))"
    unfolding broker_abs_def by blast
  with i have "ms i = [[0x68]]" by fastforce
  with broker_rep_queue(1) [OF rep p(1)] have "queue_size (queues b ! i) = 1" by (simp add: queue_rep_def)
  moreover from no_message_leaks [OF h] p nth_mem [OF p(1)]
  have "queue_size (queues b ! i) = int (length (published [0x71] evs)) - int (length (handed [0x71] evs))"
    "int (card (dom (nodes (heap b)))) = (\<Sum>q\<leftarrow>queues b. queue_size q)" by fastforce+
  ultimately show ?thesis using h i by (metis world.select_convs(1))
qed

end
