(* ===== verification/Pool_Steps.thy ===== *)
theory Pool_Steps
  imports Queue_Pool "HOL-Library.Sublist"
begin

text \<open>
  The queue pool at the grain of its pointers: trie nodes in a heap, \<^verbatim>\<open>_get_trie_node\<close> as the
  walk along \<^verbatim>\<open>children\<close> that it is, and threads that take its steps in any order.
  \<^verbatim>\<open>create_queue\<close> walks under the mutex of the pool and sets the queue under that of the node;
  \<^verbatim>\<open>get_queue\<close> walks, and makes missing nodes, under no lock.
\<close>

section \<open>Trie nodes in a heap\<close>

record trie_cell =
  cell_q :: "nat option"
  cell_children :: "byte \<Rightarrow> nat option"

record trie_heap =
  cells :: "nat \<Rightarrow> trie_cell option"
  next_cell :: nat

text \<open>\<^verbatim>\<open>bzero\<close> of a node; the pool is the node at address 0.\<close>

definition blank_cell :: trie_cell where
  "blank_cell = \<lparr>cell_q = None, cell_children = (\<lambda>_. None)\<rparr>"

definition init_trie_heap :: trie_heap where
  "init_trie_heap = \<lparr>cells = [0 \<mapsto> blank_cell], next_cell = 1\<rparr>"

definition cell_at :: "trie_heap \<Rightarrow> nat \<Rightarrow> trie_cell result" where
  "cell_at h a = (case cells h a of None \<Rightarrow> Inl (UB Dangling) | Some cell \<Rightarrow> Inr cell)"

definition put_cell :: "trie_heap \<Rightarrow> nat \<Rightarrow> trie_cell \<Rightarrow> trie_heap" where
  "put_cell h a cell = h\<lparr>cells := (cells h)(a \<mapsto> cell)\<rparr>"

text \<open>A new node, linked as the child \<open>c\<close> of the node at \<open>a\<close>, whatever pointer was there.\<close>

definition make_child :: "trie_heap \<Rightarrow> nat \<Rightarrow> byte \<Rightarrow> (nat \<times> trie_heap) result" where
  "make_child h a c =
     bindE (cell_at h a) (\<lambda>root.
     let child = next_cell h;
         h = put_cell (h\<lparr>next_cell := Suc child\<rparr>) child blank_cell
     in Inr (child, put_cell h a (root\<lparr>cell_children := (cell_children root)(c \<mapsto> child)\<rparr>)))"

fun walk :: "trie_heap \<Rightarrow> nat \<Rightarrow> byte list \<Rightarrow> (nat \<times> trie_heap) result" where
  "walk h root [] = Inr (root, h)"
| "walk h root (c # nm) =
     bindE (cell_at h root) (\<lambda>cell.
     case cell_children cell c of
       Some child \<Rightarrow> walk h child nm
     | None \<Rightarrow> bindE (make_child h root c) (\<lambda>(child, h). walk h child nm))"

definition set_cell_q :: "trie_heap \<Rightarrow> nat \<Rightarrow> nat \<Rightarrow> trie_heap result" where
  "set_cell_q h a p = bindE (cell_at h a) (\<lambda>cell. Inr (put_cell h a (cell\<lparr>cell_q := Some p\<rparr>)))"

section \<open>Paths\<close>

fun path_to :: "trie_heap \<Rightarrow> nat \<Rightarrow> byte list \<Rightarrow> nat option" where
  "path_to h a [] = Some a"
| "path_to h a (c # nm) =
     (case cells h a of None \<Rightarrow> None
      | Some cell \<Rightarrow> (case cell_children cell c of None \<Rightarrow> None | Some b \<Rightarrow> path_to h b nm))"

text \<open>Every node is the child of one node only: \<open>P\<close> names it by the bytes that lead to it.\<close>

definition paths_ok :: "(nat \<Rightarrow> byte list) \<Rightarrow> trie_heap \<Rightarrow> bool" where
  "paths_ok P h \<longleftrightarrow> cells h 0 \<noteq> None \<and> P 0 = [] \<and> (\<forall>a \<ge> next_cell h. cells h a = None) \<and>
     (\<forall>a cell c b. cells h a = Some cell \<longrightarrow> cell_children cell c = Some b \<longrightarrow>
        cells h b \<noteq> None \<and> P b = P a @ [c])"

lemma paths_ok_init: "paths_ok (\<lambda>_. []) init_trie_heap"
  by (auto simp: paths_ok_def init_trie_heap_def blank_cell_def)

lemma path_to_append:
  "path_to h a (nm @ k) = (case path_to h a nm of None \<Rightarrow> None | Some b \<Rightarrow> path_to h b k)"
  by (induction nm arbitrary: a) (auto split: option.splits)

lemma path_to_P:
  "paths_ok P h \<Longrightarrow> cells h a \<noteq> None \<Longrightarrow> path_to h a nm = Some b \<Longrightarrow> cells h b \<noteq> None \<and> P b = P a @ nm"
proof (induction nm arbitrary: a)
  case (Cons c nm)
  from Cons.prems obtain cell d where d: "cells h a = Some cell" "cell_children cell c = Some d" "path_to h d nm = Some b"
    by (auto split: option.splits)
  with Cons.prems(1) have "cells h d \<noteq> None" "P d = P a @ [c]" unfolding paths_ok_def by blast+
  with Cons.IH [OF Cons.prems(1)] d(3) show ?case by simp
qed simp

text \<open>Distinct names lead to distinct nodes.\<close>

lemma path_to_inj:
  "paths_ok P h \<Longrightarrow> path_to h 0 nm = Some a \<Longrightarrow> path_to h 0 k = Some a \<Longrightarrow> nm = k"
  using path_to_P [of P h 0 nm a] path_to_P [of P h 0 k a] by (simp add: paths_ok_def)

lemma root_path: "paths_ok P h \<Longrightarrow> path_to h 0 nm = Some a \<Longrightarrow> cells h a \<noteq> None \<and> P a = nm"
  using path_to_P [of P h 0 nm a] by (simp add: paths_ok_def)

text \<open>Linking a new node.\<close>

lemma make_child_eq:
  "cells h a = Some cell \<Longrightarrow> make_child h a c = Inr (next_cell h,
     \<lparr>cells = (cells h)(next_cell h \<mapsto> blank_cell, a \<mapsto> cell\<lparr>cell_children := (cell_children cell)(c \<mapsto> next_cell h)\<rparr>),
      next_cell = Suc (next_cell h)\<rparr>)"
  by (simp add: make_child_def cell_at_def put_cell_def Let_def)

lemma paths_okD:
  assumes "paths_ok P h"
  shows "cells h 0 \<noteq> None" "P 0 = []" "next_cell h \<le> a \<Longrightarrow> cells h a = None"
    "cells h a = Some cell \<Longrightarrow> cell_children cell c = Some b \<Longrightarrow> cells h b \<noteq> None"
    "cells h a = Some cell \<Longrightarrow> cell_children cell c = Some b \<Longrightarrow> P b = P a @ [c]"
  using assms unfolding paths_ok_def by blast+

lemma paths_okI:
  assumes "cells h 0 \<noteq> None" "P 0 = []" "\<And>a. next_cell h \<le> a \<Longrightarrow> cells h a = None"
    and "\<And>a cell c b. cells h a = Some cell \<Longrightarrow> cell_children cell c = Some b \<Longrightarrow>
      cells h b \<noteq> None \<and> P b = P a @ [c]"
  shows "paths_ok P h"
  using assms unfolding paths_ok_def by blast

lemma make_child_paths:
  assumes ok: "paths_ok P h" and a: "cells h a = Some cell" and m: "make_child h a c = Inr (b, h')"
  shows "paths_ok (P(b := P a @ [c])) h'" "cells h b = None" "b \<noteq> 0"
proof -
  note D = paths_okD [OF ok]
  from m make_child_eq [OF a, of c] have b: "b = next_cell h"
    and h': "h' = \<lparr>cells = (cells h)(b \<mapsto> blank_cell, a \<mapsto> cell\<lparr>cell_children := (cell_children cell)(c \<mapsto> b)\<rparr>),
      next_cell = Suc b\<rparr>" by auto
  show new: "cells h b = None" using D(3) by (simp add: b)
  with D(1) show nz: "b \<noteq> 0" by metis
  from new a have ab: "a \<noteq> b" by auto
  show "paths_ok (P(b := P a @ [c])) h'"
  proof (rule paths_okI)
    show "cells h' 0 \<noteq> None" using D(1) by (simp add: h')
    show "(P(b := P a @ [c])) 0 = []" using nz D(2) by simp
    show "next_cell h' \<le> x \<Longrightarrow> cells h' x = None" for x using D(3) [of x] a D(3) [of a] by (auto simp: h' b)
    fix x cx k y assume x: "cells h' x = Some cx" "cell_children cx k = Some y"
    show "cells h' y \<noteq> None \<and> (P(b := P a @ [c])) y = (P(b := P a @ [c])) x @ [k]"
    proof (cases "x = a \<and> k = c")
      case True
      with x ab show ?thesis by (auto simp: h')
    next
      case False
      have xb: "x \<noteq> b" using x ab by (auto simp: h' blank_cell_def)
      with False x obtain cx0 where c0: "cells h x = Some cx0" "cell_children cx0 k = Some y"
        using a by (cases "x = a") (auto simp: h')
      with D(4,5) new have "cells h y \<noteq> None" "P y = P x @ [k]" "y \<noteq> b" by blast+
      with xb show ?thesis by (auto simp: h')
    qed
  qed
qed

text \<open>What it changes: one new path, when nothing was there.\<close>

lemma make_child_path_to:
  assumes "paths_ok P h" "cells h a = Some cell" "cell_children cell c = None" "make_child h a c = Inr (b, h')"
    and "cells h x \<noteq> None"
  shows "path_to h' x k = (case path_to h x k of Some y \<Rightarrow> Some y
    | None \<Rightarrow> if k \<noteq> [] \<and> last k = c \<and> path_to h x (butlast k) = Some a then Some b else None)"
  using assms(5)
proof (induction k arbitrary: x)
  case (Cons d k)
  from assms(4) make_child_eq [OF assms(2), of c] have h': "b = next_cell h"
    "cells h' = (cells h)(next_cell h \<mapsto> blank_cell, a \<mapsto> cell\<lparr>cell_children := (cell_children cell)(c \<mapsto> next_cell h)\<rparr>)"
    by auto
  have fresh: "a \<noteq> b" "x \<noteq> b" using assms(1,2) Cons.prems by (auto simp: paths_ok_def h')
  obtain cx where cx: "cells h x = Some cx" using Cons.prems by blast
  show ?case
  proof (cases "cell_children cx d")
    case (Some y)
    then have y: "cells h y \<noteq> None" using paths_okD(4) [OF assms(1) cx] by blast
    have "path_to h' x (d # k) = path_to h' y k" using Some cx fresh assms(2,3) by (cases "x = a") (auto simp: h')
    moreover have "path_to h x (d # l) = path_to h y l" for l using Some cx by simp
    ultimately show ?thesis using Cons.IH [OF y] by (cases k) (auto simp del: path_to.simps(2) split: option.splits)
  next
    case None
    then have n: "path_to h x (d # l) = None" for l using cx by simp
    show ?thesis
    proof (cases "x = a \<and> d = c")
      case True
      have "path_to h' b k = (if k = [] then Some b else None)" using fresh(1)
        by (cases k) (auto simp: h' blank_cell_def)
      moreover have "path_to h' x (d # k) = path_to h' b k" using True fresh by (simp add: h')
      ultimately show ?thesis using True n by (cases k) (simp_all del: path_to.simps(2))
    next
      case False
      with None cx fresh assms(2) have "path_to h' x (d # k) = None" by (cases "x = a") (auto simp: h')
      with False n show ?thesis by (cases k) (auto simp del: path_to.simps(2))
    qed
  qed
qed simp

section \<open>The tree that a heap represents\<close>

text \<open>Which names have a node, and the queue there.\<close>

definition heap_shape :: "trie_heap \<Rightarrow> byte list \<Rightarrow> nat option option" where
  "heap_shape h k = (case path_to h 0 k of None \<Rightarrow> None | Some a \<Rightarrow> map_option cell_q (cells h a))"

definition trie_shape :: "trie_node \<Rightarrow> byte list \<Rightarrow> nat option option" where
  "trie_shape t k = map_option node_q (node_at t k)"

definition trie_rep :: "trie_heap \<Rightarrow> trie_node \<Rightarrow> bool" where
  "trie_rep h t \<longleftrightarrow> (\<exists>P. paths_ok P h) \<and> heap_shape h = trie_shape t"

definition extended :: "(byte list \<Rightarrow> nat option option) \<Rightarrow> byte list \<Rightarrow> byte list \<Rightarrow> nat option option" where
  "extended f nm k = (if f k = None \<and> prefix k nm then Some None else f k)"

lemma heap_shape_None: "paths_ok P h \<Longrightarrow> heap_shape h k = None \<longleftrightarrow> path_to h 0 k = None"
  using root_path [of P h k] by (auto simp: heap_shape_def split: option.splits)

lemma trie_shape_simps [simp]:
  "trie_shape t [] = Some (node_q t)"
  "trie_shape (Trie_Node q ch) (c # k) = (case ch c of None \<Rightarrow> None | Some t \<Rightarrow> trie_shape t k)"
  by (auto simp: trie_shape_def split: option.splits)

lemma trie_shape_init: "trie_shape init_queue_pool k = (if k = [] then Some None else None)"
  by (cases k) (auto simp: init_queue_pool_def)

lemma trie_shape_get: "trie_shape (get_trie_node t nm) k = extended (trie_shape t) nm k"
proof (induction t nm arbitrary: k rule: get_trie_node.induct)
  case (1 root)
  then show ?case by (cases k) (auto simp: extended_def)
next
  case (2 q ch c nm)
  then show ?case
    by (cases k) (auto simp: extended_def Let_def trie_shape_init split: option.splits if_splits)
qed

lemma trie_shape_set:
  "trie_shape t nm \<noteq> None \<Longrightarrow> trie_shape (set_q_at t nm p) k = ((trie_shape t)(nm := Some (Some p))) k"
proof (induction t nm p arbitrary: k rule: set_q_at.induct)
  case (1 q ch p)
  then show ?case by (cases k) auto
next
  case (2 q ch c nm p)
  then show ?case by (cases k) (auto split: option.splits)
qed

lemma make_child_shape:
  assumes ok: "paths_ok P h" and pre: "path_to h 0 pre = Some a"
    and a: "cells h a = Some cell" "cell_children cell c = None" and m: "make_child h a c = Inr (b, h')"
  shows "path_to h' 0 k = (if k = pre @ [c] then Some b else path_to h 0 k)"
    "heap_shape h' = (heap_shape h)(pre @ [c] := Some None)"
proof -
  have z: "cells h 0 \<noteq> None" using paths_okD(1) [OF ok] .
  have new: "path_to h 0 (pre @ [c]) = None" using pre a by (simp add: path_to_append)
  have eq: "k \<noteq> [] \<and> last k = c \<and> path_to h 0 (butlast k) = Some a \<longleftrightarrow> k = pre @ [c]" for k
    using path_to_inj [OF ok pre, of "butlast k"] pre by (cases k rule: rev_cases) auto
  show p: "path_to h' 0 k = (if k = pre @ [c] then Some b else path_to h 0 k)" for k
    unfolding make_child_path_to [OF ok a m z] eq using new by (auto split: option.splits)
  from m make_child_eq [OF a(1), of c] have b: "b = next_cell h"
    "cells h' = (cells h)(b \<mapsto> blank_cell, a \<mapsto> cell\<lparr>cell_children := (cell_children cell)(c \<mapsto> b)\<rparr>)" by auto
  have ab: "a \<noteq> b" using paths_okD(3) [OF ok, of b] a(1) b(1) by auto
  have q: "map_option cell_q (cells h' x) = map_option cell_q (cells h x)" if "path_to h 0 k = Some x" for k x
    using root_path [OF ok that] paths_okD(3) [OF ok, of b] a(1) b by auto
  show "heap_shape h' = (heap_shape h)(pre @ [c] := Some None)"
  proof
    fix k show "heap_shape h' k = ((heap_shape h)(pre @ [c] := Some None)) k"
      using q [of k] ab by (auto simp: heap_shape_def p b blank_cell_def split: option.splits)
  qed
qed

text \<open>A walk makes the nodes on its way and nothing else.\<close>

lemma walk_shape:
  assumes "paths_ok P h" "path_to h 0 pre = Some a"
  shows "\<exists>b h' P'. walk h a nm = Inr (b, h') \<and> paths_ok P' h' \<and> path_to h' 0 (pre @ nm) = Some b \<and>
    heap_shape h' = extended (heap_shape h) (pre @ nm)"
  using assms
proof (induction nm arbitrary: h a pre P)
  case Nil
  have "heap_shape h k \<noteq> None" if k: "prefix k pre" for k
  proof -
    from k obtain s where "pre = k @ s" by (rule prefixE)
    with Nil(2) heap_shape_None [OF Nil(1), of k] show ?thesis by (auto simp: path_to_append split: option.splits)
  qed
  then have "extended (heap_shape h) pre = heap_shape h" by (auto simp: extended_def fun_eq_iff)
  with Nil show ?case by auto
next
  case (Cons c nm)
  from root_path [OF Cons.prems] obtain cell where cell: "cells h a = Some cell" by blast
  show ?case
  proof (cases "cell_children cell c")
    case (Some b)
    with Cons.prems(2) cell have "path_to h 0 (pre @ [c]) = Some b" by (simp add: path_to_append)
    from Cons.IH [OF Cons.prems(1) this] Some cell show ?thesis by (simp add: cell_at_def)
  next
    case None
    obtain b h1 where m: "make_child h a c = Inr (b, h1)" using make_child_eq [OF cell] by blast
    note s = make_child_shape [OF Cons.prems cell None m]
    have "path_to h1 0 (pre @ [c]) = Some b" by (simp add: s(1))
    from Cons.IH [OF make_child_paths(1) [OF Cons.prems(1) cell m] this] obtain b' h' P' where
      w: "walk h1 b nm = Inr (b', h')" "paths_ok P' h'" "path_to h' 0 (pre @ c # nm) = Some b'"
        "heap_shape h' = extended (heap_shape h1) (pre @ c # nm)" by auto
    have "heap_shape h (pre @ [c]) = None"
      using Cons.prems(2) cell None by (simp add: heap_shape_def path_to_append)
    then have "extended (heap_shape h1) (pre @ c # nm) = extended (heap_shape h) (pre @ c # nm)"
      by (auto simp: s(2) extended_def)
    with w m None cell show ?thesis by (auto simp: cell_at_def)
  qed
qed

lemma set_cell_q_shape:
  assumes ok: "paths_ok P h" and nm: "path_to h 0 nm = Some a"
  shows "\<exists>h'. set_cell_q h a p = Inr h' \<and> paths_ok P h' \<and> path_to h' = path_to h \<and>
    heap_shape h' = (heap_shape h)(nm := Some (Some p))"
proof -
  from root_path [OF assms] obtain cell where cell: "cells h a = Some cell" by blast
  let ?h = "put_cell h a (cell\<lparr>cell_q := Some p\<rparr>)"
  have path: "path_to ?h x k = path_to h x k" for x k
    by (induction k arbitrary: x) (auto simp: put_cell_def cell split: option.splits)
  have cells: "cells ?h x = (if x = a then Some (cell\<lparr>cell_q := Some p\<rparr>) else cells h x)" for x
    by (simp add: put_cell_def)
  have "paths_ok P ?h"
  proof (rule paths_okI)
    show "cells ?h 0 \<noteq> None" "P 0 = []" using paths_okD [OF ok] by (auto simp: put_cell_def)
    show "next_cell ?h \<le> x \<Longrightarrow> cells ?h x = None" for x
      using paths_okD(3) [OF ok] cell by (auto simp: put_cell_def)
    show "cells ?h b \<noteq> None \<and> P b = P x @ [c]"
      if "cells ?h x = Some cx" "cell_children cx c = Some b" for x cx c b
      using that paths_okD(4,5) [OF ok, of x _ c b] cell by (auto simp: put_cell_def split: if_splits)
  qed
  moreover have "heap_shape ?h k = ((heap_shape h)(nm := Some (Some p))) k" for k
  proof (cases "path_to h 0 k = Some a")
    case True
    with path_to_inj [OF ok nm, of k] show ?thesis by (simp add: heap_shape_def path cells)
  next
    case False
    then have "k \<noteq> nm" using nm by auto
    with False show ?thesis by (auto simp: heap_shape_def path cells split: option.splits)
  qed
  moreover have "path_to ?h = path_to h" using path by blast
  ultimately show ?thesis using cell by (auto simp: set_cell_q_def cell_at_def)
qed

section \<open>Threads that walk at the same time\<close>

datatype lookup_task = Get (task_name: "byte list") | Create (task_name: "byte list")

text \<open>
  What a thread is about to do: go on from a node with the rest of the name; make a child that
  it saw missing; look at the queue of the node it found; or it has its answer.
\<close>

datatype walker = Idle | Walking lookup_task nat "byte list" | Missing lookup_task nat byte "byte list"
  | Found "byte list" nat | Answer lookup_task "nat option"

text \<open>\<open>allocated\<close> are the names of the queues made by \<^verbatim>\<open>new_queue\<close>, \<open>holder\<close> who has the mutex of
  the pool.\<close>

record pool_run =
  mem :: trie_heap
  allocated :: "byte list list"
  holder :: "int option"
  doing :: "int \<Rightarrow> walker"

definition init_pool_run :: pool_run where
  "init_pool_run = \<lparr>mem = init_trie_heap, allocated = [], holder = None, doing = (\<lambda>_. Idle)\<rparr>"

definition does :: "pool_run \<Rightarrow> int \<Rightarrow> walker \<Rightarrow> pool_run" where
  "does s t w = s\<lparr>doing := (doing s)(t := w)\<rparr>"

inductive pool_step :: "pool_run \<Rightarrow> pool_run \<Rightarrow> bool" where
  get: "doing s t = Idle \<Longrightarrow> pool_step s (does s t (Walking (Get nm) 0 nm))"
| create: "doing s t = Idle \<Longrightarrow> holder s = None \<Longrightarrow>
    pool_step s (does (s\<lparr>holder := Some t\<rparr>) t (Walking (Create nm) 0 nm))"
| down: "doing s t = Walking k a (c # nm) \<Longrightarrow> cell_at (mem s) a = Inr cell \<Longrightarrow> cell_children cell c = Some b \<Longrightarrow>
    pool_step s (does s t (Walking k b nm))"
| missing: "doing s t = Walking k a (c # nm) \<Longrightarrow> cell_at (mem s) a = Inr cell \<Longrightarrow> cell_children cell c = None \<Longrightarrow>
    pool_step s (does s t (Missing k a c nm))"
| make: "doing s t = Missing k a c nm \<Longrightarrow> make_child (mem s) a c = Inr (b, h) \<Longrightarrow>
    pool_step s (does (s\<lparr>mem := h\<rparr>) t (Walking k b nm))"
| got: "doing s t = Walking (Get nm) a [] \<Longrightarrow> cell_at (mem s) a = Inr cell \<Longrightarrow>
    pool_step s (does s t (Answer (Get nm) (cell_q cell)))"
| unlock: "doing s t = Walking (Create nm) a [] \<Longrightarrow>
    pool_step s (does (s\<lparr>holder := None\<rparr>) t (Found nm a))"
| there: "doing s t = Found nm a \<Longrightarrow> cell_at (mem s) a = Inr cell \<Longrightarrow> cell_q cell = Some p \<Longrightarrow>
    pool_step s (does s t (Answer (Create nm) (Some p)))"
| fill: "doing s t = Found nm a \<Longrightarrow> cell_at (mem s) a = Inr cell \<Longrightarrow> cell_q cell = None \<Longrightarrow>
    valid_name nm \<Longrightarrow> set_cell_q (mem s) a (length (allocated s)) = Inr h \<Longrightarrow>
    pool_step s (does (s\<lparr>mem := h, allocated := allocated s @ [nm]\<rparr>) t (Answer (Create nm) (Some (length (allocated s)))))"
| again: "doing s t = Answer k q \<Longrightarrow> pool_step s (does s t Idle)"

definition pool_lookup :: "pool_run \<Rightarrow> byte list \<Rightarrow> nat option" where
  "pool_lookup s nm = (case heap_shape (mem s) nm of None \<Rightarrow> None | Some q \<Rightarrow> q)"

text \<open>Steps in which \<^verbatim>\<open>get_queue\<close> is called for names with a queue only.\<close>

definition polite_step :: "pool_run \<Rightarrow> pool_run \<Rightarrow> bool" where
  "polite_step s s' \<longleftrightarrow> pool_step s s' \<and>
     (\<forall>t nm. doing s t = Idle \<and> doing s' t = Walking (Get nm) 0 nm \<longrightarrow> pool_lookup s nm \<noteq> None)"

text \<open>A thread that nobody interrupts does what the function does.\<close>

lemma does_simps [simp]:
  "mem (does s t w) = mem s" "allocated (does s t w) = allocated s" "holder (does s t w) = holder s"
  "doing (does s t w) = (doing s)(t := w)" "does (does s t v) t w = does s t w"
  by (simp_all add: does_def)

lemma does_mem [simp]: "(does s t w)\<lparr>mem := h\<rparr> = does (s\<lparr>mem := h\<rparr>) t w"
  by (simp add: does_def)

lemma polite_stepI:
  "pool_step s (does s' t w) \<Longrightarrow> doing s' = doing s \<Longrightarrow> doing s t \<noteq> Idle \<or> (\<forall>nm. w \<noteq> Walking (Get nm) 0 nm) \<Longrightarrow>
   polite_step s (does s' t w)"
  by (auto simp: polite_step_def split: if_splits)

lemma polite_pool_steps: "polite_step\<^sup>*\<^sup>* s s' \<Longrightarrow> pool_step\<^sup>*\<^sup>* s s'"
  by (induction rule: rtranclp_induct) (auto simp: polite_step_def)

lemma walk_steps:
  "walk (mem s) a nm = Inr (b, h) \<Longrightarrow>
   polite_step\<^sup>*\<^sup>* (does s t (Walking k a nm)) (does (s\<lparr>mem := h\<rparr>) t (Walking k b []))"
proof (induction nm arbitrary: s a)
  case Nil
  then have "s\<lparr>mem := h\<rparr> = s" "a = b" by (cases s, simp)+
  then show ?case by simp
next
  case (Cons c nm)
  let ?s = "does s t (Walking k a (c # nm))"
  from Cons.prems obtain cell where cell: "cell_at (mem s) a = Inr cell" by (auto simp: bindE_eq_Inr)
  show ?case
  proof (cases "cell_children cell c")
    case (Some d)
    have "polite_step ?s (does ?s t (Walking k d nm))"
      by (rule polite_stepI, rule down) (use cell Some in simp_all)
    with Cons.IH [of s d] Cons.prems cell Some show ?thesis
      by (simp add: converse_rtranclp_into_rtranclp)
  next
    case None
    with Cons.prems cell obtain d h1 where d: "make_child (mem s) a c = Inr (d, h1)" "walk h1 d nm = Inr (b, h)"
      by (auto simp: bindE_eq_Inr)
    have 1: "polite_step ?s (does ?s t (Missing k a c nm))"
      by (rule polite_stepI, rule missing) (use cell None in simp_all)
    have 2: "polite_step (does ?s t (Missing k a c nm)) (does ((does ?s t (Missing k a c nm))\<lparr>mem := h1\<rparr>) t (Walking k d nm))"
      by (rule polite_stepI, rule make) (use d in simp_all)
    from Cons.IH [of "s\<lparr>mem := h1\<rparr>" d] d(2) 1 2 show ?thesis
      by (simp add: converse_rtranclp_into_rtranclp)
  qed
qed

section \<open>When only declared names are looked up\<close>

text \<open>What holds of a thread, and what a step leaves in place.\<close>

fun walker_ok :: "pool_run \<Rightarrow> int \<Rightarrow> walker \<Rightarrow> bool" where
  "walker_ok s t Idle \<longleftrightarrow> holder s \<noteq> Some t"
| "walker_ok s t (Walking k a rest) \<longleftrightarrow>
     (\<exists>pre. task_name k = pre @ rest \<and> path_to (mem s) 0 pre = Some a) \<and>
     (case k of Get nm \<Rightarrow> holder s \<noteq> Some t \<and> pool_lookup s nm \<noteq> None | Create nm \<Rightarrow> holder s = Some t)"
| "walker_ok s t (Missing k a c rest) \<longleftrightarrow> holder s = Some t \<and>
     (\<exists>nm pre. k = Create nm \<and> nm = pre @ c # rest \<and> path_to (mem s) 0 pre = Some a \<and> path_to (mem s) 0 (pre @ [c]) = None)"
| "walker_ok s t (Found nm a) \<longleftrightarrow> holder s \<noteq> Some t \<and> path_to (mem s) 0 nm = Some a"
| "walker_ok s t (Answer k q) \<longleftrightarrow> holder s \<noteq> Some t \<and> q \<noteq> None \<and> pool_lookup s (task_name k) = q"

definition polite_inv :: "pool_run \<Rightarrow> bool" where
  "polite_inv s \<longleftrightarrow> (\<exists>P. paths_ok P (mem s)) \<and> (\<forall>t. walker_ok s t (doing s t)) \<and>
     (\<forall>nm p. pool_lookup s nm = Some p \<longleftrightarrow> p < length (allocated s) \<and> allocated s ! p = nm)"

definition keeps_paths :: "pool_run \<Rightarrow> pool_run \<Rightarrow> bool" where
  "keeps_paths s s' \<longleftrightarrow> (\<forall>k x. path_to (mem s) 0 k = Some x \<longrightarrow> path_to (mem s') 0 k = Some x) \<and>
     (\<forall>k p. pool_lookup s k = Some p \<longrightarrow> pool_lookup s' k = Some p)"

lemma keeps_paths_refl [simp]: "keeps_paths s s"
  by (simp add: keeps_paths_def)

lemma walker_ok_mono:
  assumes "walker_ok s t w" "keeps_paths s s'" "holder s' = Some t \<longleftrightarrow> holder s = Some t"
    and "holder s \<noteq> Some t \<or> path_to (mem s') = path_to (mem s)"
  shows "walker_ok s' t w"
proof (cases w)
  case (Walking k a rest)
  with assms show ?thesis by (cases k) (auto simp: keeps_paths_def)
next
  case (Missing k a c rest)
  with assms show ?thesis by auto
next
  case (Answer k q)
  with assms show ?thesis by (auto simp: keeps_paths_def)
qed (use assms in \<open>auto simp: keeps_paths_def\<close>)

text \<open>A step of one thread: the others keep what they have.\<close>

lemma polite_update:
  assumes inv: "polite_inv s" and P: "paths_ok P (mem s')" and keeps: "keeps_paths s s'"
    and t: "walker_ok s' t w"
    and others: "\<And>u. u \<noteq> t \<Longrightarrow> holder s' = Some u \<longleftrightarrow> holder s = Some u"
      "\<And>u. u \<noteq> t \<Longrightarrow> holder s \<noteq> Some u \<or> path_to (mem s') = path_to (mem s)"
    and same: "doing s' = doing s"
    and names: "\<And>nm p. pool_lookup s' nm = Some p \<longleftrightarrow> p < length (allocated s') \<and> allocated s' ! p = nm"
  shows "polite_inv (does s' t w)"
proof -
  have cong: "walker_ok (does s' t w) u v = walker_ok s' u v" for u v
    by (cases v) (auto simp: pool_lookup_def split: lookup_task.splits)
  have "walker_ok s' u (doing s u)" if "u \<noteq> t" for u
    using walker_ok_mono [OF _ keeps others(1,2) [OF that]] inv by (simp add: polite_inv_def)
  moreover have "pool_lookup (does s' t w) = pool_lookup s'" by (auto simp: pool_lookup_def)
  ultimately show ?thesis using P t names by (auto simp: polite_inv_def cong same)
qed

text \<open>The steps that change no memory.\<close>

lemma polite_quiet:
  assumes "polite_inv s" "walker_ok s t w"
  shows "polite_inv (does s t w)"
proof -
  from assms(1) obtain P where "paths_ok P (mem s)" by (auto simp: polite_inv_def)
  from polite_update [OF assms(1) this _ assms(2)] assms(1) show ?thesis by (simp add: polite_inv_def)
qed

lemma pool_lookup_cell:
  "path_to (mem s) 0 nm = Some a \<Longrightarrow> cell_at (mem s) a = Inr cell \<Longrightarrow> pool_lookup s nm = cell_q cell"
  by (auto simp: pool_lookup_def heap_shape_def cell_at_def split: option.splits)

lemma pool_lookup_path: "pool_lookup s (pre @ k) \<noteq> None \<Longrightarrow> path_to (mem s) 0 pre \<noteq> None"
  by (auto simp: pool_lookup_def heap_shape_def path_to_append split: option.splits)

lemma make_keeps:
  assumes inv: "polite_inv s" and d: "doing s t = Missing k a c nm" and m: "make_child (mem s) a c = Inr (b, h)"
  shows "polite_inv (does (s\<lparr>mem := h\<rparr>) t (Walking k b nm)) \<and> keeps_paths s (does (s\<lparr>mem := h\<rparr>) t (Walking k b nm))"
proof -
  from inv obtain P where P: "paths_ok P (mem s)" by (auto simp: polite_inv_def)
  from inv have ok: "walker_ok s u (doing s u)" for u by (simp add: polite_inv_def)
  from ok [of t] d obtain pre where k: "k = Create (pre @ c # nm)" "holder s = Some t"
    and pre: "path_to (mem s) 0 pre = Some a" "path_to (mem s) 0 (pre @ [c]) = None" by auto
  from root_path [OF P pre(1)] obtain cell where cell: "cells (mem s) a = Some cell" by blast
  with pre have c: "cell_children cell c = None" by (auto simp: path_to_append split: option.splits)
  note sh = make_child_shape [OF P pre(1) cell c m]
  have l: "pool_lookup (s\<lparr>mem := h\<rparr>) = pool_lookup s"
    using pre(2) by (auto simp: pool_lookup_def sh(2) heap_shape_def fun_eq_iff)
  have keeps: "keeps_paths s (s\<lparr>mem := h\<rparr>)" using pre(2) by (auto simp: keeps_paths_def sh(1) l)
  have "walker_ok (s\<lparr>mem := h\<rparr>) t (Walking k b nm)" using k sh(1) [of "pre @ [c]"] by (auto simp: k(1) intro!: exI [of _ "pre @ [c]"])
  from polite_update [OF inv _ keeps this, of "P(b := P a @ [c])"] make_child_paths(1) [OF P cell m] k(2) inv
  have "polite_inv (does (s\<lparr>mem := h\<rparr>) t (Walking k b nm))" by (simp add: l polite_inv_def)
  with keeps show ?thesis by (simp add: keeps_paths_def pool_lookup_def)
qed

lemma fill_keeps:
  assumes inv: "polite_inv s" and d: "doing s t = Found nm a" and cell: "cell_at (mem s) a = Inr cell" "cell_q cell = None"
    and h: "set_cell_q (mem s) a (length (allocated s)) = Inr h"
  defines "s1 \<equiv> s\<lparr>mem := h, allocated := allocated s @ [nm]\<rparr>"
  shows "polite_inv (does s1 t (Answer (Create nm) (Some (length (allocated s))))) \<and>
    keeps_paths s (does s1 t (Answer (Create nm) (Some (length (allocated s)))))"
proof -
  from inv obtain P where P: "paths_ok P (mem s)" by (auto simp: polite_inv_def)
  from inv have ok: "walker_ok s t (doing s t)"
    and names: "\<And>nm p. pool_lookup s nm = Some p \<longleftrightarrow> p < length (allocated s) \<and> allocated s ! p = nm"
    by (auto simp: polite_inv_def)
  from ok d have a: "path_to (mem s) 0 nm = Some a" "holder s \<noteq> Some t" by auto
  from set_cell_q_shape [OF P a(1), of "length (allocated s)"] h have
    sh: "paths_ok P h" "path_to h = path_to (mem s)" "heap_shape h = (heap_shape (mem s))(nm := Some (Some (length (allocated s))))"
    by auto
  have none: "pool_lookup s nm = None" using pool_lookup_cell [OF a(1) cell(1)] cell(2) by simp
  have l: "pool_lookup s1 = (pool_lookup s)(nm \<mapsto> length (allocated s))"
    by (auto simp: pool_lookup_def sh(3) fun_eq_iff s1_def)
  have al: "allocated s1 = allocated s @ [nm]" by (simp add: s1_def)
  have keeps: "keeps_paths s s1" using none by (auto simp: keeps_paths_def l) (simp add: s1_def sh(2))
  have "pool_lookup s1 k = Some p \<longleftrightarrow> p < length (allocated s1) \<and> allocated s1 ! p = k" for k p
    using names [of k p] names [of nm p] none by (auto simp: l al nth_append less_Suc_eq)
  moreover have "walker_ok s1 t (Answer (Create nm) (Some (length (allocated s))))"
    using a(2) by (simp add: l) (simp add: s1_def)
  moreover have "path_to (mem s1) = path_to (mem s)" "paths_ok P (mem s1)" "holder s1 = holder s" "doing s1 = doing s"
    using sh by (simp_all add: s1_def)
  ultimately have "polite_inv (does s1 t (Answer (Create nm) (Some (length (allocated s)))))"
    using polite_update [OF inv _ keeps, of P t "Answer (Create nm) (Some (length (allocated s)))"] by simp
  with keeps show ?thesis by (simp add: keeps_paths_def pool_lookup_def)
qed

lemma polite_inv_step:
  assumes "polite_step s s'" and inv: "polite_inv s"
  shows "polite_inv s' \<and> keeps_paths s s'"
proof -
  from assms(1) have st: "pool_step s s'"
    and polite: "\<And>t nm. doing s t = Idle \<Longrightarrow> doing s' t = Walking (Get nm) 0 nm \<Longrightarrow> pool_lookup s nm \<noteq> None"
    by (auto simp: polite_step_def)
  from inv have ok: "walker_ok s u (doing s u)" for u by (simp add: polite_inv_def)
  have quiet: "keeps_paths s (does s t w)" for t w by (simp add: keeps_paths_def pool_lookup_def)
  from inv obtain P where P: "paths_ok P (mem s)" by (auto simp: polite_inv_def)
  have lock: "polite_inv (does (s\<lparr>holder := l\<rparr>) t w) \<and> keeps_paths s (does (s\<lparr>holder := l\<rparr>) t w)"
    if "walker_ok (s\<lparr>holder := l\<rparr>) t w" "\<And>u. u \<noteq> t \<Longrightarrow> l = Some u \<longleftrightarrow> holder s = Some u" for l t w
  proof -
    have "keeps_paths s (s\<lparr>holder := l\<rparr>)" by (simp add: keeps_paths_def pool_lookup_def)
    from polite_update [OF inv _ this that(1), of P] P that(2) inv show ?thesis
      by (simp add: polite_inv_def keeps_paths_def pool_lookup_def)
  qed
  from st show ?thesis
  proof (cases rule: pool_step.cases)
    case (get t nm)
    then have "pool_lookup s nm \<noteq> None" using polite [of t nm] by simp
    with polite_quiet [OF inv, of t "Walking (Get nm) 0 nm"] ok [of t] get quiet show ?thesis by simp
  next
    case (create t nm)
    with lock [of "Some t" t "Walking (Create nm) 0 nm"] show ?thesis by simp
  next
    case (down t k a c nm cell b)
    from ok [of t] down obtain pre where pre: "task_name k = pre @ c # nm" "path_to (mem s) 0 pre = Some a" by auto
    then have "path_to (mem s) 0 (pre @ [c]) = Some b" using down
      by (auto simp: path_to_append cell_at_def split: option.splits)
    with pre ok [of t] down have "walker_ok s t (Walking k b nm)" by (auto intro!: exI [of _ "pre @ [c]"])
    with polite_quiet [OF inv] down quiet show ?thesis by simp
  next
    case (missing t k a c nm cell)
    from ok [of t] missing obtain pre where pre: "task_name k = pre @ c # nm" "path_to (mem s) 0 pre = Some a" by auto
    then have none: "path_to (mem s) 0 (pre @ [c]) = None" using missing
      by (auto simp: path_to_append cell_at_def split: option.splits)
    with pool_lookup_path [of s "pre @ [c]" nm] pre ok [of t] missing have "walker_ok s t (Missing k a c nm)"
      by (cases k) auto
    with polite_quiet [OF inv] missing quiet show ?thesis by simp
  next
    case (make t k a c nm b h)
    with make_keeps [OF inv] show ?thesis by simp
  next
    case (got t nm a cell)
    from ok [of t] got have "path_to (mem s) 0 nm = Some a" by simp
    from pool_lookup_cell [OF this got(3)] ok [of t] got have "walker_ok s t (Answer (Get nm) (cell_q cell))" by simp
    with polite_quiet [OF inv] got quiet show ?thesis by simp
  next
    case (unlock t nm a)
    with lock [of None t "Found nm a"] ok [of t] show ?thesis by simp
  next
    case (there t nm a cell p)
    from ok [of t] there have "path_to (mem s) 0 nm = Some a" by simp
    from pool_lookup_cell [OF this there(3)] ok [of t] there have "walker_ok s t (Answer (Create nm) (Some p))" by simp
    with polite_quiet [OF inv] there quiet show ?thesis by simp
  next
    case (fill t nm a cell h)
    with fill_keeps [OF inv] show ?thesis by simp
  next
    case (again t k q)
    with polite_quiet [OF inv, of t Idle] ok [of t] quiet show ?thesis by simp
  qed
qed

lemma keeps_paths_trans: "keeps_paths a b \<Longrightarrow> keeps_paths b c \<Longrightarrow> keeps_paths a c"
  by (simp add: keeps_paths_def)

lemma polite_inv_steps:
  "polite_step\<^sup>*\<^sup>* s s' \<Longrightarrow> polite_inv s \<Longrightarrow> polite_inv s' \<and> keeps_paths s s'"
  by (induction rule: rtranclp_induct) (auto dest: polite_inv_step intro: keeps_paths_trans)

lemma heap_shape_init: "heap_shape init_trie_heap = trie_shape init_queue_pool"
proof
  fix k show "heap_shape init_trie_heap k = trie_shape init_queue_pool k"
    by (cases k) (auto simp: heap_shape_def init_trie_heap_def blank_cell_def trie_shape_init init_queue_pool_def)
qed

lemma init_lookup: "pool_lookup init_pool_run nm = None"
  by (simp add: pool_lookup_def init_pool_run_def heap_shape_init trie_shape_init)

lemma init_polite: "polite_inv init_pool_run"
  using paths_ok_init
  by (auto simp: polite_inv_def init_pool_run_def pool_lookup_def heap_shape_init trie_shape_init split: if_splits)

text \<open>The whole of \<^verbatim>\<open>create_queue\<close> for a name without a queue, by a thread nobody interrupts.\<close>

lemma does_updates [simp]:
  "(does s t w)\<lparr>holder := l\<rparr> = does (s\<lparr>holder := l\<rparr>) t w"
  "(does s t w)\<lparr>allocated := ns\<rparr> = does (s\<lparr>allocated := ns\<rparr>) t w"
  by (simp_all add: does_def)

lemma declare_run:
  assumes P: "paths_ok P (mem s)" and none: "pool_lookup s nm = None" and t: "doing s t = Idle" "holder s = None"
    and nm: "valid_name nm"
  shows "\<exists>h P'. polite_step\<^sup>*\<^sup>* s (does (s\<lparr>mem := h, allocated := allocated s @ [nm]\<rparr>) t
      (Answer (Create nm) (Some (length (allocated s))))) \<and> paths_ok P' h \<and>
    heap_shape h nm = Some (Some (length (allocated s)))"
proof -
  let ?p = "length (allocated s)" and ?s = "s\<lparr>holder := Some t\<rparr>"
  from walk_shape [OF P, of "[]" 0 nm] obtain a h1 P1 where
    w: "walk (mem s) 0 nm = Inr (a, h1)" "paths_ok P1 h1" "path_to h1 0 nm = Some a"
      "heap_shape h1 = extended (heap_shape (mem s)) nm" by auto
  from root_path [OF w(2,3)] obtain cell where cell: "cells h1 a = Some cell" by blast
  have "heap_shape h1 nm = Some None"
    using none by (auto simp: w(4) extended_def pool_lookup_def split: option.splits)
  with w(3) cell have q: "cell_q cell = None" by (simp add: heap_shape_def)
  from set_cell_q_shape [OF w(2,3), of ?p] obtain h2 where
    h2: "set_cell_q h1 a ?p = Inr h2" "paths_ok P1 h2" "heap_shape h2 nm = Some (Some ?p)" by auto
  have 1: "polite_step s (does ?s t (Walking (Create nm) 0 nm))" by (rule polite_stepI, rule create) (simp_all add: t)
  have 2: "polite_step\<^sup>*\<^sup>* (does ?s t (Walking (Create nm) 0 nm)) (does (?s\<lparr>mem := h1\<rparr>) t (Walking (Create nm) a []))"
    by (rule walk_steps) (simp add: w(1))
  let ?s1 = "does (?s\<lparr>mem := h1\<rparr>) t (Walking (Create nm) a [])"
  have 3: "polite_step ?s1 (does (?s1\<lparr>holder := None\<rparr>) t (Found nm a))" by (rule polite_stepI, rule unlock) simp_all
  let ?s2 = "does (?s1\<lparr>holder := None\<rparr>) t (Found nm a)"
  have 4: "polite_step ?s2 (does (?s2\<lparr>mem := h2, allocated := allocated ?s2 @ [nm]\<rparr>) t
      (Answer (Create nm) (Some (length (allocated ?s2)))))"
    by (rule polite_stepI, rule fill [of _ _ _ a cell]) (use cell q h2(1) nm in \<open>simp_all add: cell_at_def\<close>)
  have "does (?s2\<lparr>mem := h2, allocated := allocated ?s2 @ [nm]\<rparr>) t (Answer (Create nm) (Some (length (allocated ?s2)))) =
      does (s\<lparr>mem := h2, allocated := allocated s @ [nm]\<rparr>) t (Answer (Create nm) (Some ?p))"
    using t(2) by (simp add: does_def)
  with 1 2 3 4 have "polite_step\<^sup>*\<^sup>* s (does (s\<lparr>mem := h2, allocated := allocated s @ [nm]\<rparr>) t (Answer (Create nm) (Some ?p)))"
    by (metis (no_types, lifting) converse_rtranclp_into_rtranclp rtranclp.rtrancl_into_rtrancl)
  with h2 show ?thesis by blast
qed

section \<open>Properties\<close>

text \<open>What a walk does to the tree.\<close>

lemma walk_rep:
  assumes "trie_rep h0 t"
  shows "\<exists>a h cell. walk h0 0 nm = Inr (a, h) \<and> trie_rep h (get_trie_node t nm) \<and>
    cell_at h a = Inr cell \<and> cell_q cell = trie_lookup t nm \<and>
    (\<forall>p. \<exists>h'. set_cell_q h a p = Inr h' \<and> trie_rep h' (set_q_at (get_trie_node t nm) nm p))"
proof -
  from assms obtain P where P: "paths_ok P h0" and shape: "heap_shape h0 = trie_shape t" by (auto simp: trie_rep_def)
  from walk_shape [OF P, of "[]" 0 nm] obtain a h P' where
    w: "walk h0 0 nm = Inr (a, h)" "paths_ok P' h" "path_to h 0 nm = Some a"
      "heap_shape h = extended (trie_shape t) nm" by (auto simp: shape)
  from root_path [OF w(2,3)] obtain cell where cell: "cells h a = Some cell" by blast
  have sh: "heap_shape h = trie_shape (get_trie_node t nm)" using w(4) trie_shape_get [of t nm] by (auto simp: fun_eq_iff)
  then have rep: "trie_rep h (get_trie_node t nm)" using w(2) by (auto simp: trie_rep_def)
  have here: "heap_shape h nm = Some (cell_q cell)" using w(3) cell by (simp add: heap_shape_def)
  then have "extended (trie_shape t) nm nm = Some (cell_q cell)" by (simp add: w(4))
  then have q: "cell_q cell = trie_lookup t nm"
    by (auto simp: extended_def trie_shape_def trie_lookup_def split: if_splits option.splits)
  from here have made: "trie_shape (get_trie_node t nm) nm \<noteq> None" by (simp add: sh)
  have "\<exists>h'. set_cell_q h a p = Inr h' \<and> trie_rep h' (set_q_at (get_trie_node t nm) nm p)" for p
    using set_cell_q_shape [OF w(2,3), of p] trie_shape_set [OF made, of p] sh by (auto simp: trie_rep_def fun_eq_iff)
  with w(1) rep cell q show ?thesis by (auto simp: cell_at_def)
qed

text \<open>C27. The walk along pointers implements the trie: taken step by step by a thread that nobody
  interrupts, it ends at a node, leaves the trie with the missing nodes of the name, and finds
  the queue of the name there; to set the queue of that node is to set it in the trie.\<close>

theorem walks_refine_the_trie:
  assumes "trie_rep (mem s) t"
  shows "\<exists>a h cell. pool_step\<^sup>*\<^sup>* (does s u (Walking k 0 nm)) (does (s\<lparr>mem := h\<rparr>) u (Walking k a [])) \<and>
    walk (mem s) 0 nm = Inr (a, h) \<and> trie_rep h (get_trie_node t nm) \<and>
    cell_at h a = Inr cell \<and> cell_q cell = trie_lookup t nm \<and>
    (\<forall>p. \<exists>h'. set_cell_q h a p = Inr h' \<and> trie_rep h' (set_q_at (get_trie_node t nm) nm p))"
proof -
  from walk_rep [OF assms, of nm] obtain a h cell where w: "walk (mem s) 0 nm = Inr (a, h)"
    "trie_rep h (get_trie_node t nm)" "cell_at h a = Inr cell" "cell_q cell = trie_lookup t nm"
    "\<forall>p. \<exists>h'. set_cell_q h a p = Inr h' \<and> trie_rep h' (set_q_at (get_trie_node t nm) nm p)" by blast
  with polite_pool_steps [OF walk_steps [OF w(1), of u k]] show ?thesis by blast
qed

theorem walks_refine_the_trie_witness:
  "\<exists>a h cell. pool_step\<^sup>*\<^sup>* (does init_pool_run 1 (Walking (Get [0x71]) 0 [0x71]))
      (does (init_pool_run\<lparr>mem := h\<rparr>) 1 (Walking (Get [0x71]) a [])) \<and>
    walk (mem init_pool_run) 0 [0x71] = Inr (a, h) \<and> trie_rep h (get_trie_node init_queue_pool [0x71]) \<and>
    cell_at h a = Inr cell \<and> cell_q cell = trie_lookup init_queue_pool [0x71] \<and>
    (\<forall>p. \<exists>h'. set_cell_q h a p = Inr h' \<and> trie_rep h' (set_q_at (get_trie_node init_queue_pool [0x71]) [0x71] p))"
  by (rule walks_refine_the_trie)
    (use paths_ok_init heap_shape_init in \<open>auto simp: trie_rep_def init_pool_run_def\<close>)

text \<open>C28. However the threads' steps interleave, as long as \<^verbatim>\<open>get_queue\<close> is only called for names
  that have a queue: what \<^verbatim>\<open>create_queue\<close> or \<^verbatim>\<open>get_queue\<close> has answered is a queue of the name
  asked for, it stays the queue of that name, and all answers for a name, to any thread at any
  time, are the same queue.\<close>

theorem declared_queues_stay:
  assumes "polite_step\<^sup>*\<^sup>* init_pool_run s" "doing s t = Answer k q" "polite_step\<^sup>*\<^sup>* s s'"
  shows "\<exists>p. q = Some p \<and> pool_lookup s' (task_name k) = Some p \<and>
    p < length (allocated s') \<and> allocated s' ! p = task_name k \<and>
    (\<forall>u k' q'. doing s' u = Answer k' q' \<longrightarrow> q' = q \<longleftrightarrow> task_name k' = task_name k)"
proof -
  from polite_inv_steps [OF assms(1) init_polite] have inv: "polite_inv s" by blast
  from polite_inv_steps [OF assms(3) inv] have inv': "polite_inv s'" and keeps: "keeps_paths s s'" by blast+
  have ans: "polite_inv r \<Longrightarrow> doing r u = Answer k' q' \<Longrightarrow>
      \<exists>p. q' = Some p \<and> pool_lookup r (task_name k') = Some p" for r u k' q'
    unfolding polite_inv_def by (metis option.exhaust walker_ok.simps(5))
  have names: "pool_lookup s' nm = Some p \<longleftrightarrow> p < length (allocated s') \<and> allocated s' ! p = nm" for nm p
    using inv' by (simp add: polite_inv_def)
  from ans [OF inv assms(2)] keeps obtain p where p: "q = Some p" "pool_lookup s' (task_name k) = Some p"
    by (auto simp: keeps_paths_def)
  have "q' = q \<longleftrightarrow> task_name k' = task_name k" if "doing s' u = Answer k' q'" for u k' q'
    using ans [OF inv' that] p names by (metis option.inject)
  with p names show ?thesis by auto
qed

theorem declared_queues_stay_witness:
  "\<exists>s. polite_step\<^sup>*\<^sup>* init_pool_run s \<and> doing s 1 = Answer (Create [0x71]) (Some 0) \<and>
    pool_lookup s [0x71] = Some 0 \<and> allocated s = [[0x71]]"
proof -
  have i: "paths_ok (\<lambda>_. []) (mem init_pool_run)" "doing init_pool_run 1 = Idle" "holder init_pool_run = None"
    "allocated init_pool_run = []" "valid_name [0x71]"
    using paths_ok_init by (simp_all add: init_pool_run_def valid_name_def MAX_QUEUE_NAME_def)
  from declare_run [OF i(1) init_lookup i(2,3,5)] obtain h where
    r: "polite_step\<^sup>*\<^sup>* init_pool_run (does (init_pool_run\<lparr>mem := h, allocated := [[0x71]]\<rparr>) 1
      (Answer (Create [0x71]) (Some 0)))" unfolding i(4) by auto
  from declared_queues_stay [OF r, of 1] r show ?thesis by fastforce
qed

text \<open>The make of a child that a thread saw missing and that is there by now: all below is gone.\<close>

lemma overwritten_child:
  assumes ok: "paths_ok P h"
  shows "\<exists>b h' P'. make_child h 0 c = Inr (b, h') \<and> paths_ok P' h' \<and> path_to h' 0 [c] = Some b \<and>
    heap_shape h' (c # r) = (if r = [] then Some None else None)"
proof -
  from paths_okD(1) [OF ok] obtain root where root: "cells h 0 = Some root" by blast
  obtain b h' where m: "make_child h 0 c = Inr (b, h')" using make_child_eq [OF root] by blast
  note p = make_child_paths [OF ok root m]
  from m make_child_eq [OF root, of c] have h': "b = next_cell h"
    "cells h' = (cells h)(b \<mapsto> blank_cell, 0 \<mapsto> root\<lparr>cell_children := (cell_children root)(c \<mapsto> b)\<rparr>)" by auto
  have down: "path_to h' 0 (c # k) = path_to h' b k" for k by (simp add: h'(2))
  have new: "path_to h' b r = (if r = [] then Some b else None)"
    using p(3) by (cases r) (auto simp: h'(2) blank_cell_def)
  have "cells h' b = Some blank_cell" using p(3) by (simp add: h'(2))
  then have "heap_shape h' (c # r) = (if r = [] then Some None else None)"
    unfolding heap_shape_def down new by (simp add: blank_cell_def)
  moreover have "path_to h' 0 [c] = Some b" by (simp add: h'(2))
  ultimately show ?thesis using m p(1) by blast
qed

lemma overwriting_lookup:
  assumes P: "paths_ok P (mem s)" and d: "doing s u = Missing (Get (c # r)) 0 c r"
  shows "\<exists>h P'. pool_step\<^sup>*\<^sup>* s (does (s\<lparr>mem := h\<rparr>) u (Answer (Get (c # r)) None)) \<and>
    paths_ok P' h \<and> heap_shape h (c # r) = Some None"
proof -
  from overwritten_child [OF P, of c r] obtain b h1 P1 where
    m: "make_child (mem s) 0 c = Inr (b, h1)" "paths_ok P1 h1" "path_to h1 0 [c] = Some b"
      "heap_shape h1 (c # r) = (if r = [] then Some None else None)" by blast
  let ?s1 = "s\<lparr>mem := h1\<rparr>"
  have 1: "pool_step s (does ?s1 u (Walking (Get (c # r)) b r))" by (rule make [OF d m(1)])
  from walk_shape [OF m(2,3), of r] obtain a h P' where
    w: "walk h1 b r = Inr (a, h)" "paths_ok P' h" "path_to h 0 (c # r) = Some a"
      "heap_shape h = extended (heap_shape h1) (c # r)" by auto
  have 2: "polite_step\<^sup>*\<^sup>* (does ?s1 u (Walking (Get (c # r)) b r)) (does (?s1\<lparr>mem := h\<rparr>) u (Walking (Get (c # r)) a []))"
    by (rule walk_steps) (simp add: w(1))
  let ?s2 = "does (?s1\<lparr>mem := h\<rparr>) u (Walking (Get (c # r)) a [])"
  have gone: "heap_shape h (c # r) = Some None" by (simp add: w(4) extended_def m(4))
  from root_path [OF w(2,3)] obtain cell where cell: "cells h a = Some cell" by blast
  with gone w(3) have q: "cell_q cell = None" by (simp add: heap_shape_def)
  have "pool_step ?s2 (does ?s2 u (Answer (Get (c # r)) (cell_q cell)))"
    by (rule got) (simp, simp add: cell_at_def cell)
  with 1 polite_pool_steps [OF 2] q
  have "pool_step\<^sup>*\<^sup>* s (does (s\<lparr>mem := h\<rparr>) u (Answer (Get (c # r)) None))"
    by simp
  with w(2) gone show ?thesis by blast
qed

text \<open>C29. The walk of \<^verbatim>\<open>get_queue\<close> takes no lock, and the pool can lose a queue to it: a thread looks a
  name up while another declares it, puts a blank node in place of the one with the queue, and
  answers that there is none; the next declaration of the name makes another queue. This can
  happen to every name but the empty one.\<close>

theorem racing_lookups_lose_queues:
  assumes "nm \<noteq> []" "valid_name nm"
  shows "\<exists>s s'. pool_step\<^sup>*\<^sup>* init_pool_run s \<and> doing s 1 = Answer (Create nm) (Some 0) \<and> pool_lookup s nm = Some 0 \<and>
    pool_step\<^sup>*\<^sup>* s s' \<and> doing s' 1 = Answer (Create nm) (Some 0) \<and> doing s' 2 = Answer (Get nm) None \<and>
    doing s' 3 = Answer (Create nm) (Some 1) \<and> pool_lookup s' nm = Some 1"
proof -
  from assms(1) obtain c r where nm: "nm = c # r" by (cases nm) auto
  let ?s1 = "does init_pool_run 2 (Walking (Get nm) 0 nm)" and ?s2 = "does init_pool_run 2 (Missing (Get nm) 0 c r)"
  have "pool_step init_pool_run ?s1" by (rule get) (simp add: init_pool_run_def)
  moreover have "pool_step ?s1 (does ?s1 2 (Missing (Get nm) 0 c r))"
    by (rule missing [of _ _ _ _ _ _ blank_cell])
      (simp_all add: nm init_pool_run_def init_trie_heap_def cell_at_def blank_cell_def)
  ultimately have 2: "pool_step\<^sup>*\<^sup>* init_pool_run ?s2" by simp
  have init: "mem ?s2 = init_trie_heap" "doing ?s2 1 = Idle" "holder ?s2 = None" "allocated ?s2 = []"
    by (simp_all add: init_pool_run_def)
  have none: "pool_lookup ?s2 nm = None" using init_lookup by (simp add: pool_lookup_def)
  have "paths_ok (\<lambda>_. []) (mem ?s2)" using paths_ok_init by (simp add: init_pool_run_def)
  from declare_run [OF this none init(2,3) assms(2)] obtain h P where
    3: "polite_step\<^sup>*\<^sup>* ?s2 (does (?s2\<lparr>mem := h, allocated := [nm]\<rparr>) 1 (Answer (Create nm) (Some 0)))"
    and h: "paths_ok P h" "heap_shape h nm = Some (Some 0)" unfolding init by auto
  let ?s3 = "does (?s2\<lparr>mem := h, allocated := [nm]\<rparr>) 1 (Answer (Create nm) (Some 0))"
  from overwriting_lookup [of P ?s3 2 c r] h(1) obtain h5 P5 where
    6: "pool_step\<^sup>*\<^sup>* ?s3 (does (?s3\<lparr>mem := h5\<rparr>) 2 (Answer (Get nm) None))"
    and h5: "paths_ok P5 h5" "heap_shape h5 nm = Some None" by (auto simp: nm)
  let ?s6 = "does (?s3\<lparr>mem := h5\<rparr>) 2 (Answer (Get nm) None)"
  have l6: "pool_lookup ?s6 nm = None" using h5(2) by (simp add: pool_lookup_def)
  have i6: "paths_ok P5 (mem ?s6)" "doing ?s6 3 = Idle" "holder ?s6 = None" "allocated ?s6 = [nm]"
    using h5(1) by (simp_all add: init_pool_run_def)
  from declare_run [OF i6(1) l6 i6(2,3) assms(2)] obtain h7 where
    7: "polite_step\<^sup>*\<^sup>* ?s6 (does (?s6\<lparr>mem := h7, allocated := [nm, nm]\<rparr>) 3 (Answer (Create nm) (Some 1)))"
    and h7: "heap_shape h7 nm = Some (Some 1)" unfolding i6(4) by auto
  let ?s7 = "does (?s6\<lparr>mem := h7, allocated := [nm, nm]\<rparr>) 3 (Answer (Create nm) (Some 1))"
  have "pool_step\<^sup>*\<^sup>* init_pool_run ?s3" using 2 polite_pool_steps [OF 3] by (rule rtranclp_trans)
  moreover have "pool_step\<^sup>*\<^sup>* ?s3 ?s7"
    using 6 polite_pool_steps [OF 7] by (rule rtranclp_trans)
  moreover have "pool_lookup ?s3 nm = Some 0" "pool_lookup ?s7 nm = Some 1"
    using h(2) h7 by (simp_all add: pool_lookup_def)
  moreover have "doing ?s3 1 = Answer (Create nm) (Some 0)" "doing ?s7 1 = Answer (Create nm) (Some 0)"
    "doing ?s7 2 = Answer (Get nm) None" "doing ?s7 3 = Answer (Create nm) (Some 1)" by simp_all
  ultimately show ?thesis by blast
qed

theorem racing_lookups_lose_queues_witness:
  "\<exists>s s'. pool_step\<^sup>*\<^sup>* init_pool_run s \<and> doing s 1 = Answer (Create [0x71]) (Some 0) \<and> pool_lookup s [0x71] = Some 0 \<and>
    pool_step\<^sup>*\<^sup>* s s' \<and> doing s' 1 = Answer (Create [0x71]) (Some 0) \<and> doing s' 2 = Answer (Get [0x71]) None \<and>
    doing s' 3 = Answer (Create [0x71]) (Some 1) \<and> pool_lookup s' [0x71] = Some 1"
  by (rule racing_lookups_lose_queues) (simp_all add: valid_name_def MAX_QUEUE_NAME_def)

end
