(* ===== verification/Freeing.thy ===== *)
theory Freeing
  imports Memory Pool_Steps
begin

text \<open>
  \<^verbatim>\<open>free_queue\<close>, \<^verbatim>\<open>_free_trie_node\<close> and \<^verbatim>\<open>free_pool\<close> on everything that \<^verbatim>\<open>malloc\<close> gave the broker:
  trie nodes, queues and message nodes, each at its address. Whatever is read or freed has
  to be there still.
\<close>

section \<open>The objects and how they are freed\<close>

record memory =
  trie_cells :: "nat \<Rightarrow> trie_cell option"
  queue_objects :: "nat \<Rightarrow> queue option"
  message_nodes :: node_heap

text \<open>\<^verbatim>\<open>free\<close> of an object; a second \<^verbatim>\<open>free\<close> is undefined behaviour.\<close>

definition free_object :: "(nat \<Rightarrow> 'a option) \<Rightarrow> nat \<Rightarrow> (nat \<Rightarrow> 'a option) result" where
  "free_object f p = (if f p = None then Inl (UB Dangling) else Inr (f(p := None)))"

definition free_queue :: "memory \<Rightarrow> nat \<Rightarrow> memory result option" where
  "free_queue M p =
     (case queue_objects M p of
        None \<Rightarrow> Some (Inl (UB Dangling))
      | Some q \<Rightarrow> Option.bind (free_nodes (message_nodes M) (last_node q)) (\<lambda>r. Some (
          bindE r (\<lambda>h.
          bindE (free_object (queue_objects M) p) (\<lambda>qs.
            Inr (M\<lparr>queue_objects := qs, message_nodes := h\<rparr>))))))"

text \<open>After its loop \<^verbatim>\<open>_free_trie_node\<close> frees the queue of the node and the node.\<close>

definition free_this_node :: "memory \<Rightarrow> nat \<Rightarrow> trie_cell \<Rightarrow> memory result option" where
  "free_this_node M a cell =
     Option.bind (case cell_q cell of None \<Rightarrow> Some (Inr M) | Some p \<Rightarrow> free_queue M p) (\<lambda>r. Some (
       bindE r (\<lambda>M.
       bindE (free_object (trie_cells M) a) (\<lambda>cs.
         Inr (M\<lparr>trie_cells := cs\<rparr>)))))"

text \<open>\<^verbatim>\<open>_free_trie_node\<close> from the turn \<open>i\<close> of its loop on; \<open>None\<close> would be a call that never returns.\<close>

partial_function (option) free_trie_node_from :: "memory \<Rightarrow> nat option \<Rightarrow> nat \<Rightarrow> memory result option" where
  "free_trie_node_from M root i =
     (case root of
        None \<Rightarrow> Some (Inr M)
      | Some a \<Rightarrow>
          (case trie_cells M a of
             None \<Rightarrow> Some (Inl (UB Dangling))
           | Some cell \<Rightarrow>
               if i < 256
               then Option.bind (free_trie_node_from M (cell_children cell (word_of_nat i)) 0)
                      (\<lambda>r. case r of Inl e \<Rightarrow> Some (Inl e) | Inr M' \<Rightarrow> free_trie_node_from M' root (Suc i))
               else free_this_node M a cell))"

definition free_trie_node :: "memory \<Rightarrow> nat option \<Rightarrow> memory result option" where
  "free_trie_node M root = free_trie_node_from M root 0"

fun free_pool_loop :: "memory \<Rightarrow> nat \<Rightarrow> nat list \<Rightarrow> memory result option" where
  "free_pool_loop M root [] = Some (Inr M)"
| "free_pool_loop M root (i # is) =
     (case trie_cells M root of
        None \<Rightarrow> Some (Inl (UB Dangling))
      | Some cell \<Rightarrow>
          (case cell_children cell (word_of_nat i) of
             None \<Rightarrow> free_pool_loop M root is
           | Some child \<Rightarrow> Option.bind (free_trie_node M (Some child))
               (\<lambda>r. case r of Inl e \<Rightarrow> Some (Inl e) | Inr M' \<Rightarrow> free_pool_loop M' root is)))"

definition free_pool :: "memory \<Rightarrow> nat \<Rightarrow> memory result option" where
  "free_pool M root = free_pool_loop M root [0..<256]"

section \<open>Memory with parts of it freed\<close>

definition gone :: "nat set \<Rightarrow> nat set \<Rightarrow> nat set \<Rightarrow> memory \<Rightarrow> memory" where
  "gone X Y Z M =
     \<lparr>trie_cells = (\<lambda>a. if a \<in> X then None else trie_cells M a),
      queue_objects = (\<lambda>p. if p \<in> Y then None else queue_objects M p),
      message_nodes = (message_nodes M)\<lparr>nodes := (\<lambda>n. if n \<in> Z then None else nodes (message_nodes M) n)\<rparr>\<rparr>"

lemma gone_nothing [simp]: "gone {} {} {} M = M"
  by (simp add: gone_def)

lemma gone_simps [simp]:
  "trie_cells (gone X Y Z M) a = (if a \<in> X then None else trie_cells M a)"
  "queue_objects (gone X Y Z M) p = (if p \<in> Y then None else queue_objects M p)"
  "nodes (message_nodes (gone X Y Z M)) n = (if n \<in> Z then None else nodes (message_nodes M) n)"
  by (simp_all add: gone_def)

text \<open>A queue and its message nodes.\<close>

definition own_queue :: "memory \<Rightarrow> nat option \<Rightarrow> nat set \<Rightarrow> nat set \<Rightarrow> bool" where
  "own_queue M q B N \<longleftrightarrow>
     (case q of None \<Rightarrow> B = {} \<and> N = {}
      | Some p \<Rightarrow> B = {p} \<and> (\<exists>qu as ms. queue_objects M p = Some qu \<and> queue_rep (message_nodes M) qu as ms \<and> N = set as))"

lemma free_own_queue:
  assumes "own_queue M (Some p) B N" "Y \<inter> B = {}" "Z \<inter> N = {}"
  shows "free_queue (gone X Y Z M) p = Some (Inr (gone X (Y \<union> B) (Z \<union> N) M))"
proof -
  from assms(1) obtain qu as ms where q: "B = {p}" "N = set as" "queue_objects M p = Some qu"
    "queue_rep (message_nodes M) qu as ms" by (auto simp: own_queue_def)
  have live: "p \<notin> Y" using assms(2) q(1) by auto
  have "holds (nodes (message_nodes M)) (last_node qu) as ms =
      holds (nodes (message_nodes (gone X Y Z M))) (last_node qu) as ms"
    by (rule holds_cong) (use assms(3) q(2) in auto)
  with q(4) have "free_nodes (message_nodes (gone X Y Z M)) (last_node qu) =
      Some (Inr (message_nodes (gone X Y Z M)\<lparr>nodes :=
        (\<lambda>n. if n \<in> set as then None else nodes (message_nodes (gone X Y Z M)) n)\<rparr>))"
    by (intro free_nodes_rep) (auto simp: queue_rep_def)
  with live q(3) show ?thesis
    by (auto simp: free_queue_def free_object_def gone_def q(1,2) fun_eq_iff)
qed

lemma free_this_owned:
  assumes "own_queue M (cell_q cell) B N" "trie_cells M a = Some cell" "a \<notin> X" "Y \<inter> B = {}" "Z \<inter> N = {}"
  shows "free_this_node (gone X Y Z M) a cell = Some (Inr (gone (insert a X) (Y \<union> B) (Z \<union> N) M))"
proof -
  have "(case cell_q cell of None \<Rightarrow> Some (Inr (gone X Y Z M)) | Some p \<Rightarrow> free_queue (gone X Y Z M) p) =
      Some (Inr (gone X (Y \<union> B) (Z \<union> N) M))"
    using assms(1,4,5) free_own_queue [of M _ B N Y Z X] by (cases "cell_q cell") (auto simp: own_queue_def)
  then have "free_this_node (gone X Y Z M) a cell =
      Some (bindE (free_object (trie_cells (gone X (Y \<union> B) (Z \<union> N) M)) a) (\<lambda>cs. Inr (gone X (Y \<union> B) (Z \<union> N) M\<lparr>trie_cells := cs\<rparr>)))"
    by (simp add: free_this_node_def)
  also have "\<dots> = Some (Inr (gone (insert a X) (Y \<union> B) (Z \<union> N) M))"
    using assms(2,3) by (auto simp: free_object_def gone_def fun_eq_iff)
  finally show ?thesis .
qed

text \<open>A trie node with all that hangs below it: the trie nodes \<open>F\<close>, the queues \<open>B\<close> and the
  message nodes \<open>N\<close>, none of them reached twice.\<close>

inductive owned :: "memory \<Rightarrow> nat \<Rightarrow> nat set \<Rightarrow> nat set \<Rightarrow> nat set \<Rightarrow> bool" for M where
  node: "trie_cells M a = Some cell \<Longrightarrow>
    (\<forall>c. cell_children cell c = None \<longrightarrow> F c = {} \<and> B c = {} \<and> N c = {}) \<Longrightarrow>
    (\<forall>c b. cell_children cell c = Some b \<longrightarrow> owned M b (F c) (B c) (N c)) \<Longrightarrow>
    own_queue M (cell_q cell) Bq Nq \<Longrightarrow> (\<forall>c. a \<notin> F c \<and> Bq \<inter> B c = {} \<and> Nq \<inter> N c = {}) \<Longrightarrow>
    (\<forall>c d. c \<noteq> d \<longrightarrow> F c \<inter> F d = {} \<and> B c \<inter> B d = {} \<and> N c \<inter> N d = {}) \<Longrightarrow>
    owned M a (insert a (\<Union>c. F c)) (Bq \<union> (\<Union>c. B c)) (Nq \<union> (\<Union>c. N c))"

text \<open>The bytes the loop is through with.\<close>

definition first_bytes :: "nat \<Rightarrow> byte set" where
  "first_bytes i = word_of_nat ` {..<i}"

lemma first_bytes_simps: "first_bytes 0 = {}" "first_bytes (Suc i) = insert (word_of_nat i) (first_bytes i)"
  by (auto simp: first_bytes_def lessThan_Suc)

lemma first_bytes_all: "first_bytes 256 = UNIV"
  using byte_word_of_nat by (auto simp: first_bytes_def)

lemma first_bytes_fresh: "i < 256 \<Longrightarrow> word_of_nat i \<notin> first_bytes i"
  by (auto simp: first_bytes_def word_of_nat_byte_eq)

lemma first_bytes_disjoint:
  assumes "i < 256" "\<forall>c d. c \<noteq> d \<longrightarrow> F c \<inter> F d = {}" "X \<inter> (\<Union>c. F c) = {}"
  shows "(X \<union> (\<Union>c \<in> first_bytes i. F c)) \<inter> F (word_of_nat i) = {}"
proof -
  have "F c \<inter> F (word_of_nat i) = {}" if "c \<in> first_bytes i" for c
    using assms(2) first_bytes_fresh [OF assms(1)] that by metis
  with assms(3) show ?thesis by blast
qed

lemma free_owned:
  assumes "owned M a F B N" "X \<inter> F = {}" "Y \<inter> B = {}" "Z \<inter> N = {}"
  shows "free_trie_node (gone X Y Z M) (Some a) = Some (Inr (gone (X \<union> F) (Y \<union> B) (Z \<union> N) M))"
  using assms
proof (induction arbitrary: X Y Z rule: owned.induct)
  case (node a cell F B N Bq Nq)
  let ?part = "\<lambda>i. gone (X \<union> (\<Union>c \<in> first_bytes i. F c)) (Y \<union> (\<Union>c \<in> first_bytes i. B c)) (Z \<union> (\<Union>c \<in> first_bytes i. N c)) M"
  let ?M = "gone (X \<union> insert a (\<Union>c. F c)) (Y \<union> (Bq \<union> (\<Union>c. B c))) (Z \<union> (Nq \<union> (\<Union>c. N c))) M"
  have here: "trie_cells (?part i) a = Some cell" for i using node.hyps(1,4) node.prems(1) by auto
  have "free_trie_node_from (?part i) (Some a) i = Some (Inr ?M)" if "i \<le> 256" for i
    using that
  proof (induction rule: inc_induct)
    case base
    have "free_this_node (gone (X \<union> (\<Union>c. F c)) (Y \<union> (\<Union>c. B c)) (Z \<union> (\<Union>c. N c)) M) a cell =
        Some (Inr (gone (insert a (X \<union> (\<Union>c. F c))) ((Y \<union> (\<Union>c. B c)) \<union> Bq) ((Z \<union> (\<Union>c. N c)) \<union> Nq) M))"
    proof (rule free_this_owned)
      show "own_queue M (cell_q cell) Bq Nq" "trie_cells M a = Some cell" by (fact node.hyps)+
      show "a \<notin> X \<union> (\<Union>c. F c)" using node.hyps(4) node.prems(1) by blast
      show "(Y \<union> (\<Union>c. B c)) \<inter> Bq = {}" using node.hyps(4) node.prems(2) by blast
      show "(Z \<union> (\<Union>c. N c)) \<inter> Nq = {}" using node.hyps(4) node.prems(3) by blast
    qed
    then show ?case using here [of 256]
      by (subst free_trie_node_from.simps) (simp add: first_bytes_all Un_ac)
  next
    case (step i)
    have sub: "free_trie_node_from (?part i) (cell_children cell (word_of_nat i)) 0 = Some (Inr (?part (Suc i)))"
    proof (cases "cell_children cell (word_of_nat i)")
      case None
      with node.hyps(2) show ?thesis by (subst free_trie_node_from.simps) (simp add: first_bytes_simps)
    next
      case (Some b)
      have "(X \<union> (\<Union>c \<in> first_bytes i. F c)) \<inter> F (word_of_nat i) = {}"
        "(Y \<union> (\<Union>c \<in> first_bytes i. B c)) \<inter> B (word_of_nat i) = {}"
        "(Z \<union> (\<Union>c \<in> first_bytes i. N c)) \<inter> N (word_of_nat i) = {}"
        using node.hyps(5) node.prems step.hyps by (intro first_bytes_disjoint; blast)+
      with node.IH Some show ?thesis by (simp add: free_trie_node_def first_bytes_simps Un_ac)
    qed
    show ?case by (subst free_trie_node_from.simps) (use here step sub in simp)
  qed
  from this [of 0] show ?case by (simp add: free_trie_node_def first_bytes_simps)
qed

text \<open>\<^verbatim>\<open>free_pool\<close> frees what hangs below the root, and nothing of the root.\<close>

inductive_cases owned_cases: "owned M a F B N"

lemma free_pool_owned:
  assumes "trie_cells M a = Some cell" "\<forall>c. cell_children cell c = None \<longrightarrow> F c = {} \<and> B c = {} \<and> N c = {}"
    and "\<forall>c b. cell_children cell c = Some b \<longrightarrow> owned M b (F c) (B c) (N c)" "\<forall>c. a \<notin> F c"
    and dis: "\<forall>c d. c \<noteq> d \<longrightarrow> F c \<inter> F d = {} \<and> B c \<inter> B d = {} \<and> N c \<inter> N d = {}"
  shows "free_pool M a = Some (Inr (gone (\<Union>c. F c) (\<Union>c. B c) (\<Union>c. N c) M))"
proof -
  let ?part = "\<lambda>i. gone (\<Union>c \<in> first_bytes i. F c) (\<Union>c \<in> first_bytes i. B c) (\<Union>c \<in> first_bytes i. N c) M"
  have here: "trie_cells (?part i) a = Some cell" for i using assms(1,4) by auto
  have "free_pool_loop (?part i) a [i..<256] = Some (Inr (?part 256))" if "i \<le> 256" for i
    using that
  proof (induction rule: inc_induct)
    case (step i)
    have upt: "[i..<256] = i # [Suc i..<256]" using step.hyps by (simp add: upt_conv_Cons)
    show ?case
    proof (cases "cell_children cell (word_of_nat i)")
      case None
      with assms(2) step.IH here [of i] show ?thesis by (simp add: upt first_bytes_simps del: upt_Suc)
    next
      case (Some b)
      have "({} \<union> (\<Union>c \<in> first_bytes i. F c)) \<inter> F (word_of_nat i) = {}"
        "({} \<union> (\<Union>c \<in> first_bytes i. B c)) \<inter> B (word_of_nat i) = {}"
        "({} \<union> (\<Union>c \<in> first_bytes i. N c)) \<inter> N (word_of_nat i) = {}"
        by (rule first_bytes_disjoint; use dis step.hyps in simp)+
      with free_owned [of M b] assms(3) Some
      have "free_trie_node (?part i) (Some b) = Some (Inr (?part (Suc i)))" by (simp add: first_bytes_simps Un_ac)
      with Some step.IH here [of i] show ?thesis by (simp add: upt del: upt_Suc gone_simps)
    qed
  qed simp
  from this [of 0] show ?thesis by (simp add: free_pool_def first_bytes_simps first_bytes_all)
qed

section \<open>The memory of a broker\<close>

text \<open>All the trie nodes of a heap that holds the pool, all queues, and all message nodes.\<close>

definition memory_of :: "trie_heap \<Rightarrow> broker \<Rightarrow> memory" where
  "memory_of h b = \<lparr>trie_cells = cells h, queue_objects = (\<lambda>p. if p < length (queues b) then Some (queues b ! p) else None),
     message_nodes = heap b\<rparr>"

text \<open>What can be reached from the node that a name leads to.\<close>

definition cells_under :: "trie_heap \<Rightarrow> byte list \<Rightarrow> nat set" where
  "cells_under h nm = {b. \<exists>k. path_to h 0 (nm @ k) = Some b}"

definition queues_under :: "trie_node \<Rightarrow> byte list \<Rightarrow> nat set" where
  "queues_under t nm = {p. \<exists>k. trie_lookup t (nm @ k) = Some p}"

lemma node_at_snoc:
  "node_at t (nm @ [c]) = (case node_at t nm of None \<Rightarrow> None | Some t' \<Rightarrow> children t' c)"
proof (induction t nm rule: node_at.induct)
  case (1 t)
  then show ?case by (cases t) (simp split: option.splits)
next
  case (2 q ch d nm)
  then show ?case by (cases "ch d") simp_all
qed

lemma nonempty_split: "(\<exists>k. P k) \<longleftrightarrow> P [] \<or> (\<exists>c k. P (c # k))"
  by (metis list.exhaust)

lemma cells_under_split:
  "path_to h 0 nm = Some a \<Longrightarrow> cells_under h nm = insert a (\<Union>c. cells_under h (nm @ [c]))"
  using nonempty_split [of "\<lambda>k. path_to h 0 (nm @ k) = Some _"] by (auto simp: cells_under_def)

lemma queues_under_split:
  "queues_under t nm = set_option (trie_lookup t nm) \<union> (\<Union>c. queues_under t (nm @ [c]))"
  using nonempty_split [of "\<lambda>k. trie_lookup t (nm @ k) = Some _"] by (auto simp: queues_under_def)

lemma cells_apart:
  assumes "paths_ok P h"
  shows "c \<noteq> d \<Longrightarrow> cells_under h (nm @ [c]) \<inter> cells_under h (nm @ [d]) = {}"
    "path_to h 0 nm = Some a \<Longrightarrow> a \<notin> cells_under h (nm @ [c])"
proof -
  assume cd: "c \<noteq> d"
  have False if "path_to h 0 ((nm @ [c]) @ k) = Some x" "path_to h 0 ((nm @ [d]) @ l) = Some x" for k l x
    using path_to_inj [OF assms that] cd by simp
  then show "cells_under h (nm @ [c]) \<inter> cells_under h (nm @ [d]) = {}" unfolding cells_under_def by blast
next
  assume a: "path_to h 0 nm = Some a"
  have False if "path_to h 0 ((nm @ [c]) @ k) = Some a" for k
    using path_to_inj [OF assms that a] by simp
  then show "a \<notin> cells_under h (nm @ [c])" unfolding cells_under_def by blast
qed

lemma queues_apart:
  assumes "pool_ok b"
  shows "c \<noteq> d \<Longrightarrow> queues_under (pool b) (nm @ [c]) \<inter> queues_under (pool b) (nm @ [d]) = {}"
    "set_option (trie_lookup (pool b) nm) \<inter> queues_under (pool b) (nm @ [c]) = {}"
proof -
  have inj: "k = l" if "trie_lookup (pool b) k = Some p" "trie_lookup (pool b) l = Some p" for k l p
    using assms that unfolding pool_ok_def by metis
  { assume cd: "c \<noteq> d"
    have False if "trie_lookup (pool b) ((nm @ [c]) @ k) = Some p" "trie_lookup (pool b) ((nm @ [d]) @ l) = Some p" for k l p
      using inj [OF that] cd by simp
    then show "queues_under (pool b) (nm @ [c]) \<inter> queues_under (pool b) (nm @ [d]) = {}" unfolding queues_under_def by blast }
  have False if "trie_lookup (pool b) ((nm @ [c]) @ k) = Some p" "trie_lookup (pool b) nm = Some p" for k p
    using inj [OF that] by simp
  then show "set_option (trie_lookup (pool b) nm) \<inter> queues_under (pool b) (nm @ [c]) = {}"
    unfolding queues_under_def by fastforce
qed

definition nodes_under :: "(nat \<Rightarrow> nat list) \<Rightarrow> nat set \<Rightarrow> nat set" where
  "nodes_under as Q = (\<Union>p \<in> Q. set (as p))"

lemma nodes_apart:
  assumes "broker_rep b as ms xs" "A \<inter> B = {}" "A \<subseteq> {..<length (queues b)}" "B \<subseteq> {..<length (queues b)}"
  shows "nodes_under as A \<inter> nodes_under as B = {}"
proof -
  have "set (as p) \<inter> set (as p') = {}" if "p \<in> A" "p' \<in> B" for p p'
    using assms that unfolding broker_rep_def by blast
  then show ?thesis by (auto simp: nodes_under_def)
qed

lemma queues_under_bound: "pool_ok b \<Longrightarrow> queues_under (pool b) nm \<subseteq> {..<length (queues b)}"
  by (auto simp: queues_under_def pool_ok_def)

lemma node_in_memory:
  assumes P: "paths_ok P h" and shape: "heap_shape h = trie_shape t0" and a: "path_to h 0 nm = Some a"
  shows "\<exists>cell t. cells h a = Some cell \<and> node_at t0 nm = Some t \<and> cell_q cell = trie_lookup t0 nm \<and>
    (\<forall>c. cell_children cell c = None \<longrightarrow> cells_under h (nm @ [c]) = {} \<and> queues_under t0 (nm @ [c]) = {}) \<and>
    (\<forall>c b. cell_children cell c = Some b \<longrightarrow> path_to h 0 (nm @ [c]) = Some b \<and> children t c \<noteq> None)"
proof -
  from root_path [OF P a] obtain cell where cell: "cells h a = Some cell" by blast
  with a have "heap_shape h nm = Some (cell_q cell)" by (simp add: heap_shape_def)
  then obtain t where t: "node_at t0 nm = Some t" "node_q t = cell_q cell" by (auto simp: shape trie_shape_def)
  have child: "path_to h 0 (nm @ [c]) = cell_children cell c" for c
    using a cell by (simp add: path_to_append split: option.splits)
  have gap: "cells_under h (nm @ [c]) = {} \<and> queues_under t0 (nm @ [c]) = {}" if "cell_children cell c = None" for c
  proof -
    have none: "path_to h 0 ((nm @ [c]) @ k) = None" for k using child [of c] that by (simp only: path_to_append) simp
    then have "trie_shape t0 ((nm @ [c]) @ k) = None" for k using heap_shape_None [OF P] shape by metis
    then have "trie_lookup t0 ((nm @ [c]) @ k) = None" for k by (simp add: trie_shape_def trie_lookup_def)
    with none show ?thesis unfolding cells_under_def queues_under_def by simp
  qed
  have "children t c \<noteq> None" if "cell_children cell c = Some b" for c b
  proof -
    have "heap_shape h (nm @ [c]) \<noteq> None" using heap_shape_None [OF P] child [of c] that by simp
    then show ?thesis using t(1) by (simp add: shape trie_shape_def node_at_snoc)
  qed
  with cell t child gap show ?thesis by (intro exI [of _ cell] exI [of _ t]) (simp add: trie_lookup_def)
qed

lemma own_queue_at:
  assumes "broker_rep b as ms xs" "set_option q \<subseteq> {..<length (queues b)}"
  shows "own_queue (memory_of h b) q (set_option q) (nodes_under as (set_option q))"
  using assms broker_rep_queue(1) [OF assms(1)]
  by (cases q) (auto simp: own_queue_def nodes_under_def memory_of_def)

lemma nodes_under_Un: "nodes_under as (A \<union> (\<Union>c. B c)) = nodes_under as A \<union> (\<Union>c. nodes_under as (B c))"
  by (auto simp: nodes_under_def)

lemma parts_apart:
  assumes rep: "broker_rep b as ms xs" and P: "paths_ok P h" and a: "path_to h 0 nm = Some a"
  defines "F \<equiv> \<lambda>c. cells_under h (nm @ [c])" and "B \<equiv> \<lambda>c. queues_under (pool b) (nm @ [c])"
    and "Q \<equiv> set_option (trie_lookup (pool b) nm)"
  shows "\<forall>c. a \<notin> F c \<and> Q \<inter> B c = {} \<and> nodes_under as Q \<inter> nodes_under as (B c) = {}"
    "\<forall>c d. c \<noteq> d \<longrightarrow> F c \<inter> F d = {} \<and> B c \<inter> B d = {} \<and> nodes_under as (B c) \<inter> nodes_under as (B d) = {}"
    "Q \<subseteq> {..<length (queues b)}"
proof -
  have ok: "pool_ok b" using rep by (simp add: broker_rep_def)
  show Q: "Q \<subseteq> {..<length (queues b)}" using ok by (auto simp: Q_def pool_ok_def)
  have B: "B c \<subseteq> {..<length (queues b)}" for c using queues_under_bound [OF ok] by (simp add: B_def)
  show "\<forall>c. a \<notin> F c \<and> Q \<inter> B c = {} \<and> nodes_under as Q \<inter> nodes_under as (B c) = {}"
    using cells_apart(2) [OF P a] queues_apart(2) [OF ok, of nm] nodes_apart [OF rep _ Q B]
    unfolding F_def B_def Q_def by blast
  show "\<forall>c d. c \<noteq> d \<longrightarrow> F c \<inter> F d = {} \<and> B c \<inter> B d = {} \<and> nodes_under as (B c) \<inter> nodes_under as (B d) = {}"
    using cells_apart(1) [OF P] queues_apart(1) [OF ok] nodes_apart [OF rep _ B B] unfolding F_def B_def by blast
qed

lemma owned_under:
  assumes rep: "broker_rep b as ms xs" and P: "paths_ok P h" and shape: "heap_shape h = trie_shape (pool b)"
    and "node_at (pool b) nm = Some t" "path_to h 0 nm = Some a"
  shows "owned (memory_of h b) a (cells_under h nm) (queues_under (pool b) nm) (nodes_under as (queues_under (pool b) nm))"
  using assms(4,5)
proof (induction t arbitrary: nm a)
  case (Trie_Node q ch)
  note a = Trie_Node.prems(2)
  from node_in_memory [OF P shape a] Trie_Node.prems(1) obtain cell where
    cell: "cells h a = Some cell" "cell_q cell = trie_lookup (pool b) nm"
    and gap: "\<forall>c. cell_children cell c = None \<longrightarrow> cells_under h (nm @ [c]) = {} \<and> queues_under (pool b) (nm @ [c]) = {}"
    and child: "\<forall>c b. cell_children cell c = Some b \<longrightarrow> path_to h 0 (nm @ [c]) = Some b \<and> ch c \<noteq> None" by auto
  note apart = parts_apart [OF rep P a]
  show ?case
    unfolding queues_under_split [of "pool b" nm] cells_under_split [OF a] nodes_under_Un
  proof (rule owned.node [of "memory_of h b" a cell])
    show "trie_cells (memory_of h b) a = Some cell" using cell by (simp add: memory_of_def)
    show "\<forall>c. cell_children cell c = None \<longrightarrow> cells_under h (nm @ [c]) = {} \<and> queues_under (pool b) (nm @ [c]) = {} \<and>
        nodes_under as (queues_under (pool b) (nm @ [c])) = {}" using gap by (simp add: nodes_under_def)
    show "\<forall>c x. cell_children cell c = Some x \<longrightarrow> owned (memory_of h b) x (cells_under h (nm @ [c]))
        (queues_under (pool b) (nm @ [c])) (nodes_under as (queues_under (pool b) (nm @ [c])))"
    proof (intro allI impI)
      fix c x assume x: "cell_children cell c = Some x"
      with child obtain t where t: "ch c = Some t" by blast
      have "node_at (pool b) (nm @ [c]) = Some t" using Trie_Node.prems(1) t by (simp add: node_at_snoc)
      with Trie_Node.IH [OF rangeI, of t c] t child x
      show "owned (memory_of h b) x (cells_under h (nm @ [c])) (queues_under (pool b) (nm @ [c]))
        (nodes_under as (queues_under (pool b) (nm @ [c])))" by simp
    qed
    show "own_queue (memory_of h b) (cell_q cell) (set_option (trie_lookup (pool b) nm))
        (nodes_under as (set_option (trie_lookup (pool b) nm)))"
      unfolding cell(2) using own_queue_at [OF rep apart(3)] .
  qed (use apart in blast)+
qed

section \<open>Freeing the pool of the broker\<close>

text \<open>The trie of every reachable state is in memory: the walks that made it made the nodes.\<close>

lemma path_in_memory: "trie_rep h t \<Longrightarrow> trie_lookup t nm \<noteq> None \<Longrightarrow> \<exists>a. path_to h 0 nm = Some a"
  using heap_shape_None [of _ h nm] by (auto simp: trie_rep_def trie_shape_def trie_lookup_def split: option.splits)

lemma create_in_memory: "create_queue b nm = Inr (p, b') \<Longrightarrow> trie_rep h (pool b) \<Longrightarrow> \<exists>h'. trie_rep h' (pool b')"
  using walk_rep [of h "pool b" nm]
  by (auto simp: create_queue_def bindE_eq_Inr Let_def split: option.splits if_splits) blast

lemma effect_in_memory:
  assumes "effect m cs b m' cs' b'" "trie_rep h (pool b)"
  shows "\<exists>h'. trie_rep h' (pool b')"
  using assms(1)
proof (cases rule: effect.cases)
  case (declare_queue nm)
  with create_in_memory assms(2) show ?thesis by blast
next
  case (find_queue nm)
  with walk_rep [OF assms(2), of nm] show ?thesis by (auto simp: get_queue_lookup)
qed (use assms(2) in auto)

lemma history_in_memory: "history raw ro evs w \<Longrightarrow> \<exists>h. trie_rep h (pool (shared w))"
proof (induction rule: history.induct)
  case start
  have "trie_rep init_trie_heap init_queue_pool" using paths_ok_init heap_shape_init by (auto simp: trie_rep_def)
  then show ?case by (auto simp: init_world_def init_broker_def)
next
  case (more evs w ev w')
  from more.hyps(2) show ?case
  proof (cases rule: world_step.cases)
    case (work t m cs m' cs' b')
    then have "effect m cs (shared w) m' cs' b'" by (auto simp: machine_step_simp intro: action_effect)
    with effect_in_memory more.IH work show ?thesis by auto
  qed (use more.IH in auto)
qed

lemma free_pool_of:
  assumes exact: "heap_exact b" and rep: "broker_rep b as ms xs" and h: "trie_rep h (pool b)"
  shows "\<exists>M. free_pool (memory_of h b) 0 = Some (Inr M) \<and>
    (\<forall>k a. path_to h 0 k = Some a \<longrightarrow> (trie_cells M a \<noteq> None \<longleftrightarrow> k = [])) \<and>
    (\<forall>p. queue_objects M p \<noteq> None \<longleftrightarrow> trie_lookup (pool b) [] = Some p) \<and>
    dom (nodes (message_nodes M)) = nodes_under as (set_option (trie_lookup (pool b) []))"
proof -
  from h obtain P where P: "paths_ok P h" and shape: "heap_shape h = trie_shape (pool b)" by (auto simp: trie_rep_def)
  have root: "path_to h 0 [] = Some 0" by simp
  have ok: "pool_ok b" using rep by (simp add: broker_rep_def)
  let ?F = "\<lambda>c. cells_under h ([] @ [c])" and ?B = "\<lambda>c. queues_under (pool b) ([] @ [c])"
  let ?M = "gone (\<Union>c. ?F c) (\<Union>c. ?B c) (\<Union>c. nodes_under as (?B c)) (memory_of h b)"
  from node_in_memory [OF P shape root] obtain cell where cell: "cells h 0 = Some cell"
    and gap: "\<forall>c. cell_children cell c = None \<longrightarrow> ?F c = {} \<and> ?B c = {}"
    and child: "\<forall>c x. cell_children cell c = Some x \<longrightarrow> path_to h 0 ([] @ [c]) = Some x \<and> children (pool b) c \<noteq> None" by auto
  note apart = parts_apart [OF rep P root]
  have "free_pool (memory_of h b) 0 = Some (Inr ?M)"
  proof (rule free_pool_owned)
    show "trie_cells (memory_of h b) 0 = Some cell" using cell by (simp add: memory_of_def)
    show "\<forall>c. cell_children cell c = None \<longrightarrow> ?F c = {} \<and> ?B c = {} \<and> nodes_under as (?B c) = {}"
      using gap by (simp add: nodes_under_def)
    show "\<forall>c x. cell_children cell c = Some x \<longrightarrow> owned (memory_of h b) x (?F c) (?B c) (nodes_under as (?B c))"
    proof (intro allI impI)
      fix c x assume x: "cell_children cell c = Some x"
      with child obtain t where "children (pool b) c = Some t" by blast
      then have "node_at (pool b) ([] @ [c]) = Some t" by (simp only: node_at_snoc) simp
      with child x show "owned (memory_of h b) x (?F c) (?B c) (nodes_under as (?B c))"
        by (intro owned_under [OF rep P shape]) simp_all
    qed
  qed (use apart in blast)+
  moreover have "trie_cells ?M a \<noteq> None \<longleftrightarrow> k = []" if "path_to h 0 k = Some a" for k a
  proof (cases k)
    case Nil
    with that cell apart(1) show ?thesis by (simp add: memory_of_def)
  next
    case (Cons c k')
    with that have "a \<in> ?F c" by (auto simp: cells_under_def simp del: path_to.simps)
    with Cons show ?thesis by auto
  qed
  moreover have all: "p < length (queues b) \<longleftrightarrow> p \<in> set_option (trie_lookup (pool b) []) \<union> (\<Union>c. ?B c)" for p
    unfolding queues_under_split [of "pool b" "[]", symmetric] using ok by (auto simp: queues_under_def pool_ok_def)
  have "queue_objects ?M p \<noteq> None \<longleftrightarrow> trie_lookup (pool b) [] = Some p" for p
  proof -
    have "p \<in> set_option (trie_lookup (pool b) []) \<Longrightarrow> p \<notin> (\<Union>c. ?B c)" using apart(1) by blast
    with all [of p] have "p < length (queues b) \<and> p \<notin> (\<Union>c. ?B c) \<longleftrightarrow> p \<in> set_option (trie_lookup (pool b) [])" by blast
    then show ?thesis by (auto simp: memory_of_def)
  qed
  moreover have "dom (nodes (message_nodes ?M)) = nodes_under as (set_option (trie_lookup (pool b) []))"
  proof -
    have "dom (nodes (heap b)) = nodes_under as {..<length (queues b)}"
      using exact_nodes [OF exact rep] by (simp add: nodes_under_def lessThan_def)
    also have "{..<length (queues b)} = set_option (trie_lookup (pool b) []) \<union> (\<Union>c. ?B c)" using all by blast
    finally have dom: "dom (nodes (heap b)) =
      nodes_under as (set_option (trie_lookup (pool b) [])) \<union> (\<Union>c. nodes_under as (?B c))" by (simp only: nodes_under_Un)
    have "dom (nodes (message_nodes ?M)) = dom (nodes (heap b)) - (\<Union>c. nodes_under as (?B c))"
      by (auto simp: memory_of_def split: if_splits)
    also have "\<dots> = nodes_under as (set_option (trie_lookup (pool b) []))" using dom apart(1) by blast
    finally show ?thesis .
  qed
  ultimately show ?thesis by blast
qed

section \<open>Properties\<close>

text \<open>C30. \<^verbatim>\<open>free_pool\<close>, called in any reachable state with the trie in memory, however its nodes lie there,
  returns, and on its way reads no trie node, queue or message node that it has freed and frees none twice.
  It frees every trie node that a name leads to except the root, every queue except the one with
  the empty name, which the root keeps, and all messages but those of that queue.\<close>

theorem free_pool_frees_all_but_one:
  assumes "history raw ro evs w"
  shows "(\<exists>h. trie_rep h (pool (shared w))) \<and>
    (\<forall>h. trie_rep h (pool (shared w)) \<longrightarrow>
      (\<exists>M. free_pool (memory_of h (shared w)) 0 = Some (Inr M) \<and>
        (\<forall>k a. path_to h 0 k = Some a \<longrightarrow> (trie_cells M a \<noteq> None \<longleftrightarrow> k = [])) \<and>
        (\<forall>p. queue_objects M p \<noteq> None \<longleftrightarrow> trie_lookup (pool (shared w)) [] = Some p) \<and>
        finite (dom (nodes (message_nodes M))) \<and> int (card (dom (nodes (message_nodes M)))) =
          (case trie_lookup (pool (shared w)) [] of None \<Rightarrow> 0 | Some p \<Rightarrow> queue_size (queues (shared w) ! p))))"
proof -
  from history_inv [OF assms] obtain as ms xs where rep: "broker_rep (shared w) as ms xs"
    by (auto simp: world_inv_def broker_abs_def)
  then have ok: "pool_ok (shared w)" by (simp add: broker_rep_def)
  let ?N = "nodes_under as (set_option (trie_lookup (pool (shared w)) []))"
  have "int (card (set (as p))) = queue_size (queues (shared w) ! p)" if "trie_lookup (pool (shared w)) [] = Some p" for p
  proof -
    have "p < length (queues (shared w))" using ok that unfolding pool_ok_def by blast
    with broker_rep_queue(1) [OF rep] show ?thesis by (auto simp: queue_rep_def distinct_card dest: holds_length)
  qed
  then have "int (card ?N) = (case trie_lookup (pool (shared w)) [] of None \<Rightarrow> 0 | Some p \<Rightarrow> queue_size (queues (shared w) ! p))"
    by (cases "trie_lookup (pool (shared w)) []") (simp_all add: nodes_under_def)
  moreover have "finite ?N" by (simp add: nodes_under_def)
  ultimately have N: "finite ?N \<and> int (card ?N) =
      (case trie_lookup (pool (shared w)) [] of None \<Rightarrow> 0 | Some p \<Rightarrow> queue_size (queues (shared w) ! p))" by blast
  show ?thesis
  proof (intro conjI allI impI)
    show "\<exists>h. trie_rep h (pool (shared w))" by (rule history_in_memory [OF assms])
    fix h assume "trie_rep h (pool (shared w))"
    from free_pool_of [OF history_exact [OF assms] rep this] obtain M where
      M: "free_pool (memory_of h (shared w)) 0 = Some (Inr M)"
        "\<forall>k a. path_to h 0 k = Some a \<longrightarrow> (trie_cells M a \<noteq> None \<longleftrightarrow> k = [])"
        "\<forall>p. queue_objects M p \<noteq> None \<longleftrightarrow> trie_lookup (pool (shared w)) [] = Some p"
        "dom (nodes (message_nodes M)) = ?N" by blast
    show "\<exists>M. free_pool (memory_of h (shared w)) 0 = Some (Inr M) \<and>
        (\<forall>k a. path_to h 0 k = Some a \<longrightarrow> (trie_cells M a \<noteq> None \<longleftrightarrow> k = [])) \<and>
        (\<forall>p. queue_objects M p \<noteq> None \<longleftrightarrow> trie_lookup (pool (shared w)) [] = Some p) \<and>
        finite (dom (nodes (message_nodes M))) \<and> int (card (dom (nodes (message_nodes M)))) =
          (case trie_lookup (pool (shared w)) [] of None \<Rightarrow> 0 | Some p \<Rightarrow> queue_size (queues (shared w) ! p))"
      by (rule exI [of _ M], unfold M(4)) (intro conjI M(1-3) conjunct1 [OF N] conjunct2 [OF N])
  qed
qed

theorem free_pool_frees_all_but_one_witness:
  "\<exists>evs w h M a. history two_subscribers [0, 0, 0] evs w \<and> trie_rep h (pool (shared w)) \<and>
     path_to h 0 [0x71] = Some a \<and> free_pool (memory_of h (shared w)) 0 = Some (Inr M) \<and> trie_cells M a = None \<and>
     (\<forall>p. queue_objects M p = None) \<and> dom (nodes (message_nodes M)) = {}"
proof -
  obtain evs b cs cs' where
    h: "history two_subscribers [0, 0, 0] evs \<lparr>shared = b, threads = [2 \<mapsto> (WAIT_VALUE_DEQUEUE, cs), 3 \<mapsto> (WAIT_PUBLISH_CONTENT, cs')]\<rparr>"
    and abs: "broker_abs b [[0x71] \<mapsto> ([[0x68]], [2], 2)]" using sample_world_with_message by blast
  have none: "trie_lookup (pool b) [] = None" and some: "trie_lookup (pool b) [0x71] \<noteq> None"
    using abs unfolding broker_abs_def by (metis fun_upd_apply list.distinct(1), metis fun_upd_same option.distinct(1))
  note all = free_pool_frees_all_but_one [OF h, unfolded world.select_convs(1)]
  from all obtain t where t: "trie_rep t (pool b)" by blast
  from some obtain a where a: "path_to t 0 [0x71] = Some a"
    using path_in_memory [OF t, of "[0x71]"] by blast
  from all [THEN conjunct2, rule_format, OF t] obtain M where
    f: "free_pool (memory_of t b) 0 = Some (Inr M)" "\<forall>k a. path_to t 0 k = Some a \<longrightarrow> (trie_cells M a \<noteq> None \<longleftrightarrow> k = [])"
      "\<forall>p. queue_objects M p \<noteq> None \<longleftrightarrow> trie_lookup (pool b) [] = Some p" "finite (dom (nodes (message_nodes M)))"
      "int (card (dom (nodes (message_nodes M)))) =
        (case trie_lookup (pool b) [] of None \<Rightarrow> 0 | Some p \<Rightarrow> queue_size (queues b ! p))" by auto
  have "trie_cells M a = None" "\<forall>p. queue_objects M p = None" "dom (nodes (message_nodes M)) = {}"
    using f(2) [rule_format, OF a] f(3-5) none by auto
  with h t a f(1) show ?thesis by (metis world.select_convs(1))
qed

end
