(* ===== verification/Server.thy ===== *)
theory Server
  imports World
begin

text \<open>
  \<^verbatim>\<open>src/ep1.c\<close>: how the process starts and ends, the table of connection slots, the main thread that reserves a slot, accepts
  a connection and starts its thread, and what a connection thread does around its state
  machine. The table is only changed under \<^verbatim>\<open>thread_allocation_mutex\<close>, which the search for a
  free slot holds from beginning to end.
\<close>

section \<open>The slots\<close>

record connection_thread =
  active :: int
  slot_id :: int
  slot_connfd :: int

text \<open>\<^verbatim>\<open>bzero\<close> of the whole table.\<close>

definition init_slots :: "connection_thread list" where
  "init_slots = replicate MAX_CONNECTIONS \<lparr>active = 0, slot_id = 0, slot_connfd = 0\<rparr>"

text \<open>
  The search for a free slot, with its counter \<open>i\<close>: the index is \<open>tc + (i mod MAX_CONNECTIONS)\<close>,
  as the precedence of the operators has it. \<open>None\<close> is a search that never ends.
\<close>

partial_function (option) search ::
  "connection_thread list \<Rightarrow> nat \<Rightarrow> nat \<Rightarrow> (nat \<times> connection_thread list) result option" where
  "search slots tc i =
     (let i = (if i = MAX_CONNECTIONS then 0 else i);
          k = tc + i mod MAX_CONNECTIONS
      in if length slots \<le> k then Some (Inl (UB Out_of_bounds))
         else if active (slots ! k) = 0 then Some (Inr (k, slots[k := (slots ! k)\<lparr>active := 1\<rparr>]))
         else search slots tc (i + 1))"

definition allocate_slot :: "connection_thread list \<Rightarrow> nat \<Rightarrow> (nat \<times> connection_thread list) result option" where
  "allocate_slot slots tc = search slots tc 0"

text \<open>After \<^verbatim>\<open>accept\<close>: the slot is filled in, its thread starts, and the next search begins
  one slot further.\<close>

definition fill_slot :: "nat \<Rightarrow> int \<Rightarrow> connection_thread list \<Rightarrow> connection_thread list" where
  "fill_slot k fd slots = slots[k := (slots ! k)\<lparr>slot_connfd := fd, slot_id := int k\<rparr>]"

definition next_count :: "nat \<Rightarrow> nat" where
  "next_count tc = (tc + 1) mod MAX_CONNECTIONS"

text \<open>What \<^verbatim>\<open>connection_thread_main\<close> runs, and how it gives its slot back.\<close>

definition thread_start :: "connection_thread \<Rightarrow> rx_event list \<Rightarrow> machine_state \<times> connection_state" where
  "thread_start th input = (WAIT, init_connection (slot_connfd th) (slot_id th) input)"

definition release_slot :: "nat \<Rightarrow> connection_thread list \<Rightarrow> connection_thread list result" where
  "release_slot k slots =
     (let j = slot_id (slots ! k) in
      if 0 \<le> j \<and> j < int (length slots)
      then Inr (slots[nat j := (slots ! nat j)\<lparr>active := 0\<rparr>]) else Inl (UB Out_of_bounds))"

section \<open>The search for a slot\<close>

definition first_free :: "connection_thread list \<Rightarrow> nat \<Rightarrow> nat option" where
  "first_free slots tc = find (\<lambda>k. active (slots ! k) = 0) [tc ..< length slots]"

lemma first_free_Some:
  "first_free slots tc = Some k \<Longrightarrow> tc \<le> k \<and> k < length slots \<and> active (slots ! k) = 0 \<and>
     (\<forall>j. tc \<le> j \<and> j < k \<longrightarrow> active (slots ! j) \<noteq> 0)"
proof -
  assume "first_free slots tc = Some k"
  then obtain n where n: "n < length [tc ..< length slots]" "active (slots ! ([tc ..< length slots] ! n)) = 0"
    "k = [tc ..< length slots] ! n" "\<forall>j < n. active (slots ! ([tc ..< length slots] ! j)) \<noteq> 0"
    unfolding first_free_def find_Some_iff by blast
  have "active (slots ! j) \<noteq> 0" if "tc \<le> j" "j < k" for j
    using n(4) [rule_format, of "j - tc"] n(1,3) that by auto
  with n show ?thesis by auto
qed

lemma first_free_None: "first_free slots tc = None \<longleftrightarrow> (\<forall>j. tc \<le> j \<and> j < length slots \<longrightarrow> active (slots ! j) \<noteq> 0)"
  unfolding first_free_def find_None_iff by auto

lemma search_busy:
  assumes "length slots = MAX_CONNECTIONS" "\<forall>j. tc \<le> j \<and> j < tc + i \<longrightarrow> active (slots ! j) \<noteq> 0"
    and "tc + i \<le> MAX_CONNECTIONS" "n \<le> i"
  shows "search slots tc n = search slots tc i"
  using assms
proof (induction "i - n" arbitrary: n)
  case (Suc d)
  then have "n < i" "n < MAX_CONNECTIONS" by auto
  with Suc.prems have "search slots tc n = search slots tc (n + 1)"
    by (subst search.simps) (simp add: Let_def)
  moreover have "search slots tc (n + 1) = search slots tc i"
  proof (cases "n + 1 = i")
    case False
    then show ?thesis using Suc.hyps(1) [of "n + 1"] Suc.hyps(2) Suc.prems \<open>n < i\<close> by simp
  qed simp
  ultimately show ?case by simp
qed simp

lemma search_found:
  assumes "length slots = MAX_CONNECTIONS" "first_free slots tc = Some k"
  shows "search slots tc 0 = Some (Inr (k, slots[k := (slots ! k)\<lparr>active := 1\<rparr>]))"
proof -
  note k = first_free_Some [OF assms(2)]
  then have "search slots tc 0 = search slots tc (k - tc)"
    using search_busy [OF assms(1), of tc "k - tc" 0] assms(1) by auto
  also have "\<dots> = Some (Inr (k, slots[k := (slots ! k)\<lparr>active := 1\<rparr>]))"
    using k assms(1) by (subst search.simps) (auto simp: Let_def)
  finally show ?thesis .
qed

lemma search_overrun:
  assumes "length slots = MAX_CONNECTIONS" "first_free slots tc = None" "0 < tc" "tc \<le> MAX_CONNECTIONS"
  shows "search slots tc 0 = Some (Inl (UB Out_of_bounds))"
proof -
  have "search slots tc 0 = search slots tc (MAX_CONNECTIONS - tc)"
    using search_busy [OF assms(1), of tc "MAX_CONNECTIONS - tc" 0] assms by (auto simp: first_free_None MAX_CONNECTIONS_def)
  also have "\<dots> = Some (Inl (UB Out_of_bounds))"
    using assms by (subst search.simps) (auto simp: Let_def MAX_CONNECTIONS_def)
  finally show ?thesis .
qed

text \<open>With every slot taken, from the first one on, the search goes round for ever.\<close>

lemma search_returns_free:
  assumes "search slots tc i = Some r"
  shows "length slots = MAX_CONNECTIONS \<longrightarrow> tc = 0 \<longrightarrow> (\<exists>k < MAX_CONNECTIONS. active (slots ! k) = 0)"
proof (rule search.raw_induct [OF _ assms])
  fix f slots tc i r
  assume IH: "\<And>slots tc i r. f slots tc i = Some r \<Longrightarrow>
      length slots = MAX_CONNECTIONS \<longrightarrow> tc = 0 \<longrightarrow> (\<exists>k < MAX_CONNECTIONS. active (slots ! k) = 0)"
    and r: "(let i = (if i = MAX_CONNECTIONS then 0 else i); k = tc + i mod MAX_CONNECTIONS
      in if length slots \<le> k then Some (Inl (UB Out_of_bounds))
         else if active (slots ! k) = 0 then Some (Inr (k, slots[k := (slots ! k)\<lparr>active := 1\<rparr>]))
         else f slots tc (i + 1)) = Some r"
  have "0 < MAX_CONNECTIONS" by (simp add: MAX_CONNECTIONS_def)
  then have less: "n mod MAX_CONNECTIONS < MAX_CONNECTIONS" for n by simp
  show "length slots = MAX_CONNECTIONS \<longrightarrow> tc = 0 \<longrightarrow> (\<exists>k < MAX_CONNECTIONS. active (slots ! k) = 0)"
  proof (intro impI)
    assume len: "length slots = MAX_CONNECTIONS" and tc: "tc = 0"
    let ?i = "if i = MAX_CONNECTIONS then 0 else i"
    show "\<exists>k < MAX_CONNECTIONS. active (slots ! k) = 0"
    proof (cases "active (slots ! (?i mod MAX_CONNECTIONS)) = 0")
      case True
      with less show ?thesis by blast
    next
      case False
      with r len tc less [of ?i] have "f slots 0 (?i + 1) = Some r" by (simp add: Let_def)
      from IH [OF this] len show ?thesis by blast
    qed
  qed
qed

lemma search_forever:
  assumes "length slots = MAX_CONNECTIONS" "first_free slots 0 = None"
  shows "search slots 0 i = None"
  using assms search_returns_free [of slots 0 i] by (cases "search slots 0 i") (auto simp: first_free_None)

section \<open>The server\<close>

text \<open>
  The table, \<^verbatim>\<open>thread_count\<close>, the slot reserved for the connection that \<^verbatim>\<open>accept\<close> waits for, and
  the running threads with what they share.
\<close>

record server =
  table :: "connection_thread list"
  thread_count :: nat
  reserved :: "nat option"
  running :: world

definition init_server :: "round_robin_scheduler \<Rightarrow> byte list \<Rightarrow> server" where
  "init_server raw ro =
     \<lparr>table = init_slots, thread_count = 0, reserved = None, running = init_world raw ro\<rparr>"

inductive server_step :: "server \<Rightarrow> event list \<Rightarrow> server \<Rightarrow> bool" where
  reserve: "reserved s = None \<Longrightarrow> allocate_slot (table s) (thread_count s) = Some (Inr (k, slots')) \<Longrightarrow>
    server_step s [] (s\<lparr>table := slots', thread_count := k, reserved := Some k\<rparr>)"
| connect: "reserved s = Some k \<Longrightarrow> slots' = fill_slot k fd (table s) \<Longrightarrow>
    server_step s [] (s\<lparr>table := slots', thread_count := next_count k, reserved := None,
      running := running s\<lparr>threads := (threads (running s))(int k \<mapsto> thread_start (slots' ! k) input)\<rparr>\<rparr>)"
| proceed: "world_step (running s) ev w \<Longrightarrow> dom (threads w) = dom (threads (running s)) \<Longrightarrow>
    server_step s ev (s\<lparr>running := w\<rparr>)"
| finish: "threads (running s) t = Some (m, cs) \<Longrightarrow> m = FINISHED \<or> m = FAIL \<Longrightarrow>
    release_slot (nat t) (table s) = Inr slots' \<Longrightarrow>
    server_step s [] (s\<lparr>table := slots', running := running s\<lparr>threads := (threads (running s))(t := None)\<rparr>\<rparr>)"

inductive server_history :: "round_robin_scheduler \<Rightarrow> byte list \<Rightarrow> event list \<Rightarrow> server \<Rightarrow> bool" for raw ro where
  booted: "server_history raw ro [] (init_server raw ro)"
| served: "server_history raw ro evs s \<Longrightarrow> server_step s ev s' \<Longrightarrow> server_history raw ro (evs @ ev) s'"

text \<open>A slot is taken exactly while its thread runs or a connection is awaited for it.\<close>

definition server_inv :: "server \<Rightarrow> bool" where
  "server_inv s \<longleftrightarrow> length (table s) = MAX_CONNECTIONS \<and> thread_count s < MAX_CONNECTIONS \<and>
     (\<forall>k < MAX_CONNECTIONS. active (table s ! k) \<noteq> 0 \<longleftrightarrow> threads (running s) (int k) \<noteq> None \<or> reserved s = Some k) \<and>
     (\<forall>t st. threads (running s) t = Some st \<longrightarrow> 0 \<le> t \<and> t < int MAX_CONNECTIONS \<and> slot_id (table s ! nat t) = t) \<and>
     (\<forall>k. reserved s = Some k \<longrightarrow> k < MAX_CONNECTIONS \<and> threads (running s) (int k) = None)"

lemma init_server_inv: "server_inv (init_server raw ro)"
  by (simp add: server_inv_def init_server_def init_slots_def init_world_def MAX_CONNECTIONS_def)

lemma allocate_slot_Inr:
  assumes "length slots = MAX_CONNECTIONS" "tc < MAX_CONNECTIONS" "allocate_slot slots tc = Some (Inr (k, slots'))"
  shows "tc \<le> k \<and> k < MAX_CONNECTIONS \<and> active (slots ! k) = 0 \<and> slots' = slots[k := (slots ! k)\<lparr>active := 1\<rparr>]"
proof -
  have "\<exists>j. first_free slots tc = Some j"
    using assms search_overrun [of slots tc] search_forever [of slots 0]
    by (cases "first_free slots tc"; cases "tc = 0") (auto simp: allocate_slot_def)
  then obtain j where j: "first_free slots tc = Some j" by blast
  with search_found [OF assms(1) j] assms(3) first_free_Some [OF j] assms(1) show ?thesis
    by (auto simp: allocate_slot_def)
qed

lemma release_own_slot:
  assumes "server_inv s" "threads (running s) t = Some st"
  shows "release_slot (nat t) (table s) = Inr ((table s)[nat t := (table s ! nat t)\<lparr>active := 0\<rparr>])"
  using assms by (auto simp: server_inv_def release_slot_def Let_def)

lemma slot_id_active [simp]:
  "slot_id (sl[j := (sl ! j)\<lparr>active := x\<rparr>] ! k) = slot_id (sl ! k)"
  by (cases "j < length sl"; cases "j = k") (auto simp: list_update_beyond)

lemma server_inv_step:
  assumes "server_step s ev s'" "server_inv s"
  shows "server_inv s' \<and> (running s' = running s \<and> ev = [] \<or> world_step (running s) ev (running s'))"
  using assms
proof (induction rule: server_step.induct)
  case (reserve s k slots')
  from reserve(3) have s: "length (table s) = MAX_CONNECTIONS" "thread_count s < MAX_CONNECTIONS"
    by (simp_all add: server_inv_def)
  from allocate_slot_Inr [OF s reserve(2)] reserve(1,3) show ?case
    by (auto simp: server_inv_def nth_list_update)
next
  case (connect s k slots' fd input)
  then have k: "k < MAX_CONNECTIONS" "threads (running s) (int k) = None" "length (table s) = MAX_CONNECTIONS"
    by (auto simp: server_inv_def)
  then have sl: "slots' ! k = (table s ! k)\<lparr>slot_connfd := fd, slot_id := int k\<rparr>"
    by (simp add: connect(2) fill_slot_def)
  have "world_step (running s) []
      (running s\<lparr>threads := (threads (running s))(int k \<mapsto> (WAIT, init_connection fd (int k) input))\<rparr>)"
    using k by (intro accept) auto
  then have "world_step (running s) []
      (running s\<lparr>threads := (threads (running s))(int k \<mapsto> thread_start (slots' ! k) input)\<rparr>)"
    by (simp add: sl thread_start_def)
  moreover have "next_count k < MAX_CONNECTIONS" by (simp add: next_count_def MAX_CONNECTIONS_def)
  ultimately show ?case
    using connect k by (auto simp: server_inv_def fill_slot_def nth_list_update)
next
  case (proceed s ev w)
  then have "threads w t = None \<longleftrightarrow> threads (running s) t = None" for t by (metis domIff)
  moreover from this have "threads w t = Some st \<Longrightarrow> \<exists>st'. threads (running s) t = Some st'" for t st
    by (metis option.exhaust option.distinct(1))
  ultimately show ?case using proceed by (auto simp: server_inv_def)
next
  case (finish s t m cs slots')
  from release_own_slot [OF finish(4,1)] finish(3) have
    sl: "slots' = (table s)[nat t := (table s ! nat t)\<lparr>active := 0\<rparr>]" by simp
  have "world_step (running s) [] (running s\<lparr>threads := (threads (running s))(t := None)\<rparr>)"
    using finish(1,2) by (rule close)
  moreover have "0 \<le> t" "t < int MAX_CONNECTIONS" "reserved s \<noteq> Some (nat t)"
    using finish(1,4) by (auto simp: server_inv_def)
  ultimately show ?case
    using finish(1,4) unfolding sl by (auto simp: server_inv_def nth_list_update)
qed

lemma server_history_inv: "server_history raw ro evs s \<Longrightarrow> server_inv s \<and> history raw ro evs (running s)"
proof (induction rule: server_history.induct)
  case booted
  have "running (init_server raw ro) = init_world raw ro" by (simp add: init_server_def)
  with init_server_inv start show ?case by metis
next
  case (served evs s ev s')
  with server_inv_step [OF served(2)] more show ?case by fastforce
qed

section \<open>Start and end of the process\<close>

text \<open>\<^verbatim>\<open>atoi\<close>: spaces, a sign, digits. A value that is no \<^verbatim>\<open>int\<close> is undefined behaviour.\<close>

definition is_digit :: "char \<Rightarrow> bool" where
  "is_digit c \<longleftrightarrow> 48 \<le> (of_char c :: nat) \<and> (of_char c :: nat) \<le> 57"

definition is_space :: "char \<Rightarrow> bool" where
  "is_space c \<longleftrightarrow> (of_char c :: nat) = 32 \<or> 9 \<le> (of_char c :: nat) \<and> (of_char c :: nat) \<le> 13"

definition digits :: "string \<Rightarrow> int" where
  "digits cs = foldl (\<lambda>n c. 10 * n + (of_char c - 48)) 0 (takeWhile is_digit cs)"

definition atoi :: "string \<Rightarrow> int result" where
  "atoi str =
     (let n = (case dropWhile is_space str of [] \<Rightarrow> 0
        | c # cs \<Rightarrow> if c = CHR ''-'' then - digits cs else if c = CHR ''+'' then digits cs else digits (c # cs))
      in bindE (assertE Signed_overflow (- (2 ^ 31) \<le> n \<and> n < 2 ^ 31)) (\<lambda>_. Inr n))"

text \<open>
  \<^verbatim>\<open>main\<close> up to its loop: the exit code, or the port in network order. What \<^verbatim>\<open>socket\<close>, \<^verbatim>\<open>bind\<close>
  and \<^verbatim>\<open>listen\<close> return is given.
\<close>

definition start_up :: "string list \<Rightarrow> int \<Rightarrow> int \<Rightarrow> int \<Rightarrow> (int + 16 word) result" where
  "start_up argv socket_result bind_result listen_result =
     (if length argv \<noteq> 2 then Inr (Inl 1)
      else if socket_result = - 1 then Inr (Inl 2)
      else bindE (atoi (argv ! 1)) (\<lambda>n.
        let sin_port = htons (word_of_int n) in
        if bind_result = - 1 then Inr (Inl 3)
        else if listen_result = - 1 then Inr (Inl 4)
        else Inr (Inr sin_port)))"

text \<open>A failing \<^verbatim>\<open>accept\<close> ends the process with all its connections.\<close>

datatype process = Exited int | Serving server

inductive process_step :: "process \<Rightarrow> event list \<Rightarrow> process \<Rightarrow> bool" where
  serve: "server_step s ev s' \<Longrightarrow> process_step (Serving s) ev (Serving s')"
| accept_fails: "reserved s = Some k \<Longrightarrow> process_step (Serving s) [] (Exited 5)"

inductive process_history ::
  "round_robin_scheduler \<Rightarrow> byte list \<Rightarrow> event list \<Rightarrow> process \<Rightarrow> bool" for raw ro where
  launch: "start_up argv socket_result bind_result listen_result = Inr r \<Longrightarrow>
    process_history raw ro [] (case r of Inl code \<Rightarrow> Exited code | Inr port \<Rightarrow> Serving (init_server raw ro))"
| lives: "process_history raw ro evs p \<Longrightarrow> process_step p ev p' \<Longrightarrow> process_history raw ro (evs @ ev) p'"

inductive_cases process_stepE: "process_step p ev (Serving s)" "process_step p ev (Exited code)"

lemma start_up_serves:
  "start_up argv so bi li = Inr (Inr port) \<longleftrightarrow>
     (\<exists>prog arg n. argv = [prog, arg] \<and> so \<noteq> - 1 \<and> bi \<noteq> - 1 \<and> li \<noteq> - 1 \<and> atoi arg = Inr n \<and> port = htons (word_of_int n))"
  by (auto simp: start_up_def Let_def bindE_eq_Inr length_Suc_conv numeral_2_eq_2)

lemma start_up_codes: "start_up argv so bi li = Inr (Inl code) \<Longrightarrow> code \<in> {1, 2, 3, 4}"
  by (auto simp: start_up_def Let_def bindE_eq_Inr split: if_splits)

text \<open>The number of the port is taken modulo 65536.\<close>

lemma port_wraps: "start_up [prog, ''65616''] 3 0 0 = start_up [prog, ''80''] 3 0 0"
proof -
  have "(65616 :: 16 word) = 80" by simp
  then have "htons 65616 = htons 80" by (rule arg_cong)
  then show ?thesis by (simp add: start_up_def atoi_def digits_def is_space_def is_digit_def Let_def)
qed

lemma serving_history: "process_history raw ro evs (Serving s) \<Longrightarrow> server_history raw ro evs s"
proof (induction evs "Serving s" arbitrary: s rule: process_history.induct)
  case (launch argv so bi li r)
  then show ?case using booted by (auto split: sum.splits)
next
  case (lives evs p ev)
  then show ?case by (auto elim!: process_stepE intro: served)
qed

lemma exit_codes: "process_history raw ro evs (Exited code) \<Longrightarrow> code \<in> {1, 2, 3, 4, 5}"
proof (induction evs "Exited code" rule: process_history.induct)
  case (launch argv so bi li r)
  then show ?case using start_up_codes by (fastforce split: sum.splits)
next
  case (lives evs p ev)
  then show ?case by (auto elim!: process_stepE)
qed

section \<open>Properties\<close>

text \<open>What the search for a slot does: it takes the first free slot at or after
  \<^verbatim>\<open>thread_count\<close>. When there is none it reads past the end of the table, unless it started at
  slot 0: then it goes round for ever, and holds the mutex without which no connection can
  give its slot back.\<close>

lemma slot_search:
  assumes "length slots = MAX_CONNECTIONS" "tc < MAX_CONNECTIONS"
  shows "allocate_slot slots tc =
    (case first_free slots tc of
       Some k \<Rightarrow> Some (Inr (k, slots[k := (slots ! k)\<lparr>active := 1\<rparr>]))
     | None \<Rightarrow> if tc = 0 then None else Some (Inl (UB Out_of_bounds)))"
  using search_found [OF assms(1), of tc] search_overrun [OF assms(1), of tc] search_forever [OF assms(1), of 0] assms
  by (auto simp: allocate_slot_def split: option.split)

text \<open>A server that accepted its first connection, for the examples.\<close>

lemma sample_server:
  "\<exists>s. server_history two_subscribers [0, 0, 0] [] s \<and> threads (running s) 0 = Some (WAIT, init_connection 4 0 input) \<and>
     reserved s = None \<and> shared (running s) = init_broker two_subscribers [0, 0, 0]"
proof -
  let ?s = "init_server two_subscribers [0, 0, 0]"
  have f: "first_free init_slots 0 = Some 0"
    by (simp add: first_free_def init_slots_def MAX_CONNECTIONS_def upt_rec [of 0])
  have "allocate_slot init_slots 0 = Some (Inr (0, init_slots[0 := (init_slots ! 0)\<lparr>active := 1\<rparr>]))"
    using search_found [OF _ f] by (simp add: allocate_slot_def init_slots_def)
  then have "server_step ?s [] (?s\<lparr>table := init_slots[0 := (init_slots ! 0)\<lparr>active := 1\<rparr>], thread_count := 0, reserved := Some 0\<rparr>)"
    (is "server_step ?s [] ?s1") by (intro reserve) (simp_all add: init_server_def)
  from served [OF booted this] have h: "server_history two_subscribers [0, 0, 0] [] ?s1" by simp
  let ?sl = "fill_slot 0 4 (table ?s1)"
  have "server_step ?s1 [] (?s1\<lparr>table := ?sl, thread_count := next_count 0, reserved := None,
      running := running ?s1\<lparr>threads := (threads (running ?s1))(int 0 \<mapsto> thread_start (?sl ! 0) input)\<rparr>\<rparr>)"
    by (rule connect) simp_all
  from served [OF h this] show ?thesis
    by (intro exI) (auto simp: fill_slot_def thread_start_def init_slots_def init_server_def init_world_def MAX_CONNECTIONS_def)
qed

text \<open>C7. Every live connection has a slot of its own: at any moment the slots marked active
  are exactly those whose connection thread runs, and the one the main thread reserved for
  the connection it waits for; each thread runs under the index of its slot as thread id.\<close>

theorem slots_belong_to_threads:
  assumes "server_history raw ro evs s"
  shows "(\<forall>k < MAX_CONNECTIONS. active (table s ! k) \<noteq> 0 \<longleftrightarrow> threads (running s) (int k) \<noteq> None \<or> reserved s = Some k) \<and>
    (\<forall>t m cs. threads (running s) t = Some (m, cs) \<longrightarrow>
      0 \<le> t \<and> t < int MAX_CONNECTIONS \<and> tid cs = t \<and> slot_id (table s ! nat t) = t \<and> reserved s \<noteq> Some (nat t))"
proof -
  from server_history_inv [OF assms] have inv: "server_inv s" and h: "history raw ro evs (running s)" by auto
  from history_inv [OF h] obtain M where M: "world_inv (running s) M" by blast
  have "tid cs = t" if "threads (running s) t = Some (m, cs)" for t m cs
    using M that by (auto simp: world_inv_def thread_ok_def)
  with inv show ?thesis by (fastforce simp: server_inv_def)
qed

theorem slots_belong_to_threads_witness:
  "\<exists>s. server_history two_subscribers [0, 0, 0] [] s \<and> threads (running s) 0 = Some (WAIT, init_connection 4 0 []) \<and>
     slot_id (table s ! 0) = 0"
  using sample_server [of "[]"] slots_belong_to_threads [of two_subscribers "[0, 0, 0]" "[]"] by fastforce

text \<open>A server is a world, and what holds of worlds holds of it.\<close>

lemma server_runs_the_broker:
  assumes "server_history raw ro evs s" "trie_lookup (pool (shared (running s))) nm = Some i"
  shows "history raw ro evs (running s) \<and>
    (\<exists>as ms. queue_rep (heap (shared (running s))) (queues (shared (running s)) ! i) as ms \<and>
      published nm evs = handed nm evs @ ms)"
  using server_history_inv [OF assms(1)] exactly_once [of raw ro evs "running s" nm] assms(2) by auto

end
