(* ===== verification/Accepting.thy ===== *)
theory Accepting
  imports Server
begin

text \<open>
  The loop of \<^verbatim>\<open>main\<close> at a finer grain. In \<open>Server\<close> the search for a slot is one step; here
  each look at a slot is one, and \<^verbatim>\<open>thread_allocation_mutex\<close>, which the main thread holds from the
  first look to the last, keeps connection threads from giving their slots back meanwhile.
\<close>

section \<open>The loop\<close>

datatype loop_phase = At_top | Searching nat | Awaiting

record accept_loop =
  srv :: server
  phase :: loop_phase

definition init_loop :: "round_robin_scheduler \<Rightarrow> byte list \<Rightarrow> accept_loop" where
  "init_loop raw ro = \<lparr>srv = init_server raw ro, phase = At_top\<rparr>"

text \<open>A look at a slot: its index, when it is free.\<close>

definition look :: "connection_thread list \<Rightarrow> nat \<Rightarrow> nat \<Rightarrow> nat option result" where
  "look slots tc i =
     (let k = tc + i mod MAX_CONNECTIONS
      in bindE (assertE Out_of_bounds (k < length slots)) (\<lambda>_. Inr (if active (slots ! k) = 0 then Some k else None)))"

text \<open>
  \<open>lock\<close>: the mutex, free at the top of the loop, is taken and the search begins. \<open>busy\<close>: the next
  slot is tried. \<open>rest\<close>: \<^verbatim>\<open>i == MAX_CONNECTIONS\<close>, the main thread logs, sleeps and starts over,
  with the mutex held. \<open>take\<close>: a slot is reserved and the mutex released. \<open>arrive\<close>: \<^verbatim>\<open>accept\<close> returns
  and the thread of the connection starts. \<open>run\<close>: a connection thread works. \<open>leave\<close>: one that ended
  takes the mutex and gives its slot back.
\<close>

inductive loop_step :: "accept_loop \<Rightarrow> event list \<Rightarrow> accept_loop \<Rightarrow> bool" where
  lock: "phase l = At_top \<Longrightarrow> loop_step l [] (l\<lparr>phase := Searching 0\<rparr>)"
| busy: "phase l = Searching i \<Longrightarrow> i < MAX_CONNECTIONS \<Longrightarrow>
    look (table (srv l)) (thread_count (srv l)) i = Inr None \<Longrightarrow> loop_step l [] (l\<lparr>phase := Searching (i + 1)\<rparr>)"
| rest: "phase l = Searching MAX_CONNECTIONS \<Longrightarrow> loop_step l [] (l\<lparr>phase := Searching 0\<rparr>)"
| take: "phase l = Searching i \<Longrightarrow> i < MAX_CONNECTIONS \<Longrightarrow>
    look (table (srv l)) (thread_count (srv l)) i = Inr (Some k) \<Longrightarrow>
    loop_step l [] (l\<lparr>srv := (srv l)\<lparr>table := (table (srv l))[k := (table (srv l) ! k)\<lparr>active := 1\<rparr>],
      thread_count := k, reserved := Some k\<rparr>, phase := Awaiting\<rparr>)"
| arrive: "phase l = Awaiting \<Longrightarrow> reserved (srv l) = Some k \<Longrightarrow> slots' = fill_slot k fd (table (srv l)) \<Longrightarrow>
    loop_step l [] (l\<lparr>srv := (srv l)\<lparr>table := slots', thread_count := next_count k, reserved := None,
      running := running (srv l)\<lparr>threads := (threads (running (srv l)))(int k \<mapsto> thread_start (slots' ! k) input)\<rparr>\<rparr>,
      phase := At_top\<rparr>)"
| run: "world_step (running (srv l)) ev w \<Longrightarrow> dom (threads w) = dom (threads (running (srv l))) \<Longrightarrow>
    loop_step l ev (l\<lparr>srv := (srv l)\<lparr>running := w\<rparr>\<rparr>)"
| leave: "(\<forall>i. phase l \<noteq> Searching i) \<Longrightarrow> threads (running (srv l)) t = Some (m, cs) \<Longrightarrow> m = FINISHED \<or> m = FAIL \<Longrightarrow>
    release_slot (nat t) (table (srv l)) = Inr slots' \<Longrightarrow>
    loop_step l [] (l\<lparr>srv := (srv l)\<lparr>table := slots',
      running := running (srv l)\<lparr>threads := (threads (running (srv l)))(t := None)\<rparr>\<rparr>\<rparr>)"

inductive loop_history :: "round_robin_scheduler \<Rightarrow> byte list \<Rightarrow> event list \<Rightarrow> accept_loop \<Rightarrow> bool" for raw ro where
  loop_start: "loop_history raw ro [] (init_loop raw ro)"
| loop_more: "loop_history raw ro evs l \<Longrightarrow> loop_step l ev l' \<Longrightarrow> loop_history raw ro (evs @ ev) l'"

definition goes_on :: "accept_loop \<Rightarrow> accept_loop \<Rightarrow> bool" where
  "goes_on l l' \<longleftrightarrow> (\<exists>ev. loop_step l ev l')"

section \<open>The loop is the server\<close>

definition phase_ok :: "server \<Rightarrow> loop_phase \<Rightarrow> bool" where
  "phase_ok s p \<longleftrightarrow>
     (case p of At_top \<Rightarrow> reserved s = None
      | Searching i \<Rightarrow> reserved s = None \<and> i \<le> MAX_CONNECTIONS \<and>
          (\<forall>j < i. thread_count s + j < length (table s) \<and> active (table s ! (thread_count s + j)) \<noteq> 0)
      | Awaiting \<Rightarrow> reserved s \<noteq> None)"

lemma look_eq:
  "i < MAX_CONNECTIONS \<Longrightarrow> look slots tc i =
     (if tc + i < length slots then Inr (if active (slots ! (tc + i)) = 0 then Some (tc + i) else None)
      else Inl (UB Out_of_bounds))"
  by (simp add: look_def Let_def assertE_def)

text \<open>A search that ends, ends as the search of one step does.\<close>

lemma looks_allocate:
  assumes "length slots = MAX_CONNECTIONS" "tc + i < MAX_CONNECTIONS" "active (slots ! (tc + i)) = 0"
    and busy: "\<And>j. j < i \<Longrightarrow> active (slots ! (tc + j)) \<noteq> 0"
  shows "allocate_slot slots tc = Some (Inr (tc + i, slots[tc + i := (slots ! (tc + i))\<lparr>active := 1\<rparr>]))"
proof -
  have "first_free slots tc = Some (tc + i)"
  proof (cases "first_free slots tc")
    case None
    with assms(1-3) show ?thesis by (auto simp: first_free_None)
  next
    case (Some k)
    note k = first_free_Some [OF Some]
    have "tc + i \<le> k"
    proof (rule ccontr)
      assume "\<not> tc + i \<le> k"
      with k have "k - tc < i" using less_diff_conv2 [of tc k i] by (simp add: add.commute)
      from busy [OF this] k show False by simp
    qed
    moreover from k assms(3) have "k \<le> tc + i" by (metis le_add1 linorder_not_le)
    ultimately show ?thesis using Some by simp
  qed
  with search_found [OF assms(1) this] show ?thesis by (simp add: allocate_slot_def)
qed

lemma loop_step_simulates:
  assumes "loop_step l ev l'" "server_inv (srv l)" "phase_ok (srv l) (phase l)"
  shows "(srv l' = srv l \<and> ev = [] \<or> server_step (srv l) ev (srv l')) \<and> phase_ok (srv l') (phase l')"
  using assms
proof (cases rule: loop_step.cases)
  case lock
  with assms(3) show ?thesis by (simp add: phase_ok_def)
next
  case (busy i)
  with assms(3) show ?thesis by (auto simp: phase_ok_def look_eq less_Suc_eq split: if_splits)
next
  case rest
  with assms(3) show ?thesis by (auto simp: phase_ok_def)
next
  case (take i k)
  let ?s = "srv l"
  from take have k: "k = thread_count ?s + i" "k < length (table ?s)" "active (table ?s ! k) = 0"
    by (auto simp: look_eq split: if_splits)
  have len: "length (table ?s) = MAX_CONNECTIONS" using assms(2) by (simp add: server_inv_def)
  have none: "reserved ?s = None" and "\<And>j. j < i \<Longrightarrow> active (table ?s ! (thread_count ?s + j)) \<noteq> 0"
    using take(3) assms(3) by (auto simp: phase_ok_def)
  with looks_allocate [OF len, of "thread_count ?s" i] k len
  have "allocate_slot (table ?s) (thread_count ?s) = Some (Inr (k, (table ?s)[k := (table ?s ! k)\<lparr>active := 1\<rparr>]))" by simp
  from reserve [OF none this] take show ?thesis by (simp add: phase_ok_def)
next
  case (arrive k slots' fd input)
  from connect [OF arrive(4,5), of input] arrive show ?thesis by (simp add: phase_ok_def)
next
  case (run w)
  from proceed [OF run(2,3)] run assms(3) show ?thesis by (auto simp: phase_ok_def split: loop_phase.splits)
next
  case (leave t m cs slots')
  from finish [OF leave(4-6)] leave assms(3) show ?thesis by (auto simp: phase_ok_def split: loop_phase.splits)
qed

lemma loop_server:
  "loop_history raw ro evs l \<Longrightarrow> server_history raw ro evs (srv l) \<and> phase_ok (srv l) (phase l)"
proof (induction rule: loop_history.induct)
  case loop_start
  have "phase_ok (init_server raw ro) At_top" by (simp add: phase_ok_def init_server_def)
  with booted show ?case by (simp add: init_loop_def)
next
  case (loop_more evs l ev l')
  then have h: "server_history raw ro evs (srv l)" "phase_ok (srv l) (phase l)" by auto
  from server_history_inv [OF h(1)] have "server_inv (srv l)" by blast
  from loop_step_simulates [OF loop_more(2) this h(2)] h(1) served [OF h(1)] show ?case by auto
qed

text \<open>A search of a full table never ends well, and nothing else can happen to the table meanwhile.\<close>

definition full_search :: "nat \<Rightarrow> int set \<Rightarrow> accept_loop \<Rightarrow> bool" where
  "full_search tc ts l \<longleftrightarrow> (\<exists>i \<le> MAX_CONNECTIONS. phase l = Searching i) \<and> thread_count (srv l) = tc \<and>
     reserved (srv l) = None \<and> length (table (srv l)) = MAX_CONNECTIONS \<and> (\<forall>k < MAX_CONNECTIONS. active (table (srv l) ! k) \<noteq> 0) \<and>
     dom (threads (running (srv l))) = ts"

lemma full_look:
  "full_search tc ts l \<Longrightarrow> i < MAX_CONNECTIONS \<Longrightarrow>
   look (table (srv l)) (thread_count (srv l)) i = (if tc + i < MAX_CONNECTIONS then Inr None else Inl (UB Out_of_bounds))"
  by (simp add: full_search_def look_eq)

lemma full_search_step:
  assumes "loop_step l ev l'" "full_search tc ts l"
  shows "full_search tc ts l'"
  using assms
proof (cases rule: loop_step.cases)
  case (take i k)
  with assms(2) show ?thesis by (auto simp: full_search_def look_eq split: if_splits)
qed (use assms(2) in \<open>auto simp: full_search_def\<close>)

lemma full_search_later: "goes_on\<^sup>*\<^sup>* l l' \<Longrightarrow> full_search tc ts l \<Longrightarrow> full_search tc ts l'"
  by (induction rule: rtranclp_induct) (auto simp: goes_on_def intro: full_search_step)

text \<open>Of every reachable search with all slots taken by connections.\<close>

lemma full_table_search:
  assumes "loop_history raw ro evs l" "phase l = Searching i" "dom (threads (running (srv l))) = {0..<int MAX_CONNECTIONS}"
  shows "full_search (thread_count (srv l)) {0..<int MAX_CONNECTIONS} l"
    "thread_count (srv l) + i \<le> MAX_CONNECTIONS"
proof -
  from loop_server [OF assms(1)] have ok: "phase_ok (srv l) (phase l)" and "server_inv (srv l)"
    using server_history_inv by blast+
  then have inv: "length (table (srv l)) = MAX_CONNECTIONS" "thread_count (srv l) < MAX_CONNECTIONS"
    "\<forall>k < MAX_CONNECTIONS. active (table (srv l) ! k) \<noteq> 0 \<longleftrightarrow> threads (running (srv l)) (int k) \<noteq> None \<or> reserved (srv l) = Some k"
    by (simp_all add: server_inv_def)
  have "threads (running (srv l)) (int k) \<noteq> None" if "k < MAX_CONNECTIONS" for k
  proof -
    have "int k \<in> dom (threads (running (srv l)))" using that unfolding assms(3) by simp
    then show ?thesis by blast
  qed
  with inv(1,3) ok assms(2,3) show "full_search (thread_count (srv l)) {0..<int MAX_CONNECTIONS} l"
    by (simp add: full_search_def phase_ok_def)
  show "thread_count (srv l) + i \<le> MAX_CONNECTIONS"
  proof (cases i)
    case (Suc j)
    with ok assms(2) inv(1) show ?thesis by (auto simp: phase_ok_def)
  qed (use inv(2) in simp)
qed

text \<open>Begun at another slot than the first, it leaves the table.\<close>

lemma full_search_overruns:
  assumes "full_search tc ts l" "phase l = Searching i" "tc + i \<le> MAX_CONNECTIONS" "0 < tc"
  shows "\<exists>l' i'. goes_on\<^sup>*\<^sup>* l l' \<and> phase l' = Searching i' \<and>
    look (table (srv l')) (thread_count (srv l')) i' = Inl (UB Out_of_bounds)"
proof -
  let ?last = "MAX_CONNECTIONS - tc"
  have "goes_on\<^sup>*\<^sup>* (l\<lparr>phase := Searching j\<rparr>) (l\<lparr>phase := Searching ?last\<rparr>)" if "j \<le> ?last" for j
    using that
  proof (induction rule: inc_induct)
    case (step j)
    let ?l = "l\<lparr>phase := Searching j\<rparr>"
    have f: "full_search tc ts ?l" using assms(1) step.hyps by (auto simp: full_search_def)
    have "loop_step ?l [] (?l\<lparr>phase := Searching (j + 1)\<rparr>)"
      by (rule busy) (use full_look [OF f, of j] step.hyps in auto)
    then have "goes_on ?l (l\<lparr>phase := Searching (Suc j)\<rparr>)" by (auto simp: goes_on_def)
    from converse_rtranclp_into_rtranclp [of goes_on, OF this step.IH] show ?case .
  qed simp
  from this [of i] assms(2,3) have run: "goes_on\<^sup>*\<^sup>* l (l\<lparr>phase := Searching ?last\<rparr>)" by (cases l) simp
  have "look (table (srv l)) (thread_count (srv l)) ?last = Inl (UB Out_of_bounds)"
    using full_look [OF assms(1), of ?last] assms(4) by (simp add: MAX_CONNECTIONS_def)
  with run show ?thesis by (intro exI [of _ "l\<lparr>phase := Searching ?last\<rparr>"] exI [of _ ?last]) simp
qed

section \<open>Runs of the loop\<close>

text \<open>At the top of the loop, with the slots of \<open>A\<close> taken by the threads \<open>th\<close>.\<close>

definition idle :: "accept_loop \<Rightarrow> nat \<Rightarrow> nat set \<Rightarrow> (int \<Rightarrow> (machine_state \<times> connection_state) option) \<Rightarrow> bool" where
  "idle l tc A th \<longleftrightarrow> phase l = At_top \<and> reserved (srv l) = None \<and> thread_count (srv l) = tc \<and>
     length (table (srv l)) = MAX_CONNECTIONS \<and> (\<forall>k < MAX_CONNECTIONS. active (table (srv l) ! k) \<noteq> 0 \<longleftrightarrow> k \<in> A) \<and>
     threads (running (srv l)) = th"

lemma idle_init: "idle (init_loop raw ro) 0 {} (\<lambda>_. None)"
  by (simp add: idle_def init_loop_def init_server_def init_slots_def init_world_def MAX_CONNECTIONS_def)

text \<open>A client takes the slot the count points to, when it is free.\<close>

lemma client_arrives:
  assumes h: "loop_history raw ro evs l" and i: "idle l tc A th" and tc: "tc < MAX_CONNECTIONS" "tc \<notin> A"
  shows "\<exists>l'. loop_history raw ro evs l' \<and>
    idle l' (next_count tc) (insert tc A) (th(int tc \<mapsto> (WAIT, init_connection fd (int tc) input))) \<and>
    shared (running (srv l')) = shared (running (srv l))"
proof -
  let ?s = "srv l" and ?l1 = "l\<lparr>phase := Searching 0\<rparr>"
  let ?t = "(table ?s)[tc := (table ?s ! tc)\<lparr>active := 1\<rparr>]"
  let ?l2 = "?l1\<lparr>srv := ?s\<lparr>table := ?t, thread_count := tc, reserved := Some tc\<rparr>, phase := Awaiting\<rparr>"
  let ?t3 = "fill_slot tc fd ?t"
  let ?l3 = "?l2\<lparr>srv := (srv ?l2)\<lparr>table := ?t3, thread_count := next_count tc, reserved := None,
      running := running (srv ?l2)\<lparr>threads := (threads (running (srv ?l2)))(int tc \<mapsto> thread_start (?t3 ! tc) input)\<rparr>\<rparr>,
      phase := At_top\<rparr>"
  have i': "phase l = At_top" "thread_count ?s = tc" "length (table ?s) = MAX_CONNECTIONS" "active (table ?s ! tc) = 0"
    "threads (running ?s) = th" "\<forall>k < MAX_CONNECTIONS. active (table ?s ! k) \<noteq> 0 \<longleftrightarrow> k \<in> A"
    using i tc by (auto simp: idle_def)
  have "loop_step l [] ?l1" using i'(1) by (rule lock)
  moreover have "loop_step ?l1 [] ?l2"
    using take [of ?l1 0 tc] i' tc by (simp add: look_eq MAX_CONNECTIONS_def)
  moreover have "loop_step ?l2 [] ?l3" by (rule arrive) simp_all
  ultimately have h3: "loop_history raw ro evs ?l3"
    using loop_more [OF loop_more [OF loop_more [OF h]], of "[]" ?l1 "[]" ?l2 "[]" ?l3] by simp
  have start: "thread_start (?t3 ! tc) input = (WAIT, init_connection fd (int tc) input)"
    using i'(3) tc(1) by (simp add: thread_start_def fill_slot_def)
  have "idle ?l3 (next_count tc) (insert tc A) (th(int tc \<mapsto> (WAIT, init_connection fd (int tc) input)))"
    using i' tc(1) unfolding idle_def start by (auto simp: fill_slot_def nth_list_update)
  with h3 show ?thesis by (intro exI [of _ ?l3]) simp
qed

text \<open>A client that hangs up at once.\<close>

lemma wait_without_input: "actions WAIT (init_connection fd t []) b = Inr (FAIL,
    (init_connection fd t [])\<lparr>recvline := mem_write zero_buf 0 [], error_msg := ''Error reading protocol header''\<rparr>, b)"
  using recv_eof [of 8 "init_connection fd t []"]
  by (simp add: action_wait_def read_protocol_header_def parse_protocol_header_def init_connection_def MAXLINE_def)

lemma client_visits:
  assumes h: "loop_history raw ro evs l" and i: "idle l tc A th" and tc: "tc < MAX_CONNECTIONS" "tc \<notin> A" "th (int tc) = None"
  shows "\<exists>l'. loop_history raw ro evs l' \<and> idle l' (next_count tc) A th"
proof -
  from client_arrives [OF h i tc(1,2), of 4 "[]"] obtain l1 where
    h1: "loop_history raw ro evs l1"
    and i1: "idle l1 (next_count tc) (insert tc A) (th(int tc \<mapsto> (WAIT, init_connection 4 (int tc) [])))" by blast
  let ?w = "running (srv l1)"
  from i1 have th1: "threads ?w (int tc) = Some (WAIT, init_connection 4 (int tc) [])" by (simp add: idle_def)
  obtain c where "actions WAIT (init_connection 4 (int tc) []) (shared ?w) = Inr (FAIL, c, shared ?w)"
    using wait_without_input by blast
  then have "machine_step (WAIT, init_connection 4 (int tc) [], shared ?w) (FAIL, c, shared ?w)"
    by (simp add: machine_step_simp)
  from work [OF th1 this] have "world_step ?w [] \<lparr>shared = shared ?w, threads = (threads ?w)(int tc \<mapsto> (FAIL, c))\<rparr>"
    by (simp add: action_events_def)
  from run [OF this] th1 have "loop_step l1 [] (l1\<lparr>srv := (srv l1)\<lparr>running :=
      \<lparr>shared = shared ?w, threads = (threads ?w)(int tc \<mapsto> (FAIL, c))\<rparr>\<rparr>\<rparr>)" (is "loop_step l1 [] ?l2")
    by (auto simp: insert_absorb)
  from loop_more [OF h1 this] have h2: "loop_history raw ro evs ?l2" by simp
  then have "server_inv (srv ?l2)" using loop_server server_history_inv by blast
  from release_own_slot [OF this, of "int tc"]
  have rel: "release_slot (nat (int tc)) (table (srv ?l2)) =
      Inr ((table (srv l1))[tc := (table (srv l1) ! tc)\<lparr>active := 0\<rparr>])" by simp
  have "phase ?l2 = At_top" using i1 by (simp add: idle_def)
  then have "loop_step ?l2 [] (?l2\<lparr>srv := (srv ?l2)\<lparr>table := (table (srv l1))[tc := (table (srv l1) ! tc)\<lparr>active := 0\<rparr>],
      running := running (srv ?l2)\<lparr>threads := (threads (running (srv ?l2)))(int tc := None)\<rparr>\<rparr>\<rparr>)" (is "loop_step ?l2 [] ?l3")
    by (intro leave [OF _ _ _ rel]) auto
  from loop_more [OF h2 this] have "loop_history raw ro evs ?l3" by simp
  moreover have "idle ?l3 (next_count tc) A th"
    using i1 tc unfolding idle_def by (auto simp: nth_list_update fun_upd_idem)
  ultimately show ?thesis by blast
qed

text \<open>A connection that works while nothing else happens.\<close>

lemma loop_works:
  assumes "loop_history raw ro evs l" "threads (running (srv l)) t = Some (m, cs)"
    and "machine_step\<^sup>*\<^sup>* (m, cs, shared (running (srv l))) c"
  shows "\<exists>ev. loop_history raw ro (evs @ ev) (l\<lparr>srv := (srv l)\<lparr>running :=
    \<lparr>shared = snd (snd c), threads = (threads (running (srv l)))(t \<mapsto> (fst c, fst (snd c)))\<rparr>\<rparr>\<rparr>)"
  using assms(3)
proof (induction rule: rtranclp_induct)
  case base
  from assms(1,2) show ?case
    by (intro exI [of _ "[]"]) (cases l, cases "srv l", cases "running (srv l)", simp add: fun_upd_idem)
next
  case (step c c')
  obtain m1 c1 b1 m2 c2 b2 where st: "c = (m1, c1, b1)" "c' = (m2, c2, b2)" by (cases c, cases c')
  let ?l = "l\<lparr>srv := (srv l)\<lparr>running := \<lparr>shared = b1, threads = (threads (running (srv l)))(t \<mapsto> (m1, c1))\<rparr>\<rparr>\<rparr>"
  from step.IH st obtain ev where h: "loop_history raw ro (evs @ ev) ?l" by (auto simp del: fun_upd_apply)
  have "loop_step ?l (action_events m1 c1 b1 m2 c2)
      (?l\<lparr>srv := (srv ?l)\<lparr>running := \<lparr>shared = b2, threads = (threads (running (srv ?l)))(t \<mapsto> (m2, c2))\<rparr>\<rparr>\<rparr>)"
    using work [of "running (srv ?l)" t m1 c1 m2 c2 b2] step.hyps(2) st by (intro run) auto
  from loop_more [OF h this] st show ?case by (auto simp del: fun_upd_apply)
qed

definition new_clients :: "nat \<Rightarrow> (nat \<Rightarrow> int) \<Rightarrow> (nat \<Rightarrow> rx_event list) \<Rightarrow> int \<Rightarrow> (machine_state \<times> connection_state) option" where
  "new_clients n fd input t =
     (if 0 \<le> t \<and> t < int n then Some (WAIT, init_connection (fd (nat t)) t (input (nat t))) else None)"

lemma new_clients_Suc:
  "(new_clients n fd input)(int n \<mapsto> (WAIT, init_connection (fd n) (int n) (input n))) = new_clients (Suc n) fd input"
  by (auto simp: new_clients_def fun_eq_iff)

lemma clients_fill:
  "n \<le> MAX_CONNECTIONS \<Longrightarrow>
   \<exists>l. loop_history raw ro [] l \<and> idle l (n mod MAX_CONNECTIONS) {..<n} (new_clients n fd input)"
proof (induction n)
  case 0
  have "new_clients 0 fd input = (\<lambda>_. None)" by (auto simp: new_clients_def)
  with loop_start idle_init show ?case by (metis lessThan_0 mod_0)
next
  case (Suc n)
  then obtain l where l: "loop_history raw ro [] l" "idle l n {..<n} (new_clients n fd input)" by auto
  from client_arrives [OF l, of "fd n" "input n"] Suc.prems show ?case
    by (simp add: next_count_def new_clients_Suc lessThan_Suc) blast
qed

lemma visitors:
  assumes "loop_history raw ro evs l" "idle l tc A th" "tc + n \<le> MAX_CONNECTIONS" "tc < MAX_CONNECTIONS"
    and "\<And>k. tc \<le> k \<Longrightarrow> k < tc + n \<Longrightarrow> k \<notin> A \<and> th (int k) = None"
  shows "\<exists>l'. loop_history raw ro evs l' \<and> idle l' ((tc + n) mod MAX_CONNECTIONS) A th"
  using assms(3,5)
proof (induction n)
  case 0
  with assms show ?case by auto
next
  case (Suc n)
  then obtain l' where l': "loop_history raw ro evs l'" "idle l' (tc + n) A th" by auto
  from Suc.prems(2) [of "tc + n"] have "tc + n \<notin> A" "th (int (tc + n)) = None" by simp_all
  with client_visits [OF l'] Suc.prems(1) show ?case by (simp add: next_count_def)
qed

section \<open>Properties\<close>

text \<open>C6. The server runs its connections as assumed of the threads: every run of the main thread,
  look by look at the table of slots, and of the connection threads is a run in which a search is
  one step, and an interleaving of connections that start with a thread id nobody has; so all that
  holds of those holds of the program, in particular that the published messages of a queue are
  those handed over and those it still holds.\<close>

theorem accept_loop_runs_the_broker:
  assumes "loop_history raw ro evs l" "trie_lookup (pool (shared (running (srv l)))) nm = Some i"
  shows "server_history raw ro evs (srv l) \<and> history raw ro evs (running (srv l)) \<and>
    (\<exists>as ms. queue_rep (heap (shared (running (srv l)))) (queues (shared (running (srv l))) ! i) as ms \<and>
      published nm evs = handed nm evs @ ms)"
  using loop_server [OF assms(1)] server_runs_the_broker [OF _ assms(2)] by blast

theorem accept_loop_runs_the_broker_witness:
  "\<exists>evs l i. loop_history two_subscribers [0, 0, 0] evs l \<and>
     trie_lookup (pool (shared (running (srv l)))) [0x71] = Some i \<and>
     (\<exists>as ms. queue_rep (heap (shared (running (srv l)))) (queues (shared (running (srv l))) ! i) as ms \<and>
       published [0x71] evs = handed [0x71] evs @ ms)"
proof -
  let ?i = "one_by_one waiting_input" and ?b = "init_broker two_subscribers [0, 0, 0]"
  from client_arrives [OF loop_start idle_init, of two_subscribers "[0, 0, 0]" 4 ?i] obtain l where
    l: "loop_history two_subscribers [0, 0, 0] [] l" "shared (running (srv l)) = ?b"
      "idle l 1 {0} [0 \<mapsto> (WAIT, init_connection 4 0 ?i)]"
    by (auto simp: MAX_CONNECTIONS_def next_count_def init_loop_def init_server_def init_world_def)
  then have th: "threads (running (srv l)) 0 = Some (WAIT, init_connection 4 0 ?i)" by (simp add: idle_def)
  obtain cs b where r: "machine_step\<^sup>*\<^sup>* (WAIT, init_connection 4 0 ?i, shared (running (srv l))) (WAIT_VALUE_DEQUEUE, cs, b)"
    and abs: "broker_abs b [[0x71] \<mapsto> ([], [0], 0)]"
    using sample_run [of 0 4 two_subscribers] l(2) by (auto simp: MAX_CONNECTIONS_def)
  from loop_works [OF l(1) th r] obtain evs l' where
    h: "loop_history two_subscribers [0, 0, 0] evs l'" "shared (running (srv l')) = b" by fastforce
  from abs_dom [OF abs, of "[0x71]"] obtain i where "trie_lookup (pool b) [0x71] = Some i" by auto
  with accept_loop_runs_the_broker [OF h(1), of "[0x71]" i] h show ?thesis by blast
qed

text \<open>C8. As many clients as there are slots stop the server for good. Such a state is reachable; and
  whenever the main thread searches with all slots taken by connections, then from there on, whatever the clients
  do and even when all of them have gone, it stays in this search with the mutex held, so that no
  connection can end and none is accepted. Begun at slot 0 the search looks at the taken
  slots for ever; begun at another slot it comes to a look past the end of the table.\<close>

theorem full_table_stops_the_server:
  "(\<exists>l. loop_history raw ro [] l \<and> phase l = Searching 0 \<and> thread_count (srv l) = 0 \<and>
      dom (threads (running (srv l))) = {0..<int MAX_CONNECTIONS} \<and>
      (\<forall>k < MAX_CONNECTIONS. threads (running (srv l)) (int k) = Some (WAIT, init_connection (fd k) (int k) (input k)))) \<and>
   (\<forall>evs l i. loop_history raw ro evs l \<and> phase l = Searching i \<and>
      dom (threads (running (srv l))) = {0..<int MAX_CONNECTIONS} \<longrightarrow>
      (\<forall>l'. goes_on\<^sup>*\<^sup>* l l' \<longrightarrow> (\<exists>j \<le> MAX_CONNECTIONS. phase l' = Searching j) \<and> reserved (srv l') = None \<and>
        dom (threads (running (srv l'))) = {0..<int MAX_CONNECTIONS}) \<and>
      (if thread_count (srv l) = 0
       then \<forall>l' j. goes_on\<^sup>*\<^sup>* l l' \<and> j < MAX_CONNECTIONS \<longrightarrow> look (table (srv l')) (thread_count (srv l')) j = Inr None
       else \<exists>l' j. goes_on\<^sup>*\<^sup>* l l' \<and> phase l' = Searching j \<and>
          look (table (srv l')) (thread_count (srv l')) j = Inl (UB Out_of_bounds)))"
proof (intro conjI allI impI)
  from clients_fill [of MAX_CONNECTIONS raw ro fd input] obtain l where
    h: "loop_history raw ro [] l" and i: "idle l 0 {..<MAX_CONNECTIONS} (new_clients MAX_CONNECTIONS fd input)" by auto
  let ?l = "l\<lparr>phase := Searching 0\<rparr>"
  have "loop_step l [] ?l" using i by (intro lock) (simp add: idle_def)
  from loop_more [OF h this] have h': "loop_history raw ro [] ?l" by simp
  have th: "threads (running (srv ?l)) = new_clients MAX_CONNECTIONS fd input" "thread_count (srv ?l) = 0"
    using i by (simp_all add: idle_def)
  have "dom (threads (running (srv ?l))) = {0..<int MAX_CONNECTIONS}"
    unfolding th by (auto simp: new_clients_def dom_def)
  moreover have "\<forall>k < MAX_CONNECTIONS. threads (running (srv ?l)) (int k) = Some (WAIT, init_connection (fd k) (int k) (input k))"
    unfolding th by (simp add: new_clients_def)
  ultimately show "\<exists>l. loop_history raw ro [] l \<and> phase l = Searching 0 \<and> thread_count (srv l) = 0 \<and>
      dom (threads (running (srv l))) = {0..<int MAX_CONNECTIONS} \<and>
      (\<forall>k < MAX_CONNECTIONS. threads (running (srv l)) (int k) = Some (WAIT, init_connection (fd k) (int k) (input k)))"
    using h' th(2) by (intro exI [of _ ?l]) simp
next
  fix evs l i
  assume l: "loop_history raw ro evs l \<and> phase l = Searching i \<and> dom (threads (running (srv l))) = {0..<int MAX_CONNECTIONS}"
  let ?tc = "thread_count (srv l)"
  have full: "full_search ?tc {0..<int MAX_CONNECTIONS} l" and "?tc + i \<le> MAX_CONNECTIONS"
    using full_table_search l by blast+
  then show "if ?tc = 0
      then \<forall>l' j. goes_on\<^sup>*\<^sup>* l l' \<and> j < MAX_CONNECTIONS \<longrightarrow> look (table (srv l')) (thread_count (srv l')) j = Inr None
      else \<exists>l' j. goes_on\<^sup>*\<^sup>* l l' \<and> phase l' = Searching j \<and> look (table (srv l')) (thread_count (srv l')) j = Inl (UB Out_of_bounds)"
    using full_search_overruns [OF full] full_look [OF full_search_later [OF _ full]] l by simp
  fix l' assume "goes_on\<^sup>*\<^sup>* l l'"
  from full_search_later [OF this full]
  show "\<exists>j \<le> MAX_CONNECTIONS. phase l' = Searching j" "reserved (srv l') = None"
    "dom (threads (running (srv l'))) = {0..<int MAX_CONNECTIONS}" by (simp_all add: full_search_def)
qed

theorem full_table_stops_the_server_witness:
  "\<exists>l. loop_history two_subscribers [0, 0, 0] [] l \<and> phase l = Searching 0 \<and>
     threads (running (srv l)) 7 = Some (WAIT, init_connection 11 7 []) \<and>
     (\<forall>l'. goes_on\<^sup>*\<^sup>* l l' \<longrightarrow> (\<exists>j \<le> MAX_CONNECTIONS. phase l' = Searching j) \<and>
       dom (threads (running (srv l'))) = {0..<int MAX_CONNECTIONS})"
proof -
  note stop = full_table_stops_the_server [of two_subscribers "[0, 0, 0]" "\<lambda>k. 4 + int k" "\<lambda>_. []"]
  from stop [THEN conjunct1] obtain l where l: "loop_history two_subscribers [0, 0, 0] [] l" "phase l = Searching 0"
    "dom (threads (running (srv l))) = {0..<int MAX_CONNECTIONS}"
    "\<forall>k < MAX_CONNECTIONS. threads (running (srv l)) (int k) = Some (WAIT, init_connection (4 + int k) (int k) [])" by blast
  from stop [THEN conjunct2, rule_format, of "[]" l 0] l(1-3)
  have "\<forall>l'. goes_on\<^sup>*\<^sup>* l l' \<longrightarrow> (\<exists>j \<le> MAX_CONNECTIONS. phase l' = Searching j) \<and>
       dom (threads (running (srv l'))) = {0..<int MAX_CONNECTIONS}" by blast
  with l(1,2) l(4) [rule_format, of 7] show ?thesis by (intro exI [of _ l]) (simp add: MAX_CONNECTIONS_def)
qed

text \<open>C9. Two lasting connections suffice for the search to leave the table: clients that come one
  after the other, each of the others gone before the next one comes, bring the count to the last
  slot while that and the one before it are taken; the search then reads past the last slot
  with all other slots free.\<close>

theorem search_overruns_with_free_slots:
  "\<exists>l. loop_history raw ro [] l \<and> phase l = Searching 1 \<and> thread_count (srv l) = MAX_CONNECTIONS - 1 \<and>
     look (table (srv l)) (thread_count (srv l)) 1 = Inl (UB Out_of_bounds) \<and>
     dom (threads (running (srv l))) = {510, 511} \<and>
     {k. k < MAX_CONNECTIONS \<and> active (table (srv l) ! k) \<noteq> 0} = {510, 511}"
proof -
  have N: "MAX_CONNECTIONS = 512" by (simp add: MAX_CONNECTIONS_def)
  from visitors [OF loop_start idle_init, of 511] obtain l1 where
    1: "loop_history raw ro [] l1" "idle l1 511 {} (\<lambda>_. None)" by (auto simp: N)
  let ?c2 = "(WAIT, init_connection 4 511 [])" and ?c4 = "(WAIT, init_connection 5 510 [])"
  from client_arrives [OF 1, of 4 "[]"] obtain l2 where
    2: "loop_history raw ro [] l2" "idle l2 0 {511} [511 \<mapsto> ?c2]" by (auto simp: N next_count_def)
  from visitors [OF 2, of 510] obtain l3 where
    3: "loop_history raw ro [] l3" "idle l3 510 {511} [511 \<mapsto> ?c2]" by (auto simp: N)
  from client_arrives [OF 3, of 5 "[]"] obtain l4 where
    4: "loop_history raw ro [] l4" "idle l4 511 {510, 511} [511 \<mapsto> ?c2, 510 \<mapsto> ?c4]"
    by (auto simp: N next_count_def)
  let ?l5 = "l4\<lparr>phase := Searching 0\<rparr>" and ?l6 = "l4\<lparr>phase := Searching 1\<rparr>"
  have "loop_step l4 [] ?l5" using 4(2) by (intro lock) (simp add: idle_def)
  moreover have "loop_step ?l5 [] ?l6"
    using busy [of ?l5 0] 4(2) by (simp add: idle_def look_eq N)
  ultimately have "loop_history raw ro [] ?l6"
    using loop_more [OF loop_more [OF 4(1)], of "[]" ?l5 "[]" ?l6] by simp
  moreover have "look (table (srv ?l6)) (thread_count (srv ?l6)) 1 = Inl (UB Out_of_bounds)"
    using 4(2) by (simp add: idle_def look_eq N)
  moreover have "{k. k < MAX_CONNECTIONS \<and> active (table (srv l4) ! k) \<noteq> 0} = {k. k < MAX_CONNECTIONS \<and> k \<in> {510, 511}}"
    using 4(2) unfolding idle_def by blast
  then have "{k. k < MAX_CONNECTIONS \<and> active (table (srv l4) ! k) \<noteq> 0} = {510, 511}"
    by (rule trans) (auto simp: N)
  moreover have "dom (threads (running (srv l4))) = {510, 511}" "thread_count (srv l4) = 511"
    using 4(2) by (auto simp: idle_def)
  ultimately show ?thesis by (intro exI [of _ ?l6]) (simp add: N)
qed

end
