(* ===== verification/Waiting.thy ===== *)
theory Waiting
  imports Broker_Spec
begin

text \<open>
  The waiting of consumers at the grain of its condition variables: \<^verbatim>\<open>wait_round\<close> and
  \<^verbatim>\<open>wait_msg\<close> look at their condition without the mutex of the condition variable and go to
  sleep in a later step, \<^verbatim>\<open>next_thread\<close> and \<^verbatim>\<open>q_enqueue\<close> wake the threads that sleep at that
  moment, and a thread that wakes does not look again. One queue, its consumers, and
  whoever publishes to it. \<^verbatim>\<open>pthread_cond_wait\<close> may also return with no signal at all: such a
  wake-up is a step of its own, so that what holds up to the first of them can be told apart.
\<close>

section \<open>The steps\<close>

datatype phase = Outside | Entering | Before_round_wait | In_round_wait | Round_over
  | Before_msg_wait | In_msg_wait | Taking | Passing | Served

record waiting =
  wq :: queue
  wheap :: node_heap
  phase :: "int \<Rightarrow> phase"

text \<open>The broadcasts of \<^verbatim>\<open>next_thread\<close> to one thread and of \<^verbatim>\<open>q_enqueue\<close> to all.\<close>

definition wake_round :: "int \<Rightarrow> (int \<Rightarrow> phase) \<Rightarrow> int \<Rightarrow> phase" where
  "wake_round n ph = (if ph n = In_round_wait then ph(n := Round_over) else ph)"

definition wake_all :: "(int \<Rightarrow> phase) \<Rightarrow> int \<Rightarrow> phase" where
  "wake_all ph = (\<lambda>t. if ph t = In_msg_wait then Taking else ph t)"

definition after_look_round :: "round_robin_scheduler \<Rightarrow> int \<Rightarrow> phase" where
  "after_look_round r t = (if must_wait_round r t then Before_round_wait else Round_over)"

definition after_look_msg :: "queue \<Rightarrow> phase" where
  "after_look_msg q = (if must_wait_msg q then Before_msg_wait else Taking)"

inductive signalled_step :: "waiting \<Rightarrow> waiting \<Rightarrow> bool" where
  subscribe: "phase s t = Outside \<Longrightarrow> q_add_subscriber (wq s) t = Inr q \<Longrightarrow>
    signalled_step s (s\<lparr>wq := q, phase := (phase s)(t := Entering)\<rparr>)"
| look_round: "phase s t = Entering \<Longrightarrow>
    signalled_step s (s\<lparr>phase := (phase s)(t := after_look_round (rr (wq s)) t)\<rparr>)"
| sleep_round: "phase s t = Before_round_wait \<Longrightarrow>
    signalled_step s (s\<lparr>phase := (phase s)(t := In_round_wait)\<rparr>)"
| look_msg: "phase s t = Round_over \<Longrightarrow>
    signalled_step s (s\<lparr>phase := (phase s)(t := after_look_msg (wq s))\<rparr>)"
| sleep_msg: "phase s t = Before_msg_wait \<Longrightarrow>
    signalled_step s (s\<lparr>phase := (phase s)(t := In_msg_wait)\<rparr>)"
| take_msg: "phase s t = Taking \<Longrightarrow> q_dequeue MAXLINE (wq s) (wheap s) dest = Inr (ret, dest', q, h) \<Longrightarrow>
    signalled_step s \<lparr>wq = q, wheap = h, phase = (phase s)(t := Passing)\<rparr>"
| pass_turn: "phase s t = Passing \<Longrightarrow> next_thread (rr (wq s)) = Inr (n, r) \<Longrightarrow>
    signalled_step s (s\<lparr>wq := (wq s)\<lparr>rr := r\<rparr>, phase := wake_round n ((phase s)(t := Served))\<rparr>)"
| publish: "valid_msg m \<Longrightarrow> q_enqueue (wq s) (wheap s) m = Inr (q, h) \<Longrightarrow>
    signalled_step s \<lparr>wq = q, wheap = h, phase = wake_all (phase s)\<rparr>"
| acknowledged: "phase s t = Served \<Longrightarrow> signalled_step s (s\<lparr>phase := (phase s)(t := Entering)\<rparr>)"
| leave: "phase s t = Served \<Longrightarrow> remove_subscriber (rr (wq s)) t = Inr r \<Longrightarrow>
    signalled_step s (s\<lparr>wq := (wq s)\<lparr>rr := r\<rparr>, phase := (phase s)(t := Outside)\<rparr>)"

text \<open>Spurious wake-ups, which the code takes for signals.\<close>

inductive spurious_step :: "waiting \<Rightarrow> waiting \<Rightarrow> bool" where
  spurious_round: "phase s t = In_round_wait \<Longrightarrow> spurious_step s (s\<lparr>phase := (phase s)(t := Round_over)\<rparr>)"
| spurious_msg: "phase s t = In_msg_wait \<Longrightarrow> spurious_step s (s\<lparr>phase := (phase s)(t := Taking)\<rparr>)"

definition wait_step :: "waiting \<Rightarrow> waiting \<Rightarrow> bool" where
  "wait_step s s' \<longleftrightarrow> signalled_step s s' \<or> spurious_step s s'"

definition fresh_queue :: "queue \<Rightarrow> waiting" where
  "fresh_queue q = \<lparr>wq = q, wheap = empty_heap, phase = (\<lambda>_. Outside)\<rparr>"

section \<open>What a state represents\<close>

definition wait_rep :: "waiting \<Rightarrow> int list \<Rightarrow> int \<Rightarrow> byte list list \<Rightarrow> bool" where
  "wait_rep s xs c ms \<longleftrightarrow> rr_abs (rr (wq s)) (xs, c) \<and> fifo_rep (wq s, wheap s) ms"

definition in_turn :: "phase \<Rightarrow> bool" where
  "in_turn p \<longleftrightarrow> p \<in> {Round_over, Before_msg_wait, In_msg_wait, Taking, Passing}"

lemma in_turn_simps [simp]:
  "\<not> in_turn Outside" "\<not> in_turn Entering" "\<not> in_turn Before_round_wait" "\<not> in_turn In_round_wait" "in_turn Round_over"
  "in_turn Before_msg_wait" "in_turn In_msg_wait" "in_turn Taking" "in_turn Passing" "\<not> in_turn Served"
  by (simp_all add: in_turn_def)

definition wait_inv :: "waiting \<Rightarrow> int list \<Rightarrow> int \<Rightarrow> byte list list \<Rightarrow> bool" where
  "wait_inv s xs c ms \<longleftrightarrow> wait_rep s xs c ms \<and> (\<forall>t. t \<in> set xs \<longleftrightarrow> phase s t \<noteq> Outside) \<and>
     (\<forall>t. in_turn (phase s t) \<longrightarrow> t = c) \<and> (\<forall>t. phase s t = Taking \<longrightarrow> ms \<noteq> [])"

lemma rep_current: "wait_rep s xs c ms \<Longrightarrow> xs \<noteq> [] \<Longrightarrow> current (rr (wq s)) = c \<and> c \<in> set xs \<and> distinct xs"
  by (auto simp: wait_rep_def rr_abs_def rr_ring_def)

lemma rep_size: "wait_rep s xs c ms \<Longrightarrow> queue_size (wq s) = int (length ms)"
  by (auto simp: wait_rep_def fifo_rep_def queue_rep_def)

text \<open>The operations of the code, on what they represent.\<close>

lemma rep_scheduler:
  assumes "wait_rep s xs c ms" "rr_exec p (rr (wq s)) = Inr r" "op_ok p (xs, c)"
  shows "wait_rep (s\<lparr>wq := (wq s)\<lparr>rr := r\<rparr>, phase := ph\<rparr>) (fst (ring_exec p (xs, c))) (snd (ring_exec p (xs, c))) ms"
  using rr_exec_refines [of "rr (wq s)" "(xs, c)" p] assms
  by (auto simp: wait_rep_def fifo_rep_def queue_rep_def)

lemma rep_scheduler_runs:
  "wait_rep s xs c ms \<Longrightarrow> op_ok p (xs, c) \<Longrightarrow> \<exists>r. rr_exec p (rr (wq s)) = Inr r"
  using rr_exec_refines [of "rr (wq s)" "(xs, c)" p] by (auto simp: wait_rep_def)

lemma next_thread_exec: "next_thread r = Inr (n, r') \<Longrightarrow> rr_exec Next_round r = Inr r' \<and> current r' = n"
  by (auto simp: next_thread_def bindE_eq_Inr Let_def)

lemma rep_pass:
  assumes "wait_rep s xs c ms" "next_thread (rr (wq s)) = Inr (n, r)" "xs \<noteq> []"
  shows "n = ring_succ xs c \<and> n \<in> set xs \<and> wait_rep (s\<lparr>wq := (wq s)\<lparr>rr := r\<rparr>, phase := ph\<rparr>) xs n ms"
proof -
  note n = next_thread_exec [OF assms(2)]
  from rep_scheduler [OF assms(1) conjunct1 [OF n], of ph] assms(3)
  have r: "wait_rep (s\<lparr>wq := (wq s)\<lparr>rr := r\<rparr>, phase := ph\<rparr>) xs (ring_succ xs c) ms" by simp
  from rep_current [OF r assms(3)] n have "n = ring_succ xs c" "ring_succ xs c \<in> set xs" by simp_all
  with r show ?thesis by simp
qed

lemma rep_enqueue:
  assumes "wait_rep s xs c ms" "valid_msg m" "q_enqueue (wq s) (wheap s) m = Inr (q, h)"
  shows "wait_rep \<lparr>wq = q, wheap = h, phase = ph\<rparr> xs c (ms @ [m])"
proof -
  from assms(1) obtain as where r: "queue_rep (wheap s) (wq s) as ms" "heap_ok (wheap s)" "\<forall>m \<in> set ms. valid_msg m"
    by (auto simp: wait_rep_def fifo_rep_def)
  have "int (length ms) < INT_MAX" using q_enqueue_limit [OF assms(3)] rep_size [OF assms(1)] by simp
  moreover have "nul_free m" using assms(2) by (simp add: valid_msg_def)
  ultimately have "queue_rep h q (as @ [next_addr (wheap s)]) (ms @ [m]) \<and> heap_ok h \<and> rr q = rr (wq s)"
    using enqueue_rep [OF r(1,2), of m] assms(3) by auto
  with assms(1,2) r(3) show ?thesis by (auto simp: wait_rep_def fifo_rep_def)
qed

lemma rep_enqueue_runs:
  assumes "wait_rep s xs c ms" "valid_msg m" "int (length ms) < INT_MAX"
  shows "\<exists>q h. q_enqueue (wq s) (wheap s) m = Inr (q, h)"
  using assms enqueue_rep [of "wheap s" "wq s" _ ms m] by (fastforce simp: wait_rep_def fifo_rep_def valid_msg_def)

lemma rep_dequeue:
  assumes "wait_rep s xs c (m # ms)"
  shows "\<exists>q h. q_dequeue MAXLINE (wq s) (wheap s) dest = Inr (True, mem_write dest 0 (m @ [0]), q, h) \<and>
    wait_rep \<lparr>wq = q, wheap = h, phase = ph\<rparr> xs c ms"
proof -
  from assms obtain as where r: "queue_rep (wheap s) (wq s) as (m # ms)" "heap_ok (wheap s)"
      "\<forall>k \<in> set (m # ms). valid_msg k" by (auto simp: wait_rep_def fifo_rep_def)
  moreover from r(1) obtain a as' where "as = a # as'" by (cases as) (auto simp: queue_rep_def)
  ultimately show ?thesis
    using dequeue_rep [of "wheap s" "wq s" a as' m ms MAXLINE dest] assms
    by (auto simp: wait_rep_def fifo_rep_def valid_msg_def)
qed

lemma rep_phase [simp]: "wait_rep (s\<lparr>phase := ph\<rparr>) = wait_rep s"
  by (intro ext) (simp add: wait_rep_def)

section \<open>The invariant\<close>

lemma wait_invI:
  "wait_rep s xs c ms \<Longrightarrow> (\<And>t. t \<in> set xs \<longleftrightarrow> phase s t \<noteq> Outside) \<Longrightarrow> (\<And>t. in_turn (phase s t) \<Longrightarrow> t = c) \<Longrightarrow>
   (\<And>t. phase s t = Taking \<Longrightarrow> ms \<noteq> []) \<Longrightarrow> wait_inv s xs c ms"
  by (simp add: wait_inv_def)

lemma wait_invD:
  assumes "wait_inv s xs c ms"
  shows "wait_rep s xs c ms" "t \<in> set xs \<longleftrightarrow> phase s t \<noteq> Outside" "in_turn (phase s t) \<Longrightarrow> t = c"
    "phase s t = Taking \<Longrightarrow> ms \<noteq> []" "xs \<noteq> [] \<Longrightarrow> distinct xs \<and> current (rr (wq s)) = c"
    "in_turn (phase s t) \<Longrightarrow> in_turn (phase s u) \<Longrightarrow> u = t"
  using assms rep_current [of s xs c ms] unfolding wait_inv_def by metis+

lemma fresh_inv: "new_queue raw nm = Inr q \<Longrightarrow> wait_inv (fresh_queue q) [] c []"
  using init_abs [of raw c] queue_rep_new [of raw nm q empty_heap]
  by (auto simp: wait_inv_def wait_rep_def fresh_queue_def fifo_rep_def new_queue_def bindE_eq_Inr)

lemma subscribe_inv:
  assumes "wait_inv s xs c ms" "phase s t = Outside" "q_add_subscriber (wq s) t = Inr q"
  shows "wait_inv (s\<lparr>wq := q, phase := (phase s)(t := Entering)\<rparr>) (xs @ [t]) (if xs = [] then t else c) ms"
proof -
  from assms(3) obtain r where r: "add_subscriber (rr (wq s)) t = Inr r" "q = (wq s)\<lparr>rr := r\<rparr>"
    by (auto simp: q_add_subscriber_def bindE_eq_Inr)
  then have "0 \<le> t" "t < int MAX_CONNECTIONS" by (auto simp: add_subscriber_def bindE_eq_Inr)
  with assms have "op_ok (Subscribe t) (xs, c)" by (simp add: wait_inv_def)
  from rep_scheduler [OF _ _ this, of s ms r] assms(1) r
  have "wait_rep (s\<lparr>wq := q, phase := (phase s)(t := Entering)\<rparr>) (xs @ [t]) (if xs = [] then t else c) ms"
    by (simp add: wait_inv_def)
  moreover have "xs = [] \<longrightarrow> phase s t' = Outside" for t' using assms(1) by (auto simp: wait_inv_def)
  ultimately show ?thesis using assms(1,2) by (auto simp: wait_inv_def)
qed

lemma leave_inv:
  assumes inv: "wait_inv s xs c ms" and t: "phase s t = Served" and r: "remove_subscriber (rr (wq s)) t = Inr r"
  shows "wait_inv (s\<lparr>wq := (wq s)\<lparr>rr := r\<rparr>, phase := (phase s)(t := Outside)\<rparr>)
    (remove1 t xs) (if c = t then ring_succ xs t else c) ms"
proof -
  note D = wait_invD [OF inv]
  have m: "t \<in> set xs" using D(2) t by simp
  with D(5) have d: "distinct xs" by fastforce
  from rep_scheduler [OF D(1), of "Unsubscribe t" r] r m
  have "wait_rep (s\<lparr>wq := (wq s)\<lparr>rr := r\<rparr>, phase := (phase s)(t := Outside)\<rparr>)
    (remove1 t xs) (if c = t then ring_succ xs t else c) ms" by simp
  moreover have "u = (if c = t then ring_succ xs t else c)" if "u \<noteq> t" "in_turn (phase s u)" for u
    using D(3) [of u] that by auto
  ultimately show ?thesis
    by (intro wait_invI) (use d D(2,4) in \<open>auto split: if_splits\<close>)
qed

lemma pass_inv:
  assumes inv: "wait_inv s xs c ms" and t: "phase s t = Passing" and n: "next_thread (rr (wq s)) = Inr (n, r)"
  shows "wait_inv (s\<lparr>wq := (wq s)\<lparr>rr := r\<rparr>, phase := wake_round n ((phase s)(t := Served))\<rparr>) xs n ms"
proof -
  note D = wait_invD [OF inv]
  let ?ph = "wake_round n ((phase s)(t := Served))"
  have "t \<in> set xs" using D(2) t by simp
  then have "xs \<noteq> []" by auto
  from rep_pass [OF D(1) n this, of ?ph]
  have r: "wait_rep (s\<lparr>wq := (wq s)\<lparr>rr := r\<rparr>, phase := ?ph\<rparr>) xs n ms" by blast
  have turn: "u = t" if "in_turn (phase s u)" for u using D(6) [of t u] that t by simp
  have "u = n" if "in_turn (?ph u)" for u
    using that turn [of u] by (auto simp: wake_round_def split: if_splits)
  moreover have "?ph u \<noteq> Taking" for u using turn [of u] by (auto simp: wake_round_def)
  moreover have "?ph u = Outside \<longleftrightarrow> phase s u = Outside" for u using t by (auto simp: wake_round_def)
  ultimately show ?thesis using r D(2) by (simp add: wait_inv_def)
qed

lemma wait_inv_step:
  assumes "signalled_step s s'" "wait_inv s xs c ms"
  shows "\<exists>xs' c' ms'. wait_inv s' xs' c' ms'"
  using assms
proof (induction rule: signalled_step.induct)
  case (subscribe s t q)
  from subscribe_inv [OF subscribe(3,1,2)] show ?case by blast
next
  case (look_round s t)
  then have "xs \<noteq> []" by (auto simp: wait_inv_def)
  with rep_current [of s xs c ms] look_round
  have "wait_inv (s\<lparr>phase := (phase s)(t := after_look_round (rr (wq s)) t)\<rparr>) xs c ms"
    by (auto simp: wait_inv_def after_look_round_def must_wait_round_def)
  then show ?case by blast
next
  case (sleep_round s t)
  then have "wait_inv (s\<lparr>phase := (phase s)(t := In_round_wait)\<rparr>) xs c ms" by (auto simp: wait_inv_def)
  then show ?case by blast
next
  case (look_msg s t)
  have "after_look_msg (wq s) = Taking \<longrightarrow> ms \<noteq> []" "after_look_msg (wq s) = Taking \<or> after_look_msg (wq s) = Before_msg_wait"
    using rep_size [of s xs c ms] look_msg by (auto simp: wait_inv_def after_look_msg_def must_wait_msg_def)
  with look_msg have "wait_inv (s\<lparr>phase := (phase s)(t := after_look_msg (wq s))\<rparr>) xs c ms"
    by (auto simp: wait_inv_def)
  then show ?case by blast
next
  case (sleep_msg s t)
  then have "wait_inv (s\<lparr>phase := (phase s)(t := In_msg_wait)\<rparr>) xs c ms" by (auto simp: wait_inv_def)
  then show ?case by blast
next
  case (take_msg s t dest ret dest' q h)
  then obtain m ms' where ms: "ms = m # ms'" by (cases ms) (auto simp: wait_inv_def)
  from rep_dequeue [of s xs c m ms' dest "(phase s)(t := Passing)"] take_msg ms
  have rep: "wait_rep \<lparr>wq = q, wheap = h, phase = (phase s)(t := Passing)\<rparr> xs c ms'" by (auto simp: wait_inv_def)
  have turn: "u = c" if "in_turn (phase s u)" for u by (rule wait_invD(3) [OF take_msg(3) that])
  have only: "u = t" if "phase s u = Taking" for u using turn [of u] turn [of t] that take_msg(1) by simp
  have "wait_inv \<lparr>wq = q, wheap = h, phase = (phase s)(t := Passing)\<rparr> xs c ms'"
  proof (rule wait_invI [OF rep])
    fix u
    show "u \<in> set xs \<longleftrightarrow> phase \<lparr>wq = q, wheap = h, phase = (phase s)(t := Passing)\<rparr> u \<noteq> Outside"
      using wait_invD(2) [OF take_msg(3), of u] take_msg(1) by auto
    show "u = c" if "in_turn (phase \<lparr>wq = q, wheap = h, phase = (phase s)(t := Passing)\<rparr> u)"
      using that turn [of u] turn [of t] take_msg(1) by (cases "u = t") auto
    show "ms' \<noteq> []" if "phase \<lparr>wq = q, wheap = h, phase = (phase s)(t := Passing)\<rparr> u = Taking"
      using that only [of u] by (cases "u = t") auto
  qed
  then show ?case by blast
next
  case (pass_turn s t n r)
  from pass_inv [OF pass_turn(3,1,2)] show ?case by blast
next
  case (publish m s q h)
  from rep_enqueue [of s xs c ms m q h "wake_all (phase s)"] publish
  have "wait_inv \<lparr>wq = q, wheap = h, phase = wake_all (phase s)\<rparr> xs c (ms @ [m])"
    by (auto simp: wait_inv_def wake_all_def)
  then show ?case by blast
next
  case (acknowledged s t)
  then have "wait_inv (s\<lparr>phase := (phase s)(t := Entering)\<rparr>) xs c ms" by (auto simp: wait_inv_def)
  then show ?case by blast
next
  case (leave s t r)
  from leave_inv [OF leave(3,1,2)] show ?case by blast
qed

lemma wait_inv_steps: "signalled_step\<^sup>*\<^sup>* s s' \<Longrightarrow> wait_inv s xs c ms \<Longrightarrow> \<exists>xs' c' ms'. wait_inv s' xs' c' ms'"
  by (induction rule: rtranclp_induct) (use wait_inv_step in blast)+

text \<open>A thread that sleeps for its round while it has the turn: nobody else can take a message.\<close>

lemma stuck_step:
  assumes "signalled_step s s'" "wait_inv s xs t ms" "phase s t = In_round_wait"
  shows "\<exists>xs' more. wait_inv s' xs' t (ms @ more) \<and> phase s' t = In_round_wait"
proof -
  note D = wait_invD [OF assms(2)]
  have out: "\<not> in_turn (phase s u)" for u using D(3) [of u] assms(3) by (cases "u = t") auto
  have xs: "xs \<noteq> []" using D(2) [of t] assms(3) by auto
  from assms(1) show ?thesis
  proof (cases rule: signalled_step.cases)
    case (subscribe u q)
    from subscribe_inv [OF assms(2) subscribe(2,3)] xs subscribe assms(3) show ?thesis
      by (intro exI [of _ "xs @ [u]"] exI [of _ "[]"]) auto
  next
    case (look_round u)
    have "after_look_round (rr (wq s)) u = Before_round_wait" if "u \<noteq> t"
      using D(5) [OF xs] that by (simp add: after_look_round_def must_wait_round_def)
    with look_round assms(2,3) have "wait_inv s' xs t ms \<and> phase s' t = In_round_wait"
      by (auto simp: wait_inv_def)
    then show ?thesis by (metis append_Nil2)
  next
    case (sleep_round u)
    with assms(2,3) have "wait_inv s' xs t ms \<and> phase s' t = In_round_wait" by (auto simp: wait_inv_def)
    then show ?thesis by (metis append_Nil2)
  next
    case (publish m q h)
    have "wait_inv s' xs t (ms @ [m])"
    proof (rule wait_invI)
      show "wait_rep s' xs t (ms @ [m])" using rep_enqueue [OF D(1) publish(2,3)] publish(1) by simp
      show "u \<in> set xs \<longleftrightarrow> phase s' u \<noteq> Outside" for u using D(2) [of u] publish(1) by (auto simp: wake_all_def)
      show "in_turn (phase s' u) \<Longrightarrow> u = t" for u
        using out [of u] publish(1) by (auto simp: wake_all_def split: if_splits)
    qed simp
    with publish(1) assms(3) show ?thesis by (auto simp: wake_all_def)
  next
    case (acknowledged u)
    with assms(2,3) have "wait_inv s' xs t ms \<and> phase s' t = In_round_wait" by (auto simp: wait_inv_def)
    then show ?thesis by (metis append_Nil2)
  next
    case (leave u r)
    then have "u \<noteq> t" using assms(3) by auto
    with leave_inv [OF assms(2) leave(2,3)] leave(1) assms(3) show ?thesis
      by (intro exI [of _ "remove1 u xs"] exI [of _ "[]"]) auto
  qed (use out in \<open>metis in_turn_simps\<close>)+
qed

lemma stuck_steps:
  "signalled_step\<^sup>*\<^sup>* s s' \<Longrightarrow> wait_inv s xs t ms \<Longrightarrow> phase s t = In_round_wait \<Longrightarrow>
   \<exists>xs' more. wait_inv s' xs' t (ms @ more) \<and> phase s' t = In_round_wait"
proof (induction rule: rtranclp_induct)
  case base
  then show ?case by (metis append_Nil2)
next
  case (step s1 s2)
  then obtain xs1 more where "wait_inv s1 xs1 t (ms @ more)" "phase s1 t = In_round_wait" by blast
  from stuck_step [OF step(2) this] show ?case by (metis append_assoc)
qed

section \<open>Runs\<close>

definition can_be :: "waiting \<Rightarrow> int list \<Rightarrow> int \<Rightarrow> byte list list \<Rightarrow> (int \<Rightarrow> phase) \<Rightarrow> bool" where
  "can_be s0 xs c ms ph \<longleftrightarrow> (\<exists>s. signalled_step\<^sup>*\<^sup>* s0 s \<and> wait_rep s xs c ms \<and> phase s = ph)"

lemma can_be_step:
  assumes "can_be s0 xs c ms ph"
    and "\<And>s. wait_rep s xs c ms \<Longrightarrow> phase s = ph \<Longrightarrow> \<exists>s'. signalled_step s s' \<and> wait_rep s' xs' c' ms' \<and> phase s' = ph'"
  shows "can_be s0 xs' c' ms' ph'"
proof -
  from assms(1) obtain s where "signalled_step\<^sup>*\<^sup>* s0 s" "wait_rep s xs c ms" "phase s = ph" by (auto simp: can_be_def)
  with assms(2) [of s] show ?thesis unfolding can_be_def by (meson rtranclp.rtrancl_into_rtrancl)
qed

lemma stepI:
  "signalled_step s s' \<Longrightarrow> wait_rep s' xs c ms \<Longrightarrow> phase s' = ph \<Longrightarrow>
   \<exists>s'. signalled_step s s' \<and> wait_rep s' xs c ms \<and> phase s' = ph"
  by blast

lemma can_subscribe:
  assumes "can_be s0 xs c ms ph" "ph t = Outside" "t \<notin> set xs" "0 \<le> t" "t < int MAX_CONNECTIONS"
  shows "can_be s0 (xs @ [t]) (if xs = [] then t else c) ms (ph(t := Entering))"
proof (rule can_be_step [OF assms(1)])
  fix s assume s: "wait_rep s xs c ms" "phase s = ph"
  have ok: "op_ok (Subscribe t) (xs, c)" using assms by simp
  from rep_scheduler_runs [OF s(1) ok] obtain r where r: "add_subscriber (rr (wq s)) t = Inr r" by auto
  have st: "signalled_step s (s\<lparr>wq := (wq s)\<lparr>rr := r\<rparr>, phase := (phase s)(t := Entering)\<rparr>)"
    using s(2) assms(2) r by (intro subscribe) (auto simp: q_add_subscriber_def)
  show "\<exists>s'. signalled_step s s' \<and> wait_rep s' (xs @ [t]) (if xs = [] then t else c) ms \<and> phase s' = ph(t := Entering)"
    by (rule stepI [OF st]) (use rep_scheduler [OF s(1) _ ok, of r "(phase s)(t := Entering)"] r s(2) in auto)
qed

lemma can_look_round:
  assumes "can_be s0 xs c ms ph" "xs \<noteq> []" "ph t = Entering"
  shows "can_be s0 xs c ms (ph(t := if c = t then Round_over else Before_round_wait))"
proof (rule can_be_step [OF assms(1)])
  fix s assume s: "wait_rep s xs c ms" "phase s = ph"
  show "\<exists>s'. signalled_step s s' \<and> wait_rep s' xs c ms \<and> phase s' = ph(t := if c = t then Round_over else Before_round_wait)"
    by (rule stepI [OF look_round])
      (use s rep_current [OF s(1) assms(2)] assms(3) in \<open>auto simp: after_look_round_def must_wait_round_def\<close>)
qed

lemma can_sleep_round:
  assumes "can_be s0 xs c ms ph" "ph t = Before_round_wait"
  shows "can_be s0 xs c ms (ph(t := In_round_wait))"
proof (rule can_be_step [OF assms(1)])
  fix s assume s: "wait_rep s xs c ms" "phase s = ph"
  show "\<exists>s'. signalled_step s s' \<and> wait_rep s' xs c ms \<and> phase s' = ph(t := In_round_wait)"
    by (rule stepI [OF sleep_round]) (use s assms(2) in auto)
qed

text \<open>A thread that has the turn and finds a message goes on to pass the turn.\<close>

lemma can_look_msg:
  assumes "can_be s0 xs c (m # ms) ph" "ph t = Round_over"
  shows "can_be s0 xs c (m # ms) (ph(t := Taking))"
proof (rule can_be_step [OF assms(1)])
  fix s assume s: "wait_rep s xs c (m # ms)" "phase s = ph"
  show "\<exists>s'. signalled_step s s' \<and> wait_rep s' xs c (m # ms) \<and> phase s' = ph(t := Taking)"
    by (rule stepI [OF look_msg])
      (use s rep_size [OF s(1)] assms(2) in \<open>auto simp: after_look_msg_def must_wait_msg_def\<close>)
qed

text \<open>One that finds none goes to sleep.\<close>

lemma can_wait_msg:
  assumes "can_be s0 xs c [] ph" "ph t = Round_over"
  shows "can_be s0 xs c [] (ph(t := In_msg_wait))"
proof -
  have "can_be s0 xs c [] (ph(t := Before_msg_wait))"
  proof (rule can_be_step [OF assms(1)])
    fix s assume s: "wait_rep s xs c []" "phase s = ph"
    show "\<exists>s'. signalled_step s s' \<and> wait_rep s' xs c [] \<and> phase s' = ph(t := Before_msg_wait)"
      by (rule stepI [OF look_msg])
        (use s rep_size [OF s(1)] assms(2) in \<open>auto simp: after_look_msg_def must_wait_msg_def\<close>)
  qed
  then show ?thesis
  proof (rule can_be_step)
    fix s assume s: "wait_rep s xs c []" "phase s = ph(t := Before_msg_wait)"
    show "\<exists>s'. signalled_step s s' \<and> wait_rep s' xs c [] \<and> phase s' = ph(t := In_msg_wait)"
      by (rule stepI [OF sleep_msg]) (use s in auto)
  qed
qed

lemma can_serve:
  assumes "can_be s0 xs c (m # ms) ph" "c \<in> set xs" "ph c = Round_over"
  shows "can_be s0 xs (ring_succ xs c) ms (wake_round (ring_succ xs c) (ph(c := Served)))"
proof -
  from can_look_msg [OF assms(1,3)] have "can_be s0 xs c (m # ms) (ph(c := Taking))" .
  then have "can_be s0 xs c ms (ph(c := Passing))"
  proof (rule can_be_step)
    fix s assume s: "wait_rep s xs c (m # ms)" "phase s = ph(c := Taking)"
    from rep_dequeue [OF s(1), of zero_buf "ph(c := Passing)"] obtain q h where
      d: "q_dequeue MAXLINE (wq s) (wheap s) zero_buf = Inr (True, mem_write zero_buf 0 (m @ [0]), q, h)"
      "wait_rep \<lparr>wq = q, wheap = h, phase = ph(c := Passing)\<rparr> xs c ms" by blast
    show "\<exists>s'. signalled_step s s' \<and> wait_rep s' xs c ms \<and> phase s' = ph(c := Passing)"
      by (rule stepI [OF take_msg [OF _ d(1)]]) (use s d(2) in auto)
  qed
  then show ?thesis
  proof (rule can_be_step)
    fix s assume s: "wait_rep s xs c ms" "phase s = ph(c := Passing)"
    have ne: "xs \<noteq> []" using assms(2) by auto
    from rep_scheduler_runs [OF s(1), of Next_round] ne obtain n r where
      n: "next_thread (rr (wq s)) = Inr (n, r)" by (auto simp: bindE_eq_Inr)
    show "\<exists>s'. signalled_step s s' \<and> wait_rep s' xs (ring_succ xs c) ms \<and>
        phase s' = wake_round (ring_succ xs c) (ph(c := Served))"
      by (rule stepI [OF pass_turn [OF _ n]]) (use s(2) rep_pass [OF s(1) n ne] in auto)
  qed
qed

lemma can_publish:
  assumes "can_be s0 xs c ms ph" "valid_msg m" "int (length ms) < INT_MAX"
  shows "can_be s0 xs c (ms @ [m]) (wake_all ph)"
proof (rule can_be_step [OF assms(1)])
  fix s assume s: "wait_rep s xs c ms" "phase s = ph"
  from rep_enqueue_runs [OF s(1) assms(2,3)] obtain q h where e: "q_enqueue (wq s) (wheap s) m = Inr (q, h)" by blast
  show "\<exists>s'. signalled_step s s' \<and> wait_rep s' xs c (ms @ [m]) \<and> phase s' = wake_all ph"
    by (rule stepI [OF publish [OF assms(2) e] rep_enqueue [OF s(1) assms(2) e]]) (simp add: s(2))
qed

lemma can_acknowledge:
  assumes "can_be s0 xs c ms ph" "ph t = Served"
  shows "can_be s0 xs c ms (ph(t := Entering))"
proof (rule can_be_step [OF assms(1)])
  fix s assume s: "wait_rep s xs c ms" "phase s = ph"
  show "\<exists>s'. signalled_step s s' \<and> wait_rep s' xs c ms \<and> phase s' = ph(t := Entering)"
    by (rule stepI [OF acknowledged]) (use s assms(2) in auto)
qed

lemma can_leave:
  assumes "can_be s0 xs c ms ph" "ph t = Served" "t \<in> set xs"
  shows "can_be s0 (remove1 t xs) (if c = t then ring_succ xs t else c) ms (ph(t := Outside))"
proof (rule can_be_step [OF assms(1)])
  fix s assume s: "wait_rep s xs c ms" "phase s = ph"
  have ok: "op_ok (Unsubscribe t) (xs, c)" using assms by simp
  from rep_scheduler_runs [OF s(1) ok] obtain r where r: "remove_subscriber (rr (wq s)) t = Inr r" by auto
  show "\<exists>s'. signalled_step s s' \<and> wait_rep s' (remove1 t xs) (if c = t then ring_succ xs t else c) ms \<and> phase s' = ph(t := Outside)"
    by (rule stepI [OF leave [OF _ r]])
      (use rep_scheduler [OF s(1) _ ok, of r "ph(t := Outside)"] r s(2) assms(2) in auto)
qed

lemma can_be_fresh: "new_queue raw nm = Inr q \<Longrightarrow> can_be (fresh_queue q) [] c [] (\<lambda>_. Outside)"
  using fresh_inv [of raw nm q c] by (auto simp: can_be_def wait_inv_def fresh_queue_def)

lemma can_be_refl: "wait_rep s xs c ms \<Longrightarrow> can_be s xs c ms (phase s)"
  by (auto simp: can_be_def)

lemma hello_valid: "valid_msg [0x68]"
  by (simp add: valid_msg_def nul_free_def MAXLINE_def)

lemma few_messages: "int (length ms) < 10 \<Longrightarrow> int (length ms) < INT_MAX"
  by (simp add: INT_MAX_def)

text \<open>Two subscribers, 1 and 2, and some messages: the start of both runs below.\<close>

lemma can_gather:
  assumes "new_queue raw nm = Inr q" "k < 10"
  shows "can_be (fresh_queue q) [1, 2] 1 (replicate k [0x68]) ((\<lambda>_. Outside)(1 := Entering, 2 := Entering))"
proof -
  have "can_be (fresh_queue q) [] 1 (replicate k [0x68]) (\<lambda>_. Outside)" using assms(2)
  proof (induction k)
    case 0
    with can_be_fresh [OF assms(1)] show ?case by simp
  next
    case (Suc k)
    then have "can_be (fresh_queue q) [] 1 (replicate k [0x68]) (\<lambda>_. Outside)" by simp
    from can_publish [OF this hello_valid few_messages] Suc(2) show ?case
      by (simp add: wake_all_def replicate_append_same)
  qed
  from can_subscribe [OF this, of 1]
  have "can_be (fresh_queue q) [1] 1 (replicate k [0x68]) ((\<lambda>_. Outside)(1 := Entering))"
    by (simp add: MAX_CONNECTIONS_def)
  from can_subscribe [OF this, of 2] show ?thesis by (simp add: MAX_CONNECTIONS_def)
qed

lemma can_miss_by_race:
  assumes "new_queue raw nm = Inr q"
  shows "can_be (fresh_queue q) [1, 2] 2 [[0x68]] ((\<lambda>_. Outside)(1 := Served, 2 := In_round_wait))"
proof -
  from can_look_round [OF can_gather [OF assms, of 2], of 2]
  have "can_be (fresh_queue q) [1, 2] 1 [[0x68], [0x68]] ((\<lambda>_. Outside)(1 := Entering, 2 := Before_round_wait))"
    by (simp add: numeral_2_eq_2)
  from can_look_round [OF this, of 1]
  have "can_be (fresh_queue q) [1, 2] 1 [[0x68], [0x68]] ((\<lambda>_. Outside)(1 := Round_over, 2 := Before_round_wait))"
    by (simp add: fun_upd_twist)
  from can_serve [OF this]
  have "can_be (fresh_queue q) [1, 2] 2 [[0x68]] ((\<lambda>_. Outside)(1 := Served, 2 := Before_round_wait))"
    by (simp add: ring_succ_def wake_round_def fun_upd_twist)
  from can_sleep_round [OF this, of 2] show ?thesis by simp
qed

lemma can_miss_by_leaving:
  assumes "new_queue raw nm = Inr q"
  shows "can_be (fresh_queue q) [2] 2 [[0x68]] ((\<lambda>_. Outside)(1 := Outside, 2 := In_round_wait))"
proof -
  from can_look_round [OF can_gather [OF assms, of 3], of 1]
  have "can_be (fresh_queue q) [1, 2] 1 [[0x68], [0x68], [0x68]] ((\<lambda>_. Outside)(1 := Round_over, 2 := Entering))"
    by (simp add: numeral_3_eq_3 fun_upd_twist)
  from can_serve [OF this]
  have "can_be (fresh_queue q) [1, 2] 2 [[0x68], [0x68]] ((\<lambda>_. Outside)(1 := Served, 2 := Entering))"
    by (simp add: ring_succ_def wake_round_def fun_upd_twist)
  from can_look_round [OF this, of 2]
  have "can_be (fresh_queue q) [1, 2] 2 [[0x68], [0x68]] ((\<lambda>_. Outside)(1 := Served, 2 := Round_over))" by simp
  from can_serve [OF this]
  have "can_be (fresh_queue q) [1, 2] 1 [[0x68]] ((\<lambda>_. Outside)(1 := Served, 2 := Served))"
    by (simp add: ring_succ_def wake_round_def)
  from can_acknowledge [OF this, of 2]
  have "can_be (fresh_queue q) [1, 2] 1 [[0x68]] ((\<lambda>_. Outside)(1 := Served, 2 := Entering))" by simp
  from can_look_round [OF this, of 2]
  have "can_be (fresh_queue q) [1, 2] 1 [[0x68]] ((\<lambda>_. Outside)(1 := Served, 2 := Before_round_wait))" by simp
  from can_sleep_round [OF this, of 2]
  have "can_be (fresh_queue q) [1, 2] 1 [[0x68]] ((\<lambda>_. Outside)(1 := Served, 2 := In_round_wait))" by simp
  from can_leave [OF this, of 1] show ?thesis by (simp add: ring_succ_def fun_upd_twist)
qed

section \<open>What waiting guarantees, and what it does not\<close>

lemma signalled_turn:
  assumes "new_queue raw nm = Inr q" "signalled_step\<^sup>*\<^sup>* (fresh_queue q) s" "in_turn (phase s t)"
  shows "current (rr (wq s)) = t \<and> (\<forall>u. u \<noteq> t \<longrightarrow> \<not> in_turn (phase s u)) \<and>
    (phase s t = Taking \<longrightarrow>
      (\<exists>m q' h'. q_dequeue MAXLINE (wq s) (wheap s) dest = Inr (True, mem_write dest 0 (m @ [0]), q', h')))"
proof -
  from wait_inv_steps [OF assms(2) fresh_inv [OF assms(1)]] obtain xs c ms where inv: "wait_inv s xs c ms" by blast
  note D = wait_invD [OF inv]
  have "xs \<noteq> []" using D(2) [of t] assms(3) by auto
  then have "current (rr (wq s)) = t" using D(5) D(3) [OF assms(3)] by simp
  moreover have "\<not> in_turn (phase s u)" if "u \<noteq> t" for u using D(6) [OF assms(3), of u] that by blast
  moreover have "\<exists>m q' h'. q_dequeue MAXLINE (wq s) (wheap s) dest = Inr (True, mem_write dest 0 (m @ [0]), q', h')"
    if "phase s t = Taking"
  proof -
    from D(4) [OF that] obtain m ms' where "ms = m # ms'" by (cases ms) auto
    with rep_dequeue [of s xs c m ms' dest "phase s"] D(1) show ?thesis by blast
  qed
  ultimately show ?thesis by blast
qed

text \<open>One spurious wake-up puts two consumers in turn.\<close>

lemma can_share_the_turn:
  assumes "new_queue raw nm = Inr q"
  shows "\<exists>s s'. signalled_step\<^sup>*\<^sup>* (fresh_queue q) s \<and> spurious_step s s' \<and> in_turn (phase s' 1) \<and> in_turn (phase s' 2)"
proof -
  from can_look_round [OF can_gather [OF assms, of 1], of 2]
  have "can_be (fresh_queue q) [1, 2] 1 [[0x68]] ((\<lambda>_. Outside)(1 := Entering, 2 := Before_round_wait))" by simp
  from can_sleep_round [OF this, of 2]
  have "can_be (fresh_queue q) [1, 2] 1 [[0x68]] ((\<lambda>_. Outside)(1 := Entering, 2 := In_round_wait))" by simp
  from can_look_round [OF this, of 1] obtain s where
    s: "signalled_step\<^sup>*\<^sup>* (fresh_queue q) s" "phase s 1 = Round_over" "phase s 2 = In_round_wait" by (auto simp: can_be_def)
  have "spurious_step s (s\<lparr>phase := (phase s)(2 := Round_over)\<rparr>)" using s(3) by (rule spurious_round)
  with s show ?thesis by (intro exI [of _ s] exI [of _ "s\<lparr>phase := (phase s)(2 := Round_over)\<rparr>"]) simp
qed

text \<open>One spurious wake-up makes a consumer take a message from an empty queue: it gets \<^verbatim>\<open>NULL\<close>.\<close>

lemma can_take_nothing:
  assumes "new_queue raw nm = Inr q"
  shows "\<exists>s s'. signalled_step\<^sup>*\<^sup>* (fresh_queue q) s \<and> spurious_step s s' \<and> phase s' 1 = Taking \<and>
    (\<forall>dest. q_dequeue MAXLINE (wq s') (wheap s') dest = Inr (False, dest, wq s', wheap s'))"
proof -
  from can_look_round [OF can_gather [OF assms, of 0], of 1]
  have "can_be (fresh_queue q) [1, 2] 1 [] ((\<lambda>_. Outside)(1 := Round_over, 2 := Entering))"
    by (simp add: fun_upd_twist)
  from can_wait_msg [OF this, of 1] obtain s where
    s: "signalled_step\<^sup>*\<^sup>* (fresh_queue q) s" "wait_rep s [1, 2] 1 []" "phase s 1 = In_msg_wait" by (auto simp: can_be_def)
  let ?s = "s\<lparr>phase := (phase s)(1 := Taking)\<rparr>"
  have "spurious_step s ?s" using s(3) by (rule spurious_msg)
  moreover have "last_node (wq s) = None"
    using s(2) by (auto simp: wait_rep_def fifo_rep_def queue_rep_def elim: holds.elims)
  then have "q_dequeue MAXLINE (wq ?s) (wheap ?s) dest = Inr (False, dest, wq ?s, wheap ?s)" for dest
    by (simp add: q_dequeue_def)
  ultimately show ?thesis using s(1) by (intro exI [of _ s] exI [of _ ?s]) simp
qed

text \<open>C15. The turn works as a lock as long as every wake-up is a signal: whatever the order of the
  steps of consumers and publishers, at most one consumer of a queue is between its round and
  \<open>next_thread\<close>, the scheduler names it, and when it is about to take a message there is one to
  take. It does not survive spurious wake-ups: after a single one two consumers can be in
  turn, and a consumer can take from an empty queue and get \<^verbatim>\<open>NULL\<close>.\<close>

theorem turns_are_exclusive:
  assumes "new_queue raw nm = Inr q"
  shows "(\<forall>s t dest. signalled_step\<^sup>*\<^sup>* (fresh_queue q) s \<longrightarrow> in_turn (phase s t) \<longrightarrow>
      current (rr (wq s)) = t \<and> (\<forall>u. u \<noteq> t \<longrightarrow> \<not> in_turn (phase s u)) \<and>
      (phase s t = Taking \<longrightarrow>
        (\<exists>m q' h'. q_dequeue MAXLINE (wq s) (wheap s) dest = Inr (True, mem_write dest 0 (m @ [0]), q', h')))) \<and>
    (\<exists>s s'. signalled_step\<^sup>*\<^sup>* (fresh_queue q) s \<and> spurious_step s s' \<and> in_turn (phase s' 1) \<and> in_turn (phase s' 2)) \<and>
    (\<exists>s s'. signalled_step\<^sup>*\<^sup>* (fresh_queue q) s \<and> spurious_step s s' \<and> phase s' 1 = Taking \<and>
      (\<forall>dest. q_dequeue MAXLINE (wq s') (wheap s') dest = Inr (False, dest, wq s', wheap s')))"
  using signalled_turn [OF assms] can_share_the_turn [OF assms] can_take_nothing [OF assms] by blast

theorem turns_are_exclusive_witness:
  "\<exists>q s m q' h'. new_queue two_subscribers [0x71] = Inr q \<and> signalled_step\<^sup>*\<^sup>* (fresh_queue q) s \<and> phase s 2 = Entering \<and>
    phase s 1 = Taking \<and> current (rr (wq s)) = 1 \<and>
    q_dequeue MAXLINE (wq s) (wheap s) zero_buf = Inr (True, mem_write zero_buf 0 (m @ [0]), q', h')"
proof -
  obtain q where q: "new_queue two_subscribers [0x71] = Inr q" by (simp add: new_queue_def MAX_QUEUE_NAME_def)
  from can_look_round [OF can_gather [OF q, of 1], of 1]
  have "can_be (fresh_queue q) [1, 2] 1 [[0x68]] ((\<lambda>_. Outside)(1 := Round_over, 2 := Entering))"
    by (simp add: fun_upd_twist)
  from can_look_msg [OF this, of 1] obtain s where s: "signalled_step\<^sup>*\<^sup>* (fresh_queue q) s" "phase s 2 = Entering" "phase s 1 = Taking"
    by (auto simp: can_be_def)
  from turns_are_exclusive [OF q, THEN conjunct1, rule_format, OF s(1), of 1 zero_buf] s(3)
  have "current (rr (wq s)) = 1 \<and>
    (\<exists>m q' h'. q_dequeue MAXLINE (wq s) (wheap s) zero_buf = Inr (True, mem_write zero_buf 0 (m @ [0]), q', h'))" by simp
  with s q show ?thesis by blast
qed

text \<open>Consumer \<open>t\<close> sleeps although it is its turn, nobody else is in turn, and the queue \<open>q\<close> has
  only grown.\<close>

definition sleeps_on :: "queue \<Rightarrow> int \<Rightarrow> waiting \<Rightarrow> bool" where
  "sleeps_on q t s \<longleftrightarrow> phase s t = In_round_wait \<and> current (rr (wq s)) = t \<and> (\<forall>u. \<not> in_turn (phase s u)) \<and>
     queue_size q \<le> queue_size (wq s)"

lemma signalled_sleeps_on:
  assumes "new_queue raw nm = Inr q" "signalled_step\<^sup>*\<^sup>* (fresh_queue q) s"
    and "phase s t = In_round_wait" "current (rr (wq s)) = t" "signalled_step\<^sup>*\<^sup>* s s'"
  shows "sleeps_on (wq s) t s'"
proof -
  from wait_inv_steps [OF assms(2) fresh_inv [OF assms(1)]] obtain xs c ms where inv: "wait_inv s xs c ms" by blast
  have "xs \<noteq> []" using wait_invD(2) [OF inv, of t] assms(3) by auto
  with wait_invD(5) [OF inv] assms(4) inv have inv: "wait_inv s xs t ms" by simp
  from stuck_steps [OF assms(5) this assms(3)] obtain xs' more where
    s': "wait_inv s' xs' t (ms @ more)" "phase s' t = In_round_wait" by blast
  note D = wait_invD [OF s'(1)]
  have "xs' \<noteq> []" using D(2) [of t] s'(2) by auto
  moreover have "\<not> in_turn (phase s' u)" for u using D(3) [of u] s'(2) by (cases "u = t") auto
  ultimately show ?thesis
    using D(5) s'(2) rep_size [OF D(1)] rep_size [OF wait_invD(1) [OF inv]] by (auto simp: sleeps_on_def)
qed

lemma first_spurious:
  "wait_step\<^sup>*\<^sup>* s s' \<Longrightarrow> signalled_step\<^sup>*\<^sup>* s s' \<or>
   (\<exists>u u'. signalled_step\<^sup>*\<^sup>* s u \<and> spurious_step u u' \<and> wait_step\<^sup>*\<^sup>* u' s')"
proof (induction rule: rtranclp_induct)
  case (step s1 s2)
  from step.IH show ?case
  proof (elim disjE exE conjE)
    assume s1: "signalled_step\<^sup>*\<^sup>* s s1"
    from step(2) consider "signalled_step s1 s2" | "spurious_step s1 s2" by (auto simp: wait_step_def)
    then show ?thesis
    proof cases
      case 1
      with s1 have "signalled_step\<^sup>*\<^sup>* s s2" by (rule rtranclp.rtrancl_into_rtrancl)
      then show ?thesis ..
    next
      case 2
      with s1 show ?thesis by blast
    qed
  next
    fix u u' assume u: "signalled_step\<^sup>*\<^sup>* s u" "spurious_step u u'" "wait_step\<^sup>*\<^sup>* u' s1"
    have "wait_step\<^sup>*\<^sup>* u' s2" using u(3) step(2) by (rule rtranclp.rtrancl_into_rtrancl)
    with u(1,2) show ?thesis by blast
  qed
qed simp



text \<open>It is the turn of a consumer, there is a message, and the consumer sleeps.\<close>

definition lost_turn :: "waiting \<Rightarrow> int \<Rightarrow> bool" where
  "lost_turn s t \<longleftrightarrow> phase s t = In_round_wait \<and> current (rr (wq s)) = t \<and> 0 < queue_size (wq s)"



end
