(* ===== verification/Typing.thy ===== *)
theory Typing
  imports Protocol Safety
begin

text \<open>
  The record of a connection is well formed in every world a broker can get to: the queue it
  works on is the one of the name it holds, that name is a string inside its array, and the
  error message ends inside its array.
\<close>

definition well_typed :: "broker \<Rightarrow> connection_state \<Rightarrow> bool" where
  "well_typed b cs \<longleftrightarrow> length (error_msg cs) < ERROR_MSG_SIZE \<and>
     (\<exists>nm. cstring MAX_QUEUE_NAME (current_queue_name cs) 0 = Inr nm \<and>
       (current_queue cs = None \<or> names b (current_queue cs) nm))"

text \<open>
  An action keeps name, queue and error message, or takes up another name together with what
  the pool has for it, or leaves another message that fits.
\<close>

definition retyped :: "broker \<Rightarrow> connection_state \<Rightarrow> broker \<Rightarrow> connection_state \<Rightarrow> bool" where
  "retyped b cs b' cs' \<longleftrightarrow> (error_msg cs' = error_msg cs \<or> length (error_msg cs') < ERROR_MSG_SIZE) \<and>
     (current_queue_name cs' = current_queue_name cs \<and> current_queue cs' = current_queue cs \<or>
      (\<exists>nm. cstring MAX_QUEUE_NAME (current_queue_name cs') 0 = Inr nm \<and>
        (create_queue b nm = Inr (current_queue cs', b') \<or> get_queue b nm = (current_queue cs', b'))))"

lemma retyped_frames:
  "read_frame cs cs' \<Longrightarrow> retyped b cs b' cs'" "send_frame cs cs' \<Longrightarrow> retyped b cs b' cs'"
  by (simp_all add: retyped_def read_frame_def send_frame_def)

lemma retyped_refl [simp]: "retyped b cs b' cs"
  by (simp add: retyped_def)

lemma retyped_after:
  "read_frame cs c \<Longrightarrow> retyped b c b' cs' \<Longrightarrow> retyped b cs b' cs'"
  "send_frame cs c \<Longrightarrow> retyped b c b' cs' \<Longrightarrow> retyped b cs b' cs'"
  by (simp_all add: retyped_def read_frame_def send_frame_def)

lemma retyped_recvline [simp]: "retyped b cs b' (cs'\<lparr>recvline := l\<rparr>) = retyped b cs b' cs'"
  by (simp add: retyped_def)

lemma retyped_error: "length e < ERROR_MSG_SIZE \<Longrightarrow> retyped b cs b' cs' \<Longrightarrow> retyped b cs b' (cs'\<lparr>error_msg := e\<rparr>)"
  by (simp add: retyped_def)

lemma fail_retyped: "fail_with e c b1 = Inr (m', cs', b') \<Longrightarrow> retyped b cs b' c \<Longrightarrow> retyped b cs b' cs'"
  by (auto simp: fail_with_def set_error_def bindE_eq_Inr intro: retyped_error)

lemma failed_retyped: "fail_with e c b1 = Inr (m', cs', b') \<Longrightarrow> retyped b c b' cs'"
  by (erule fail_retyped) simp

lemma switch_retyped:
  "functional_switch h cs b = Inr (m', cs', b') \<Longrightarrow> retyped b cs b' cs'"
  "publish_switch h cs b = Inr (m', cs', b') \<Longrightarrow> retyped b cs b' cs'"
  by (auto simp: functional_switch_def publish_switch_def queue_case_def basic_publish_case_def retyped_def
      basic_consume_case_def get_queue_lookup bindE_eq_Inr Let_def split: if_splits)

lemma checked_retyped:
  assumes "bindE F (\<lambda>(m, cs, b). if m = FAIL then fail_with e cs b else Inr (m, cs, b)) = Inr (m', cs', b')"
    and "\<And>n c b1. F = Inr (n, c, b1) \<Longrightarrow> retyped b cs b1 c"
  shows "retyped b cs b' cs'"
proof -
  from assms(1) obtain n c b1 where F: "F = Inr (n, c, b1)"
    and k: "(if n = FAIL then fail_with e c b1 else Inr (n, c, b1)) = Inr (m', cs', b')"
    by (auto simp: bindE_eq_Inr)
  have "b' = b1" using k by (auto simp: fail_with_def bindE_eq_Inr split: if_splits)
  with assms(2) [OF F] k show ?thesis by (auto intro: fail_retyped split: if_splits)
qed

lemma wait_retyped: "action_wait cs b = Inr (m', cs', b') \<Longrightarrow> retyped b cs b' cs'"
  by (auto simp: action_wait_def bindE_eq_Inr simp del: fail_with_literals dest!: read_protocol_header_frame_only
      intro: retyped_frames fail_retyped split: if_splits)

lemma failed_after:
  "fail_with e c b1 = Inr (m', cs', b') \<Longrightarrow> read_frame cs c \<Longrightarrow> retyped b cs b' cs'"
  "fail_with e c b1 = Inr (m', cs', b') \<Longrightarrow> read_frame cs c0 \<Longrightarrow> read_frame c0 c \<Longrightarrow> retyped b cs b' cs'"
  "read_frame cs c0 \<Longrightarrow> read_frame c0 cs' \<Longrightarrow> retyped b cs b' cs'"
  by (blast intro: fail_retyped retyped_frames read_frame_trans)+

lemma unsubscribe_after:
  "bindE (unsubscribe c b1) (\<lambda>(_, cs, b). fail_with e cs b) = Inr (m', cs', b') \<Longrightarrow>
   (\<And>b1. fail_with e c b1 = Inr (m', cs', b') \<Longrightarrow> P) \<Longrightarrow> P"
  by (auto simp: unsubscribe_def bindE_eq_Inr simp del: fail_with_literals)

lemma opening_reads_retyped:
  "action_wait_start_ok cs b = Inr (m', cs', b') \<Longrightarrow> retyped b cs b' cs'"
  "action_wait_tune_ok cs b = Inr (m', cs', b') \<Longrightarrow> retyped b cs b' cs'"
  "action_wait_open_connection cs b = Inr (m', cs', b') \<Longrightarrow> retyped b cs b' cs'"
  "action_wait_open_channel cs b = Inr (m', cs', b') \<Longrightarrow> retyped b cs b' cs'"
  unfolding action_wait_start_ok_def action_wait_tune_ok_def action_wait_open_connection_def
    action_wait_open_channel_def Let_def
  by (erule header_elim; auto elim!: method_elim intro: failed_after simp del: fail_with_literals split: if_splits)+

lemma working_reads_retyped:
  "action_wait_functional cs b = Inr (m', cs', b') \<Longrightarrow> retyped b cs b' cs'"
  "action_wait_publish_content_header cs b = Inr (m', cs', b') \<Longrightarrow> retyped b cs b' cs'"
  "action_wait_consume_ack cs b = Inr (m', cs', b') \<Longrightarrow> retyped b cs b' cs'"
proof -
  show "action_wait_functional cs b = Inr (m', cs', b') \<Longrightarrow> retyped b cs b' cs'"
    unfolding action_wait_functional_def
    by (elim header_elim method_elim; (rule retyped_after(1), assumption)+;
        (erule checked_retyped, erule switch_retyped | erule failed_retyped))
  show "action_wait_publish_content_header cs b = Inr (m', cs', b') \<Longrightarrow> retyped b cs b' cs'"
    unfolding action_wait_publish_content_header_def
    by (erule header_elim; rule retyped_after(1), assumption)
      (auto simp: bindE_eq_Inr simp del: fail_with_literals dest!: read_content_header_frame_only
        intro: retyped_frames failed_retyped)
  show "action_wait_consume_ack cs b = Inr (m', cs', b') \<Longrightarrow> retyped b cs b' cs'"
    unfolding action_wait_consume_ack_def
    by (erule header_elim)
      (auto elim!: method_elim unsubscribe_after intro: failed_after simp del: fail_with_literals split: if_splits)
qed

lemma publish_body_retyped: "publish_body_case h cs b = Inr (m', cs', b') \<Longrightarrow> retyped b cs b' cs'"
  by (auto simp: publish_body_case_def bindE_eq_Inr dest!: read_body_frame_only intro: retyped_frames)

lemma publish_method_retyped: "publish_method_case h cs b = Inr (m', cs', b') \<Longrightarrow> retyped b cs b' cs'"
  unfolding publish_method_case_def
  by (elim method_elim; rule retyped_after(1), assumption;
      (erule checked_retyped, erule switch_retyped | erule failed_retyped))

lemma publish_content_retyped: "action_wait_publish_content cs b = Inr (m', cs', b') \<Longrightarrow> retyped b cs b' cs'"
  unfolding action_wait_publish_content_def
  by (erule header_elim; rule retyped_after(1), assumption)
    (auto intro: publish_body_retyped publish_method_retyped failed_retyped simp del: fail_with_literals split: if_splits)

lemma action_retyped: "actions m cs b = Inr (m', cs', b') \<Longrightarrow> retyped b cs b' cs'"
proof (cases "m \<in> set reading_states \<or> m = WAIT")
  case True
  then show "actions m cs b = Inr (m', cs', b') \<Longrightarrow> retyped b cs b' cs'"
    using opening_reads_retyped working_reads_retyped publish_content_retyped wait_retyped
    unfolding reading_states_def by fastforce
next
  case False
  then show "actions m cs b = Inr (m', cs', b') \<Longrightarrow> retyped b cs b' cs'"
    by (cases m) (auto simp: reading_states_def sending_actions action_noop_def bindE_eq_Inr Let_def
        dest!: sends_only intro: retyped_frames retyped_frames(2) [OF send_frame_trans [OF send_frame_trans]])
qed

text \<open>A queue keeps its name, whatever the other threads do.\<close>

lemma names_create:
  assumes "pool_ok b" "length nm < MAX_QUEUE_NAME" "create_queue b nm = Inr (p, b')"
  shows "names b' p nm" "names b q k \<Longrightarrow> names b' q k"
  using pool_ok_create [OF assms(1,2)] assms(3) by (auto simp: names_def)

lemma names_get:
  "get_queue b nm = (p, b') \<Longrightarrow> p = None \<or> names b' p nm" "get_queue b nm = (p, b') \<Longrightarrow> names b q k \<Longrightarrow> names b' q k"
  by (auto simp: names_def get_queue_lookup)

lemma names_effect:
  assumes "effect m cs b m' cs' b'" "pool_ok b" "names b p k"
  shows "names b' p k"
  using assms by (cases rule: effect.cases) (auto intro: names_create names_get)

lemma well_typed_mono:
  "well_typed b cs \<Longrightarrow> (\<And>p k. names b p k \<Longrightarrow> names b' p k) \<Longrightarrow> well_typed b' cs"
  unfolding well_typed_def by blast

lemma well_typed_init: "well_typed b (init_connection fd t input)"
  using cstring_terminated [of "current_queue_name (init_connection fd t input)" 0 0 MAX_QUEUE_NAME]
  by (auto simp: well_typed_def init_connection_def MAX_QUEUE_NAME_def ERROR_MSG_SIZE_def)

lemma well_typed_retyped:
  assumes ok: "well_typed b cs" "pool_ok b" and re: "retyped b cs b' cs'"
    and mono: "\<And>p k. names b p k \<Longrightarrow> names b' p k"
  shows "well_typed b' cs'"
proof -
  have "names b' (current_queue cs') nm" if "cstring MAX_QUEUE_NAME (current_queue_name cs') 0 = Inr nm"
    "create_queue b nm = Inr (current_queue cs', b')" for nm
    using names_create(1) [OF ok(2) _ that(2)] cstring_eq_InrD [OF that(1)] by simp
  with re names_get(1) [of b _ "current_queue cs'" b'] mono ok(1) show ?thesis
    unfolding retyped_def well_typed_def by metis
qed

lemma action_well_typed:
  assumes "actions m cs b = Inr (m', cs', b')" "m \<noteq> FINISHED" "m \<noteq> FAIL" "well_typed b cs" "pool_ok b"
  shows "well_typed b' cs'"
  using assms(4,5) action_retyped [OF assms(1)] names_effect [OF action_effect [OF assms(1-3)] assms(5)]
  by (rule well_typed_retyped)

lemma history_well_typed:
  "history raw ro evs w \<Longrightarrow> threads w t = Some (m, cs) \<Longrightarrow> well_typed (shared w) cs"
proof (induction arbitrary: t m cs rule: history.induct)
  case start
  then show ?case by (simp add: init_world_def)
next
  case (more evs w ev w')
  from history_inv [OF more.hyps(1)] have pool: "pool_ok (shared w)" by (auto simp: world_inv_def dest: abs_pool_ok)
  from more.hyps(2) show ?case
  proof (cases rule: world_step.cases)
    case (accept u fd input)
    with more show ?thesis by (auto simp: well_typed_init split: if_splits)
  next
    case (work u n c n' c' b')
    then have a: "actions n c (shared w) = Inr (n', c', b')" "n \<noteq> FINISHED" "n \<noteq> FAIL"
      by (auto simp: machine_step_simp)
    have "well_typed b' c'" using action_well_typed [OF a] more.IH [OF work(3)] pool by blast
    moreover have "well_typed b' cs" if "threads w t = Some (m, cs)"
      using well_typed_mono [OF more.IH [OF that] names_effect [OF action_effect [OF a] pool]] .
    ultimately show ?thesis using more.prems work(2) by (auto split: if_splits)
  next
    case (wake u c i q ret signalled line q' h')
    have "well_typed (put_queue (shared w) i q' h') c = well_typed (shared w) c" for c
      by (simp add: well_typed_def)
    moreover have "well_typed b (c\<lparr>recvline := line\<rparr>) = well_typed b c" for b c by (simp add: well_typed_def)
    ultimately show ?thesis using wake more.IH more.prems by (auto split: if_splits)
  next
    case (close u n c)
    with more show ?thesis by (auto split: if_splits)
  qed
qed

section \<open>Properties\<close>

text \<open>C11. Whatever the clients send and however the threads interleave, the record of every connection
  is well formed: its thread id is the slot of its thread, its queue name a string inside its
  array and its error message another, and its queue pointer is null or leads to an existing
  queue of exactly that name. In the states after a declaration and while consuming it is not null; the two
  others in which the code follows it, after a publish or a consume request, are not among these:
  there it is null when the queue was not declared (C36).\<close>

theorem connections_well_typed:
  assumes "history raw ro evs w" "threads w t = Some (m, cs)"
  shows "tid cs = t \<and> 0 \<le> t \<and> t < int MAX_CONNECTIONS \<and> length (error_msg cs) < ERROR_MSG_SIZE \<and>
    (\<exists>nm. cstring MAX_QUEUE_NAME (current_queue_name cs) 0 = Inr nm \<and>
      (\<forall>p. current_queue cs = Some p \<longrightarrow> p < length (queues (shared w)) \<and> name (queues (shared w) ! p) = nm)) \<and>
    (m \<in> {QUEUE_DECLARE_RECEIVED, WAIT_VALUE_DEQUEUE, VALUE_DEQUEUE_RECEIVED, WAIT_CONSUME_ACK} \<longrightarrow>
      current_queue cs \<noteq> None)"
proof -
  from history_inv [OF assms(1)] obtain M where inv: "world_inv w M" by blast
  then have pool: "pool_ok (shared w)" by (auto simp: world_inv_def dest: abs_pool_ok)
  from inv assms(2) have "thread_ok w t m cs" by (auto simp: world_inv_def)
  moreover from history_well_typed [OF assms] pool_lookup [OF pool]
  have "length (error_msg cs) < ERROR_MSG_SIZE \<and> (\<exists>nm. cstring MAX_QUEUE_NAME (current_queue_name cs) 0 = Inr nm \<and>
      (\<forall>p. current_queue cs = Some p \<longrightarrow> p < length (queues (shared w)) \<and> name (queues (shared w) ! p) = nm))"
    by (auto simp: well_typed_def names_def)
  ultimately show ?thesis by (auto simp: thread_ok_def)
qed

theorem connections_well_typed_witness:
  "\<exists>evs b cs. history two_subscribers [0, 0, 0] evs \<lparr>shared = b, threads = [2 \<mapsto> (WAIT_VALUE_DEQUEUE, cs)]\<rparr> \<and>
    tid cs = 2 \<and> length (error_msg cs) < ERROR_MSG_SIZE \<and> current_queue cs \<noteq> None \<and>
    (\<exists>nm. cstring MAX_QUEUE_NAME (current_queue_name cs) 0 = Inr nm \<and>
      (\<forall>p. current_queue cs = Some p \<longrightarrow> p < length (queues b) \<and> name (queues b ! p) = nm))"
proof -
  obtain evs b cs where
    h: "history two_subscribers [0, 0, 0] evs \<lparr>shared = b, threads = [2 \<mapsto> (WAIT_VALUE_DEQUEUE, cs)]\<rparr>"
    using sample_world by blast
  from connections_well_typed [OF h, of 2 WAIT_VALUE_DEQUEUE cs] h show ?thesis by auto
qed

end
