(* ===== verification/Log.thy ===== *)
theory Log
  imports Typing
begin

text \<open>
  \<^verbatim>\<open>src/log.c\<close>: the lines printed, \<^verbatim>\<open>SHOULD_LOG\<close> being defined in \<^verbatim>\<open>src/config.h\<close>. Each function
  is the text of its \<^verbatim>\<open>printf\<close>, written under \<^verbatim>\<open>log_mutex\<close>, so that lines do not mix; a string
  argument that has no end inside its array is undefined behaviour. \<open>turn_output\<close> is what a turn
  of the main loop prints, call by call.
\<close>

section \<open>Conversions of printf\<close>

definition tab :: char where "tab = char_of (9 :: nat)"
definition newline :: char where "newline = char_of (10 :: nat)"

text \<open>\<^verbatim>\<open>%s\<close> of a C string, \<^verbatim>\<open>%d\<close>, and \<^verbatim>\<open>%02x\<close>, \<^verbatim>\<open>%04x\<close>, \<^verbatim>\<open>%08x\<close> of numbers of 8, 16 and 32 bits, which
  have at most that many digits.\<close>

definition text_of :: "byte list \<Rightarrow> string" where
  "text_of = map (\<lambda>b. char_of (unat b))"

definition signed_decimal :: "int \<Rightarrow> string" where
  "signed_decimal n = (if n < 0 then ''-'' @ decimal (nat (- n)) else decimal (nat n))"

definition hex_digit :: "nat \<Rightarrow> char" where
  "hex_digit d = char_of (if d < 10 then 48 + d else 87 + d)"

fun hex :: "nat \<Rightarrow> nat \<Rightarrow> string" where
  "hex 0 n = ''''"
| "hex (Suc k) n = hex k (n div 16) @ [hex_digit (n mod 16)]"

section \<open>The lines\<close>

definition thread_prefix :: "int \<Rightarrow> string" where
  "thread_prefix t = ''THREAD '' @ signed_decimal t @ [tab]"

definition log_state :: "string \<Rightarrow> connection_state \<Rightarrow> string" where
  "log_state state_name cs = thread_prefix (tid cs) @ ''STATE'' @ [tab] @ state_name @ [newline]"

definition log_message_header :: "char \<Rightarrow> amqp_message_header \<Rightarrow> connection_state \<Rightarrow> string" where
  "log_message_header sender header cs =
     thread_prefix (tid cs) @ [sender, tab] @ ''TYPE '' @ hex 2 (unat (msg_type header)) @ [tab] @
     ''CHANNEL '' @ hex 4 (unat (channel header)) @ [tab] @
     ''LENGTH '' @ hex 8 (unat (msg_length header)) @ [newline]"

definition log_method_header :: "char \<Rightarrow> amqp_method_header \<Rightarrow> connection_state \<Rightarrow> string" where
  "log_method_header sender header cs =
     thread_prefix (tid cs) @ [sender, tab] @ ''CLASS '' @ hex 4 (unat (class_id header)) @ [tab] @
     ''METHOD '' @ hex 4 (unat (method_id header)) @ [newline]"

definition log_queue_creation :: "buf \<Rightarrow> connection_state \<Rightarrow> string result" where
  "log_queue_creation queue_name cs =
     bindE (cstring MAX_QUEUE_NAME queue_name 0) (\<lambda>nm.
       Inr (thread_prefix (tid cs) @ ''DECLARE '' @ text_of nm @ [newline]))"

definition log_connection_accept :: "int \<Rightarrow> int \<Rightarrow> string" where
  "log_connection_accept t fd = thread_prefix t @ ''ACCEPT FD '' @ signed_decimal fd @ [newline]"

definition log_connection_close :: "int \<Rightarrow> int \<Rightarrow> string" where
  "log_connection_close t fd = thread_prefix t @ ''CLOSE FD '' @ signed_decimal fd @ [newline]"

definition log_max_thread_reached :: string where
  "log_max_thread_reached = ''MAIN'' @ [tab] @ ''MAX THREAD REACHED'' @ [newline]"

definition log_fail :: "connection_state \<Rightarrow> string" where
  "log_fail cs = thread_prefix (tid cs) @ ''FAIL!'' @ [tab] @ ''MSG: '' @ error_msg cs @ [newline]"

definition log_finished :: "connection_state \<Rightarrow> string" where
  "log_finished cs = thread_prefix (tid cs) @ ''FINISHED!'' @ [newline]"

definition log_enqueue :: "connection_state \<Rightarrow> buf \<Rightarrow> string result" where
  "log_enqueue cs body_text =
     bindE (cstring MAX_QUEUE_NAME (current_queue_name cs) 0) (\<lambda>nm.
     bindE (cstring MAXLINE body_text 0) (\<lambda>bs.
       Inr (thread_prefix (tid cs) @ ''ENQ'' @ [tab] @ ''QUEUE '' @ text_of nm @ [tab] @
         ''BODY '' @ text_of bs @ [tab, newline])))"

definition log_dequeue :: "connection_state \<Rightarrow> buf \<Rightarrow> string result" where
  "log_dequeue cs body_text =
     bindE (cstring MAX_QUEUE_NAME (current_queue_name cs) 0) (\<lambda>nm.
     bindE (cstring MAXLINE body_text 0) (\<lambda>bs.
       Inr (thread_prefix (tid cs) @ ''DEQ'' @ [tab] @ ''QUEUE '' @ text_of nm @ [tab] @
         ''BODY '' @ text_of bs @ [tab, newline])))"

section \<open>What a turn of the main loop prints\<close>

text \<open>The name each action gives to \<^verbatim>\<open>log_state\<close>; \<^verbatim>\<open>action_noop\<close> prints nothing.\<close>

fun state_name :: "machine_state \<Rightarrow> string" where
  "state_name WAIT = ''WAITING HEADER''"
| "state_name HEADER_RECEIVED = ''HEADER RECEIVED''"
| "state_name WAIT_START_OK = ''WAIT START OK''"
| "state_name START_OK_RECEIVED = ''START OK RECEIVED''"
| "state_name WAIT_TUNE_OK = ''WAIT TUNE OK''"
| "state_name WAIT_OPEN_CONNECTION = ''WAIT OPEN CONNECTION''"
| "state_name OPEN_CONNECTION_RECEIVED = ''OPEN CONNECTION RECEIVED''"
| "state_name CLOSE_CONNECTION_RECEIVED = ''CLOSE CONNECTION RECEIVED''"
| "state_name WAIT_OPEN_CHANNEL = ''WAIT OPEN CHANNEL''"
| "state_name OPEN_CHANNEL_RECEIVED = ''OPEN CHANNEL RECEIVED''"
| "state_name CLOSE_CHANNEL_RECEIVED = ''CLOSE CHANNEL RECEIVED''"
| "state_name WAIT_FUNCTIONAL = ''WAIT FUNCTIONAL''"
| "state_name QUEUE_DECLARE_RECEIVED = ''QUEUE DECLARE RECEIVED''"
| "state_name BASIC_PUBLISH_RECEIVED = ''BASIC PUBLISH RECEIVED''"
| "state_name WAIT_PUBLISH_CONTENT_HEADER = ''WAIT PUBLISH HEADER''"
| "state_name WAIT_PUBLISH_CONTENT = ''WAIT PUBLISH CONTENT''"
| "state_name BASIC_CONSUME_RECEIVED = ''BASIC CONSUME RECEIVED''"
| "state_name WAIT_VALUE_DEQUEUE = ''WAIT VALUE DEQUEUE''"
| "state_name VALUE_DEQUEUE_RECEIVED = ''VALUE DEQUEUE RECEIVED''"
| "state_name WAIT_CONSUME_ACK = ''WAIT CONSUME ACK''"
| "state_name FINISHED = ''''"
| "state_name FAIL = ''''"

text \<open>The line of \<^verbatim>\<open>read_message_header\<close>, when there is a header.\<close>

definition client_lines :: "machine_state \<Rightarrow> connection_state \<Rightarrow> string list" where
  "client_lines m cs =
     (if m \<in> set reading_states
      then (case read_message_header cs of Inr (Some header, _) \<Rightarrow> [log_message_header (CHR ''C'') header cs] | _ \<Rightarrow> [])
      else [])"

text \<open>The lines of \<^verbatim>\<open>send_method\<close>, \<^verbatim>\<open>send_content_header\<close> and \<^verbatim>\<open>send_body\<close>.\<close>

definition method_line :: "connection_state \<Rightarrow> 16 word \<Rightarrow> nat \<Rightarrow> string" where
  "method_line cs chan args_size =
     log_message_header (CHR ''S'') \<lparr>msg_type = METHOD, channel = chan, msg_length = of_nat (args_size + 4)\<rparr> cs"

definition content_header_line :: "connection_state \<Rightarrow> 16 word \<Rightarrow> 16 word \<Rightarrow> string" where
  "content_header_line cs chan flags =
     log_message_header (CHR ''S'') \<lparr>msg_type = CONTENT_HEADER, channel = chan,
       msg_length = of_nat (14 + nat (bit_cardinality_16 flags))\<rparr> cs"

definition body_line :: "connection_state \<Rightarrow> int \<Rightarrow> nat \<Rightarrow> string" where
  "body_line cs chan n =
     log_message_header (CHR ''S'') \<lparr>msg_type = BODY, channel = word_of_int chan, msg_length = of_nat n\<rparr> cs"

fun server_lines :: "machine_state \<Rightarrow> connection_state \<Rightarrow> string list result" where
  "server_lines HEADER_RECEIVED cs = Inr [method_line cs 0 CONNECTION_START_ARGS_SIZE]"
| "server_lines START_OK_RECEIVED cs = Inr [method_line cs 0 CONNECTION_TUNE_ARGS_SIZE]"
| "server_lines OPEN_CONNECTION_RECEIVED cs = Inr [method_line cs 0 CONNECTION_OPEN_OK_ARGS_SIZE]"
| "server_lines CLOSE_CONNECTION_RECEIVED cs = Inr [method_line cs 0 ARGS_EMPTY_SIZE]"
| "server_lines OPEN_CHANNEL_RECEIVED cs = Inr [method_line cs 1 CHANNEL_OPEN_OK_ARGS_SIZE]"
| "server_lines CLOSE_CHANNEL_RECEIVED cs = Inr [method_line cs 1 ARGS_EMPTY_SIZE]"
| "server_lines QUEUE_DECLARE_RECEIVED cs =
     bindE (fill_short_string (current_queue_name cs) zero_buf) (\<lambda>(name_size, _).
       Inr [method_line cs 1 (2 + name_size - 1 + 8)])"
| "server_lines BASIC_CONSUME_RECEIVED cs = Inr [method_line cs 1 BASIC_CONSUME_OK_ARGS_SIZE]"
| "server_lines VALUE_DEQUEUE_RECEIVED cs =
     bindE (cstring MAXLINE (recvline cs) 0) (\<lambda>bs.
       Inr [method_line cs 1 BASIC_DELIVER_ARGS_SIZE, content_header_line cs 1 0x1000, body_line cs 1 (length bs)])"
| "server_lines _ cs = Inr []"

text \<open>The lines about queues and messages, printed by the actions themselves.\<close>

definition queue_lines :: "machine_state \<Rightarrow> machine_state \<Rightarrow> connection_state \<Rightarrow> string list result" where
  "queue_lines m m' cs' =
     (if m = WAIT_FUNCTIONAL \<and> m' = QUEUE_DECLARE_RECEIVED
      then bindE (log_queue_creation (current_queue_name cs') cs') (\<lambda>l. Inr [l])
      else if m = WAIT_PUBLISH_CONTENT \<and> m' = WAIT_PUBLISH_CONTENT
      then bindE (log_enqueue cs' (parsed cs')) (\<lambda>l. Inr [l])
      else if m = WAIT_VALUE_DEQUEUE then bindE (log_dequeue cs' (recvline cs')) (\<lambda>l. Inr [l])
      else Inr [])"

definition end_lines :: "machine_state \<Rightarrow> connection_state \<Rightarrow> string list" where
  "end_lines m' cs' = (if m' = FAIL then [log_fail cs'] else if m' = FINISHED then [log_finished cs'] else [])"

definition turn_output :: "machine_state \<Rightarrow> connection_state \<Rightarrow> broker \<Rightarrow> string list result" where
  "turn_output m cs b =
     bindE (actions m cs b) (\<lambda>(m', cs', b').
     bindE (queue_lines m m' cs') (\<lambda>qs.
     bindE (server_lines m cs) (\<lambda>ss.
       Inr ([log_state (state_name m) cs] @ client_lines m cs @ qs @ ss @ end_lines m' cs'))))"

section \<open>The printed numbers can be read back\<close>

text \<open>The value of decimal and of hexadecimal digits.\<close>

definition of_digits :: "nat \<Rightarrow> (char \<Rightarrow> nat) \<Rightarrow> string \<Rightarrow> nat" where
  "of_digits base v = foldl (\<lambda>a c. base * a + v c) 0"

lemma of_digits_simps [simp]:
  "of_digits base v '''' = 0" "of_digits base v (ds @ [c]) = base * of_digits base v ds + v c"
  by (simp_all add: of_digits_def)

definition digit_value :: "char \<Rightarrow> nat" where
  "digit_value c = (if of_char c < (58 :: nat) then of_char c - 48 else of_char c - 87)"

lemma decimal_value: "of_digits 10 digit_value (decimal n) = n"
proof (induction n rule: decimal.induct)
  case (1 n)
  have d: "digit_value (char_of (48 + d)) = d" if "d < 10" for d
    using that by (simp add: digit_value_def)
  show ?case
  proof (cases "n < 10")
    case True
    with d [of n] of_digits_simps(2) [of 10 digit_value "[]"] show ?thesis by (simp add: decimal.simps)
  next
    case False
    with 1 d [of "n mod 10"] show ?thesis by (subst decimal.simps) simp
  qed
qed

lemma decimal_inj: "decimal m = decimal n \<Longrightarrow> m = n"
  by (metis decimal_value)

lemma decimal_chars: "c \<in> set (decimal n) \<Longrightarrow> 48 \<le> (of_char c :: nat)"
proof (induction n rule: decimal.induct)
  case (1 n)
  show ?case
  proof (cases "n < 10")
    case True
    with 1 show ?thesis by (auto simp: decimal.simps [of n])
  next
    case False
    with 1 show ?thesis by (auto simp: decimal.simps [of n])
  qed
qed

lemma hex_digit_value: "d < 16 \<Longrightarrow> digit_value (hex_digit d) = d"
  by (simp add: digit_value_def hex_digit_def)

lemma hex_value: "n < 16 ^ k \<Longrightarrow> of_digits 16 digit_value (hex k n) = n"
proof (induction k arbitrary: n)
  case (Suc k)
  then have "n div 16 < 16 ^ k" by (simp add: less_mult_imp_div_less mult.commute)
  with Suc.IH hex_digit_value [of "n mod 16"] show ?case by simp
qed simp

lemma length_hex [simp]: "length (hex k n) = k"
  by (induction k arbitrary: n) auto

lemma hex_inj: "hex k m = hex k n \<Longrightarrow> m < 16 ^ k \<Longrightarrow> n < 16 ^ k \<Longrightarrow> m = n"
  by (metis hex_value)

lemma decimal_unsigned: "decimal k \<noteq> CHR ''-'' # ds"
  using decimal_chars [of "CHR ''-''" k] by auto

lemma signed_decimal_inj: "signed_decimal m = signed_decimal n \<Longrightarrow> m = n"
  using decimal_inj [of "nat (- m)" "nat (- n)"] decimal_inj [of "nat m" "nat n"]
    decimal_unsigned [of "nat m" "decimal (nat (- n))"] decimal_unsigned [of "nat n" "decimal (nat (- m))"]
  by (simp add: signed_decimal_def split: if_splits)

lemma tab_signed_decimal: "tab \<notin> set (signed_decimal n)"
proof -
  have "tab \<notin> set (decimal k)" for k using decimal_chars [of tab k] by (auto simp: tab_def)
  moreover have "of_char (CHR ''-'') \<noteq> (of_char tab :: nat)" by (simp add: tab_def)
  then have "CHR ''-'' \<noteq> tab" by metis
  ultimately show ?thesis by (simp add: signed_decimal_def)
qed

text \<open>A line tells its thread; a header line, the header and who sent it.\<close>

lemma split_at_first:
  "x \<notin> set as \<Longrightarrow> x \<notin> set bs \<Longrightarrow> as @ x # r = bs @ x # s \<longleftrightarrow> as = bs \<and> r = s"
proof (induction as arbitrary: bs)
  case Nil
  then show ?case by (cases bs) auto
next
  case (Cons a as)
  then show ?case by (cases bs) auto
qed

lemma thread_prefix_inj: "thread_prefix t @ r = thread_prefix u @ s \<longleftrightarrow> t = u \<and> r = s"
proof -
  have "thread_prefix t @ r = thread_prefix u @ s \<longleftrightarrow> signed_decimal t @ tab # r = signed_decimal u @ tab # s"
    by (simp add: thread_prefix_def)
  also have "\<dots> \<longleftrightarrow> signed_decimal t = signed_decimal u \<and> r = s"
    by (rule split_at_first [OF tab_signed_decimal tab_signed_decimal])
  also have "signed_decimal t = signed_decimal u \<longleftrightarrow> t = u" using signed_decimal_inj by blast
  finally show ?thesis .
qed

lemma hex_word_inj:
  "hex 2 (unat (v2 :: byte)) = hex 2 (unat w2) \<longleftrightarrow> v2 = w2"
  "hex 4 (unat (v4 :: 16 word)) = hex 4 (unat w4) \<longleftrightarrow> v4 = w4"
  "hex 8 (unat (v8 :: 32 word)) = hex 8 (unat w8) \<longleftrightarrow> v8 = w8"
proof -
  have b: "unat (v2 :: byte) < 16 ^ 2" "unat (v4 :: 16 word) < 16 ^ 4" "unat (v8 :: 32 word) < 16 ^ 8" for v2 v4 v8
    using unsigned_less [of v2] unsigned_less [of v4] unsigned_less [of v8] by simp_all
  show "hex 2 (unat v2) = hex 2 (unat w2) \<longleftrightarrow> v2 = w2"
    using hex_inj [OF _ b(1) b(1), of v2 w2] by (auto simp: unsigned_word_eqI)
  show "hex 4 (unat v4) = hex 4 (unat w4) \<longleftrightarrow> v4 = w4"
    using hex_inj [OF _ b(2) b(2), of v4 w4] by (auto simp: unsigned_word_eqI)
  show "hex 8 (unat v8) = hex 8 (unat w8) \<longleftrightarrow> v8 = w8"
    using hex_inj [OF _ b(3) b(3), of v8 w8] by (auto simp: unsigned_word_eqI)
qed

lemma log_message_header_inj:
  "log_message_header s h cs = log_message_header s' h' cs' \<longleftrightarrow> s = s' \<and> h = h' \<and> tid cs = tid cs'"
  by (cases h, cases h') (auto simp: log_message_header_def thread_prefix_inj hex_word_inj)

section \<open>What is printed of frames sent\<close>

definition frame_line :: "connection_state \<Rightarrow> byte list \<Rightarrow> string" where
  "frame_line cs fr = log_message_header (CHR ''S'') (message_header_of (take 7 fr)) cs"

lemma frame_line: "frame_line cs (frame t ch payload) =
    log_message_header (CHR ''S'') \<lparr>msg_type = t, channel = ch, msg_length = of_nat (length payload)\<rparr> cs"
proof -
  let ?h = "\<lparr>msg_type = t, channel = ch, msg_length = of_nat (length payload)\<rparr> :: amqp_message_header"
  have "take 7 (frame t ch payload) = unparse_message_header ?h"
    by (simp add: frame_def unparse_message_header_be)
  then show ?thesis by (simp add: frame_line_def message_codec.dec_enc)
qed

text \<open>The frames that an action sends, and their lines.\<close>

definition sends :: "connection_state \<Rightarrow> string list \<Rightarrow> connection_state \<Rightarrow> connection_state \<Rightarrow> bool" where
  "sends log_cs ls cs cs' \<longleftrightarrow> (\<exists>out. tx cs' = tx cs @ out \<and> ls = map (frame_line log_cs) out)"

lemma sends_trans: "sends k ls a b \<Longrightarrow> sends k ls' b c \<Longrightarrow> sends k (ls @ ls') a c"
  by (fastforce simp: sends_def)

lemma sends_nothing: "tx cs' = tx cs \<Longrightarrow> sends k [] cs cs'"
  by (simp add: sends_def)

lemma send_method_line:
  assumes "send_method cs c m ch args n = Inr cs'"
  shows "sends k [method_line k ch n] cs cs'"
proof -
  have n: "n \<le> length args" "n + 12 \<le> MAXLINE" using assms by (auto simp: send_method_def Let_def bindE_eq_Inr)
  from send_method_frame [OF n, of cs c m ch] assms n(1) show ?thesis
    by (auto simp: sends_def frame_line method_line_def add.commute)
qed

lemma send_content_header_line:
  assumes "send_content_header cs c ch w bsz fl props = Inr cs'"
  shows "sends k [content_header_line k ch fl] cs cs'"
proof -
  have n: "nat (bit_cardinality_16 fl) \<le> length props"
    using assms by (auto simp: send_content_header_def Let_def bindE_eq_Inr)
  from send_content_header_frame [OF n, of cs c ch w bsz] assms n show ?thesis
    by (auto simp: sends_def frame_line content_header_line_def min_absorb2)
qed

lemma send_body_line:
  assumes "send_body cs ch payload n = Inr cs'"
  shows "sends k [body_line k ch n] cs cs'"
proof -
  have n: "n \<le> length payload" "n + 8 \<le> MAXLINE" using assms by (auto simp: send_body_def Let_def bindE_eq_Inr)
  from send_body_frame [OF n, of cs ch] assms n(1) show ?thesis
    by (auto simp: sends_def frame_line body_line_def min_absorb2)
qed

lemma send_queue_declare_ok_line:
  assumes "send_queue_declare_ok cs ch nb mc cc = Inr cs'"
  shows "\<exists>n a. fill_short_string nb zero_buf = Inr (n, a) \<and> sends k [method_line k ch (2 + n - 1 + 8)] cs cs'"
  using assms by (auto simp: send_queue_declare_ok_def Let_def bindE_eq_Inr intro: send_method_line)

lemma action_server_lines:
  assumes "actions m cs b = Inr (m', cs', b')"
  shows "\<exists>ls. server_lines m cs = Inr ls \<and> sends cs ls cs cs'"
proof (cases "m \<in> set reading_states \<or> m = WAIT \<or> m = WAIT_VALUE_DEQUEUE \<or> m = BASIC_PUBLISH_RECEIVED \<or> m = FINISHED \<or> m = FAIL")
  case True
  then have "tx cs' = tx cs" using assms reads_tx unfolding reading_states_def
    by (auto simp: action_wait_value_dequeue_def action_basic_publish_received_def action_noop_def bindE_eq_Inr)
  with True show ?thesis by (auto simp: reading_states_def intro: sends_nothing)
next
  case False
  show ?thesis
  proof (cases "m = VALUE_DEQUEUE_RECEIVED")
    case True
    with assms obtain bs c1 c2 where "cstring MAXLINE (recvline cs) 0 = Inr bs"
      "send_method cs BASIC BASIC_DELIVER 1 (BASIC_DELIVER_ARGS @ [0]) BASIC_DELIVER_ARGS_SIZE = Inr c1"
      "send_content_header c1 BASIC 1 0 (of_nat (length bs)) 0x1000 (CONTENT_HEADER_PROPERTIES @ [0]) = Inr c2"
      "send_body c2 1 bs (length bs) = Inr cs'"
      by (auto simp: action_value_dequeue_received_def Let_def bindE_eq_Inr)
    with True send_method_line send_content_header_line send_body_line show ?thesis
      by (auto intro!: sends_trans [of cs "[_]" cs _ "[_, _]", simplified] sends_trans [of cs "[_]" _ _ "[_]", simplified])
  next
    case False
    with \<open>\<not> (m \<in> set reading_states \<or> _)\<close> assms show ?thesis
      by (cases m) (auto simp: reading_states_def sending_actions bindE_eq_Inr Let_def
          dest!: send_queue_declare_ok_line [where k = cs] intro: send_method_line)
  qed
qed

section \<open>Nothing goes wrong in a log line\<close>

lemma published_text:
  "actions WAIT_PUBLISH_CONTENT cs b = Inr (WAIT_PUBLISH_CONTENT, cs', b') \<Longrightarrow>
   \<exists>bs. cstring MAXLINE (parsed cs') 0 = Inr bs"
  by (drule action_effect) (auto elim: effect.cases)

lemma dequeued_text:
  assumes inv: "world_inv w M" and th: "threads w t = Some (WAIT_VALUE_DEQUEUE, cs)"
    and a: "actions WAIT_VALUE_DEQUEUE cs (shared w) = Inr (m', cs', b')"
  shows "\<exists>bs. cstring MAXLINE (recvline cs') 0 = Inr bs"
proof -
  let ?b = "shared w"
  from inv th have abs: "broker_abs ?b M" and ok: "thread_ok w t WAIT_VALUE_DEQUEUE cs"
    and rings: "\<And>nm ms xs c t. M nm = Some (ms, xs, c) \<Longrightarrow> t \<in> set xs \<longleftrightarrow> consumes w t nm"
    unfolding world_inv_def by blast+
  from ok obtain nm where nm: "names ?b (current_queue cs) nm" by (auto simp: thread_ok_def)
  from names_queue_at [OF abs nm] obtain i where
    i: "trie_lookup (pool ?b) nm = Some i" "queue_at ?b (current_queue cs) = Inr (i, queues ?b ! i)" by blast
  from abs_named [OF abs nm] obtain ms xs c where M: "M nm = Some (ms, xs, c)" by blast
  have "t \<in> set xs" using rings [OF M, of t] th nm by (auto simp: consumes_def)
  then have "xs \<noteq> []" by auto
  from abs_dequeue_turn [OF abs i(1) M this, of "recvline cs"] obtain ret s line q' h' where
    d: "q_dequeue_turn MAXLINE (queues ?b ! i) (heap ?b) (recvline cs) = Inr (ret, s, line, q', h')"
      "if ret then ms \<noteq> [] \<and> cstring MAXLINE line 0 = Inr (hd ms) else ms = []" by blast
  have "queue_size (queues ?b ! i) \<noteq> 0" using dequeue_blocks_iff [OF inv th] a i(2) by auto
  then have "ms \<noteq> []" using abs_q_size [OF abs i(1) M] by (auto simp: q_size_def)
  with d(2) have "cstring MAXLINE line 0 = Inr (hd ms)" by (auto split: if_splits)
  moreover have "recvline cs' = line"
    using a i(2) d(1) by (auto simp: action_wait_value_dequeue_def q_dequeue_rr_def bindE_eq_Inr)
  ultimately show ?thesis by simp
qed

section \<open>Properties\<close>

text \<open>C18. What the log tells is true, and telling it is safe: in any reachable world, an action that
  ends prints its lines without undefined behaviour, in this order: the state; the header of the
  frame that was read, if one was; the line about a queue or a message; one line for each frame
  written to the socket, with its header; how the connection ended.\<close>

theorem log_tells_the_truth:
  assumes "history raw ro evs w" "threads w t = Some (m, cs)" "actions m cs (shared w) = Inr (m', cs', b')"
    and "m \<noteq> FINISHED" "m \<noteq> FAIL"
  shows "\<exists>out qs. tx cs' = tx cs @ out \<and> queue_lines m m' cs' = Inr qs \<and>
    turn_output m cs (shared w) = Inr ([log_state (state_name m) cs] @ client_lines m cs @ qs @
      map (\<lambda>fr. log_message_header (CHR ''S'') (message_header_of (take 7 fr)) cs) out @ end_lines m' cs')"
proof -
  from history_inv [OF assms(1)] obtain M where inv: "world_inv w M" by blast
  from action_server_lines [OF assms(3)] obtain ls out where
    s: "server_lines m cs = Inr ls" "tx cs' = tx cs @ out" "ls = map (frame_line cs) out" by (auto simp: sends_def)
  from inv have "pool_ok (shared w)" by (auto simp: world_inv_def dest: abs_pool_ok)
  with action_well_typed [OF assms(3-5) history_well_typed [OF assms(1,2)]]
  obtain nm where named: "cstring MAX_QUEUE_NAME (current_queue_name cs') 0 = Inr nm" by (auto simp: well_typed_def)
  have "\<exists>qs. queue_lines m m' cs' = Inr qs"
  proof (cases "m = WAIT_PUBLISH_CONTENT \<and> m' = WAIT_PUBLISH_CONTENT \<or> m = WAIT_VALUE_DEQUEUE")
    case True
    with published_text [of cs "shared w" cs' b'] dequeued_text [OF inv, of t cs m' cs' b'] assms(2,3) named
    show ?thesis by (auto simp: queue_lines_def log_enqueue_def log_dequeue_def)
  next
    case False
    with named show ?thesis by (auto simp: queue_lines_def log_queue_creation_def)
  qed
  then obtain qs where "queue_lines m m' cs' = Inr qs" by blast
  with s assms(3) show ?thesis
    by (auto simp: turn_output_def frame_line_def [abs_def] simp del: actions.simps)
qed

text \<open>A connection that declares the queue \<^verbatim>\<open>q\<close>, at its turn in \<open>WAIT_FUNCTIONAL\<close>.\<close>

theorem log_tells_the_truth_witness:
  "\<exists>evs b cs qs cs'. history two_subscribers [0, 0, 0] evs \<lparr>shared = b, threads = [3 \<mapsto> (WAIT_FUNCTIONAL, cs)]\<rparr> \<and>
     log_queue_creation (current_queue_name cs') cs' = Inr (''THREAD 3'' @ [tab] @ ''DECLARE q'' @ [newline]) \<and>
     turn_output WAIT_FUNCTIONAL cs b = Inr ([log_state ''WAIT FUNCTIONAL'' cs] @ client_lines WAIT_FUNCTIONAL cs @
       [''THREAD 3'' @ [tab] @ ''DECLARE q'' @ [newline]])"
proof -
  let ?nm = "[0x71] :: byte list" and ?b = "init_broker two_subscribers [0, 0, 0]"
  let ?decl = "method_frame 1 QUEUE QUEUE_DECLARE (name_args 0 ?nm [])"
  let ?cs = "init_connection 5 3 (one_by_one (opening_frames [[], [], [], []] @ ?decl))"
  have args: "\<forall>i < 4. length ([[], [], [], []] ! i :: byte list) \<le> MAXLINE - 7"
    by (auto simp: less_Suc_eq numeral_eq_Suc)
  have len: "length (name_args 0 ?nm []) \<le> MAXLINE - 7" "length ?nm < 256" by (simp_all add: name_args_def MAXLINE_def)
  have "rx_bytes (rx ?cs) = opening_frames [[], [], [], []] @ ?decl" by simp
  from opening_reaches [OF this args, of ?b] obtain c1 where
    1: "reaches WAIT ?cs ?b opening_output ?decl WAIT_FUNCTIONAL c1 ?b" by blast
  have rx: "rx_bytes (rx c1) = ?decl @ []" using reaches_rest [OF 1] by simp
  from declare_step [OF init_broker_abs [of two_subscribers "[0, 0, 0]"] len(2) rx len(1)] obtain c2 b2 where
    2: "actions WAIT_FUNCTIONAL c1 ?b = Inr (QUEUE_DECLARE_RECEIVED, c2, b2)" "becomes c1 [] [] c2" "current_name c2 b2 ?nm"
    by (auto simp del: actions.simps)
  from accepted_history [of 3 5 _ two_subscribers "[0, 0, 0]" WAIT_FUNCTIONAL c1 ?b] 1 obtain evs where
    h: "history two_subscribers [0, 0, 0] evs \<lparr>shared = ?b, threads = [3 \<mapsto> (WAIT_FUNCTIONAL, c1)]\<rparr>"
    by (auto simp: reaches_def MAX_CONNECTIONS_def)
  have tid: "tid c2 = 3" using reaches_output [OF 1] 2(2) by (simp add: becomes_def)
  have ch: "char_of (51 :: nat) = CHR ''3''" "char_of (113 :: nat) = CHR ''q''" by code_simp+
  from tid have l: "log_queue_creation (current_queue_name c2) c2 = Inr (''THREAD 3'' @ [tab] @ ''DECLARE q'' @ [newline])"
    using 2(3) by (simp add: log_queue_creation_def current_name_def thread_prefix_def signed_decimal_def decimal.simps text_of_def ch)
  from log_tells_the_truth [OF h, of 3 WAIT_FUNCTIONAL c1 QUEUE_DECLARE_RECEIVED c2 b2] 2 l
  have "turn_output WAIT_FUNCTIONAL c1 ?b = Inr ([log_state ''WAIT FUNCTIONAL'' c1] @ client_lines WAIT_FUNCTIONAL c1 @
       [''THREAD 3'' @ [tab] @ ''DECLARE q'' @ [newline]])"
    by (auto simp: queue_lines_def end_lines_def becomes_def simp del: actions.simps)
  with h l show ?thesis by blast
qed

text \<open>The bytes that print as a text.\<close>

definition bytes_of :: "string \<Rightarrow> byte list" where
  "bytes_of = map (\<lambda>c. of_nat (of_char c))"

lemma text_of_bytes_of: "text_of (bytes_of x) = x"
proof -
  have "unat (of_nat (of_char c) :: byte) = (of_char c :: nat)" for c
    by (simp add: unsigned_of_nat take_bit_eq_mod)
  then show ?thesis by (simp add: text_of_def bytes_of_def comp_def)
qed

text \<open>C39. The log can be forged: the text of a message goes into the log as it is, so whoever
  may publish can make the log show any text they like at the start of a line, as the line
  with which another connection ends.\<close>

theorem log_can_be_forged:
  assumes "broker_abs b M" "names b (current_queue cs) nm" "M nm = Some (ms, xs, c)" "int (length ms) < INT_MAX"
    and "cstring MAX_QUEUE_NAME (current_queue_name cs) 0 = Inr nm"
    and "rx_bytes (rx cs) = frame BODY ch (10 # bytes_of x) @ rest" "nul_free (bytes_of x)" "length x < MAXLINE - 1"
  shows "\<exists>ls before after. turn_output WAIT_PUBLISH_CONTENT cs b = Inr ls \<and> concat ls = before @ [newline] @ x @ after"
proof -
  let ?payload = "10 # bytes_of x"
  have "until_nul ?payload = ?payload" using assms(7) by (intro until_nul_nul_free) (simp add: nul_free_def)
  moreover have "length ?payload < MAXLINE" using assms(8) by (simp add: bytes_of_def)
  ultimately obtain cs' b' where
    a: "actions WAIT_PUBLISH_CONTENT cs b = Inr (WAIT_PUBLISH_CONTENT, cs', b')"
    and p: "cstring MAXLINE (parsed cs') 0 = Inr ?payload" "current_queue_name cs' = current_queue_name cs"
    using body_step [OF assms(1-4,6)] by auto
  have "text_of ?payload = newline # x"
    using text_of_bytes_of [of x] by (simp add: text_of_def newline_def)
  then have "log_enqueue cs' (parsed cs') = Inr ((thread_prefix (tid cs') @ ''ENQ'' @ [tab] @ ''QUEUE '' @ text_of nm @ [tab] @
      ''BODY '') @ [newline] @ x @ [tab, newline])"
    using p assms(5) by (simp add: log_enqueue_def)
  with a have "turn_output WAIT_PUBLISH_CONTENT cs b = Inr ([log_state (state_name WAIT_PUBLISH_CONTENT) cs] @
      client_lines WAIT_PUBLISH_CONTENT cs @ [(thread_prefix (tid cs') @ ''ENQ'' @ [tab] @ ''QUEUE '' @ text_of nm @ [tab] @
      ''BODY '') @ [newline] @ x @ [tab, newline]])"
    by (simp add: turn_output_def queue_lines_def end_lines_def del: actions.simps)
  moreover have "concat ([k] @ ks @ [p @ [n] @ x @ s]) = (k @ concat ks @ p) @ [n] @ x @ s" for k ks p n s by simp
  ultimately show ?thesis by blast
qed

text \<open>Thread 3 makes the log tell that thread 2 has finished.\<close>

theorem log_can_be_forged_witness:
  "\<exists>cs b ls before after. tid cs = 3 \<and> turn_output WAIT_PUBLISH_CONTENT cs b = Inr ls \<and>
     concat ls = before @ [newline] @ log_finished (init_connection 4 2 []) @ after"
proof -
  let ?x = "log_finished (init_connection 4 2 [])" and ?M = "[[0x71] \<mapsto> ([], [2], 2)] :: spec"
  obtain b and c :: connection_state where b: "broker_abs b ?M" "names b (current_queue c) [0x71]"
    using sample_world by blast
  let ?cs = "init_connection 5 3 (one_by_one (frame BODY 1 (10 # bytes_of ?x)))
    \<lparr>current_queue := current_queue c, current_queue_name := mem_write zero_buf 0 [0x71, 0]\<rparr>"
  have nm: "cstring MAX_QUEUE_NAME (current_queue_name ?cs) 0 = Inr [0x71]"
    using cstring_write [of "[0x71]" 0 MAX_QUEUE_NAME zero_buf "[]"] by (simp add: nul_free_def MAX_QUEUE_NAME_def)
  have x: "nul_free (bytes_of ?x)" "length ?x < MAXLINE - 1"
    by (simp_all add: log_finished_def thread_prefix_def signed_decimal_def decimal.simps tab_def newline_def
        bytes_of_def nul_free_def MAXLINE_def)
  from log_can_be_forged [OF b(1) _ _ _ nm _ x, of "[]" "[2]" 2 1 "[]"] b(2)
  have "\<exists>ls before after. turn_output WAIT_PUBLISH_CONTENT ?cs b = Inr ls \<and> concat ls = before @ [newline] @ ?x @ after"
    by (simp add: INT_MAX_def)
  moreover have "tid ?cs = 3" by simp
  ultimately show ?thesis by blast
qed

end
