(* ===== verification/Spec2Isabelle.thy ===== *)
theory Spec2Isabelle
  imports Faults Safety Freeing Accepting Waiting Log
begin

text \<open>
  A model of an AMQP 0-9-1 broker written in C, and the theorems that make it correct. The
  program accepts TCP connections, runs one thread per connection, and keeps named queues
  that all connections share. A client opens a connection and a channel, declares queues,
  publishes messages or subscribes; the messages of a queue go to its subscribers in turn.

  \<^bold>\<open>The program and its theories.\<close>
  \<^item> \<^verbatim>\<open>Prelude\<close>: \<^verbatim>\<open>src/config.h\<close>, the outcomes of C code (\<open>result\<close>: a value, undefined
    behaviour of a kind, or a thread that blocks), byte buffers, C strings, the memory layout
    of machine words, \<^verbatim>\<open>htons\<close> and its relatives on a little-endian machine.
  \<^item> \<^verbatim>\<open>Util\<close>: \<^verbatim>\<open>src/util.c\<close>. \<open>bit_cardinality_16\<close>, \<open>swipe_endianness_64\<close>, \<open>read_until\<close>.
  \<^item> \<^verbatim>\<open>Hardcoded_Values\<close>: \<^verbatim>\<open>src/hardcoded_values.c\<close>, the arguments of the fixed replies.
  \<^item> \<^verbatim>\<open>Round_Robin\<close>: \<^verbatim>\<open>src/round_robin.c\<close>, the ring of the subscribers of a queue.
  \<^item> \<^verbatim>\<open>Queue\<close>: \<^verbatim>\<open>src/queue.c\<close>, linked message nodes in a heap and the operations of a queue.
  \<^item> \<^verbatim>\<open>Queue_Pool\<close>: \<^verbatim>\<open>src/queue_pool.c\<close>, the trie of named queues; \<open>broker\<close> is the memory all
    connections share.
  \<^item> \<^verbatim>\<open>Connection_State\<close>: \<^verbatim>\<open>src/connection_state.h\<close>, what one connection keeps.
  \<^item> \<^verbatim>\<open>Amqp_Message\<close>: \<^verbatim>\<open>src/amqp_message.c\<close>, readers and writers of frames.
  \<^item> \<^verbatim>\<open>State_Machine\<close>: \<^verbatim>\<open>src/state_machine.c\<close>. An action takes the connection and the broker
    and returns the next state with both; \<open>actions\<close> is the table of actions, \<open>run_machine\<close>
    the main loop and \<open>machine_step\<close> one turn of it.
  \<^item> \<^verbatim>\<open>Broker_Spec\<close>: what the broker promises, with no code: a map from names to a list of
    messages, a ring of subscribers and whose turn it is. \<open>spec_step\<close> is labelled with the
    messages published and handed over. The operations on queues implement it.
  \<^item> \<^verbatim>\<open>Session\<close>: what a client that sends given frames gets back, state by state.
  \<^item> \<^verbatim>\<open>Protocol\<close>: what holds of a connection on any input: where its actions lead, compared with the
    diagrams of the README, the frames it sends, how long it runs.
  \<^item> \<^verbatim>\<open>Faults\<close>: where the code departs from the protocol, as runs from a client's input to
    undefined behaviour or to a wrong reply.
  \<^item> \<^verbatim>\<open>World\<close>: all connections at once, interleaved action by action; \<open>history\<close> gives the
    worlds that can be reached with the events on the way.
  \<^item> \<^verbatim>\<open>Safety\<close>: what holds of all connections together.
  \<^item> \<^verbatim>\<open>Typing\<close>: the record of a connection is well formed in every reachable world.
  \<^item> \<^verbatim>\<open>Memory\<close>: the message nodes in the heap are those of the queues.
  \<^item> \<^verbatim>\<open>Server\<close>: \<^verbatim>\<open>src/ep1.c\<close>: the start of the process and its exit codes, the table of
    connection slots and the search for a free one, the main thread and the connection
    threads (\<open>server_step\<close>), and that a server is such a world.
  \<^item> \<^verbatim>\<open>Accepting\<close>: the loop of \<^verbatim>\<open>main\<close> with the search for a slot look by look, the mutex held
    (\<open>loop_step\<close>); it implements \<open>Server\<close>, and can hang or leave the table.
  \<^item> \<^verbatim>\<open>Waiting\<close>: the waits of \<^verbatim>\<open>q_dequeue_rr\<close> at a finer grain, one queue with its consumers:
    the look at the condition, falling asleep, being woken by a signal (\<open>signalled_step\<close>) and
    waking without one (\<open>spurious_step\<close>) are separate steps.
  \<^item> \<^verbatim>\<open>Pool_Steps\<close>: \<^verbatim>\<open>src/queue_pool.c\<close> again at the grain of its pointers: trie nodes in a heap,
    \<open>walk\<close> for \<^verbatim>\<open>_get_trie_node\<close>, and threads that take the steps of \<^verbatim>\<open>create_queue\<close> and
    \<^verbatim>\<open>get_queue\<close> in any order (\<open>pool_step\<close>).
  \<^item> \<^verbatim>\<open>Freeing\<close>: \<^verbatim>\<open>free_queue\<close>, \<^verbatim>\<open>_free_trie_node\<close> and \<^verbatim>\<open>free_pool\<close> on all that is allocated:
    trie nodes, queues and message nodes, each of which has to be there when it is read or freed.
  \<^item> \<^verbatim>\<open>Log\<close>: \<^verbatim>\<open>src/log.c\<close>, the lines printed, and what a turn of the main loop prints.
  \<^item> this theory: whole sessions of publishers and consumers.

  \<^bold>\<open>How state corresponds.\<close> A struct is a record with the fields of the struct; locks and
  condition variables have no field, because a section under a lock is one step of the model;
  where it is more than one, the \<open>phase\<close> of \<open>Accepting\<close> and the \<open>holder\<close> of \<open>Pool_Steps\<close> say who has it.
  A pointer to a message node is an address of \<open>node_heap\<close>, a pointer to a queue its index in
  the list of the queues allocated, a null pointer \<open>None\<close>. A buffer is a function from
  offsets to bytes, with every access checked against its declared size. The socket of a
  connection is what is still to be read from it (\<open>rx\<close>: segments and failed reads, in any
  split) and the list of the writes made (\<open>tx\<close>). Memory that the code leaves uninitialised is
  an arbitrary parameter (\<open>raw_rr\<close>) or the zero buffer of a fresh connection. So are the three bytes
  behind the arguments of consume-ok (\<open>rodata\<close>): strictly their read is outside the object and
  undefined; it is given the bytes that follow in the program's image, since every consumer passes through it
  and nothing could be said of any consumer otherwise.

  \<^bold>\<open>What the lemmas show.\<close> Every component has its functional lemmas on every branch and an
  invariant kept by its operations: \<open>rr_ring\<close>, \<open>queue_rep\<close>, \<open>pool_ok\<close>, \<open>broker_rep\<close>,
  \<open>world_inv\<close>, \<open>well_typed\<close>, \<open>heap_exact\<close>, \<open>server_inv\<close>, \<open>phase_ok\<close>, \<open>wait_inv\<close>, \<open>paths_ok\<close> and
  \<open>polite_inv\<close>. Interfaces are locales (\<open>turn_taking\<close>, \<open>fifo\<close>, \<open>name_table\<close>, \<open>fixed_codec\<close>)
  interpreted on the code's definitions. The numbered properties are the claims about the
  program. The most important ones, in order: messages are delivered exactly once and in order
  in every interleaving of actions; the threads together refine the abstract broker; what
  publishers and consumers get; that the server of \<^verbatim>\<open>ep1.c\<close> is such a system, and how it stops;
  what is kept in memory, who subscribes, what can go wrong and whose turn it is; what waiting
  guarantees and how a signal is lost; what the log says; where the actions of connections lead, that
  they end, and send whole frames; then each
  component, and the faults.

  \<^bold>\<open>Loops and bounds.\<close> The main loop and \<open>read_until\<close> are total functions: each action that
  reads uses input up and at most four actions follow without reading, so no fuel is needed.
  \<open>free_nodes\<close> and \<open>free_trie_node_from\<close> follow pointers and are partial functions that are shown
  to end on the memory of every reachable state; \<open>search\<close>, for a free slot, is one that is shown not to end in one case, which the
  steps of \<open>Accepting\<close> then never leave. A queue's
  size is kept below the maximum of a C int by hypothesis where it matters.

  \<^bold>\<open>Grain.\<close> In \<open>World\<close> an action is one step. It does at most one operation on a queue or the pool;
  those are sections under one lock, except that \<^verbatim>\<open>q_dequeue\<close> and \<^verbatim>\<open>next_thread\<close>, which take two
  locks one after the other, are one step there (\<open>q_dequeue_turn\<close>); \<open>Waiting\<close> has them as two (\<open>take_msg\<close>,
  \<open>pass_turn\<close>) with everything else in between. A wait that returns early is the step \<open>wake\<close> of \<open>World\<close>,
  which allows a wake-up at any time. In \<open>Waiting\<close> a thread that sleeps wakes by a signal or, as
  \<^verbatim>\<open>pthread_cond_wait\<close> is allowed to, without one, and what is shown there says for which of the two. \<^verbatim>\<open>get_queue\<close> takes
  no lock; that a call of it is one step in \<open>World\<close> is right as long as only declared names are
  looked up, where \<open>Pool_Steps\<close> shows that no interleaving changes an answer; a look-up of an
  undeclared name that races with its declaration can lose the queue, which \<open>Pool_Steps\<close> shows
  and \<open>World\<close> does not have.

  \<^bold>\<open>Not modelled.\<close> The calls that set up the listening socket, beyond their results; the memory
  model of unlocked reads, which the steps take as atomic (\<^verbatim>\<open>wait_msg\<close> and \<^verbatim>\<open>wait_round\<close> look
  without the lock, and \<^verbatim>\<open>get_queue\<close> reads and writes pointers without the one
  \<^verbatim>\<open>create_queue\<close> takes); failing \<^verbatim>\<open>malloc\<close>, \<^verbatim>\<open>pthread_create\<close> and \<^verbatim>\<open>write\<close>, and the signal that
  ends the process when a peer closed its end before a \<^verbatim>\<open>write\<close>; the part of its lines that an
  action printed before undefined behaviour stopped it.
\<close>

section \<open>Sessions\<close>

text \<open>The bytes a client sends to publish, and to consume.\<close>

definition publisher_input :: "byte list \<Rightarrow> publication list \<Rightarrow> byte list" where
  "publisher_input nm pbs = opening_frames [[], [], [], []] @ method_frame 1 QUEUE QUEUE_DECLARE (name_args 0 nm []) @
     concat (map publication_frames pbs) @ method_frame 1 CHANNEL CHANNEL_CLOSE [] @ method_frame 0 CONNECTION CONNECTION_CLOSE []"

definition consumer_input :: "byte list \<Rightarrow> nat \<Rightarrow> byte list" where
  "consumer_input nm n = opening_frames [[], [], [], []] @ method_frame 1 BASIC BASIC_CONSUME (name_args 0 nm []) @
     concat (map (method_frame 1 BASIC BASIC_ACK) (replicate n []))"

text \<open>C3. A session that declares a queue, publishes messages and closes: it ends in
  \<open>FINISHED\<close>, the client gets exactly the replies of the protocol in order, and the queues
  are as the specification says after the declaration and the publications.\<close>

theorem publisher_session:
  assumes "broker_abs b M"
    and "rx_bytes input = opening_frames args @ method_frame 1 QUEUE QUEUE_DECLARE (name_args t nm tail) @
      concat (map publication_frames pbs) @ method_frame 1 CHANNEL CHANNEL_CLOSE a1 @
      method_frame 0 CONNECTION CONNECTION_CLOSE a2 @ rest"
    and "\<forall>i < 4. length (args ! i) \<le> MAXLINE - 7" "length nm < 256" "length (name_args t nm tail) \<le> MAXLINE - 7"
    and "pbs \<noteq> []" "length a1 \<le> MAXLINE - 7" "length a2 \<le> MAXLINE - 7"
    and "\<forall>pb \<in> set pbs. publication_fits pb \<and> spec_declare (until_nul nm) M (until_nul (pub_queue pb)) \<noteq> None"
    and "room (length pbs) (spec_declare (until_nul nm) M)"
    and "spec_declare (until_nul nm) M (until_nul nm) = Some (ms, r)"
  shows "\<exists>cs' b'. state_machine_main fd thread input b = Inr (FINISHED, cs', b') \<and>
    tx cs' = opening_output @ [declare_ok_frame (until_nul nm) (length ms), channel_close_ok_frame, connection_close_ok_frame] \<and>
    broker_abs b' (fold spec_publication pbs (spec_declare (until_nul nm) M)) \<and> rodata b' = rodata b"
proof -
  let ?cs = "init_connection fd thread input"
  have "rx_bytes (rx ?cs) = rx_bytes input" by simp
  from opening_reaches [OF this [unfolded assms(2)] assms(3), of b] obtain c1 where
    1: "reaches WAIT ?cs b opening_output (method_frame 1 QUEUE QUEUE_DECLARE (name_args t nm tail) @
      concat (map publication_frames pbs) @ method_frame 1 CHANNEL CHANNEL_CLOSE a1 @
      method_frame 0 CONNECTION CONNECTION_CLOSE a2 @ rest) WAIT_FUNCTIONAL c1 b" by blast
  from declare_reaches [OF assms(1,4) reaches_rest [OF 1] assms(5,11)] obtain c2 b2 where
    2: "reaches WAIT_FUNCTIONAL c1 b [declare_ok_frame (until_nul nm) (length ms)]
      (concat (map publication_frames pbs) @ method_frame 1 CHANNEL CHANNEL_CLOSE a1 @
      method_frame 0 CONNECTION CONNECTION_CLOSE a2 @ rest) WAIT_FUNCTIONAL c2 b2"
    and b2: "broker_abs b2 (spec_declare (until_nul nm) M)" "rodata b2 = rodata b" by blast
  have "WAIT_FUNCTIONAL = WAIT_FUNCTIONAL \<and> pbs \<noteq> [] \<or> WAIT_FUNCTIONAL = WAIT_PUBLISH_CONTENT"
    using assms(6) by simp
  from publications_reach [OF this b2(1) assms(9,10) reaches_rest [OF 2]] obtain c3 b3 where
    3: "reaches WAIT_FUNCTIONAL c2 b2 [] (method_frame 1 CHANNEL CHANNEL_CLOSE a1 @
      method_frame 0 CONNECTION CONNECTION_CLOSE a2 @ rest) WAIT_PUBLISH_CONTENT c3 b3"
    and b3: "broker_abs b3 (fold spec_publication pbs (spec_declare (until_nul nm) M))" "rodata b3 = rodata b2" by blast
  from close_channel_reaches [OF reaches_rest [OF 3] assms(7), of b3] obtain c4 where
    4: "reaches WAIT_PUBLISH_CONTENT c3 b3 [channel_close_ok_frame]
      (method_frame 0 CONNECTION CONNECTION_CLOSE a2 @ rest) WAIT_OPEN_CHANNEL c4 b3" by blast
  from close_reaches [OF reaches_rest [OF 4] assms(8), of b3] obtain c5 where
    5: "reaches WAIT_OPEN_CHANNEL c4 b3 [connection_close_ok_frame] rest FINISHED c5 b3" by blast
  note all = reaches_trans [OF 1 reaches_trans [OF 2 reaches_trans [OF 3 reaches_trans [OF 4 5]]]]
  from reaches_run [OF all] reaches_output [OF all] b3 b2(2) show ?thesis
    by (simp add: state_machine_main_def)
qed

theorem publisher_session_witness:
  "\<exists>cs' b'. state_machine_main 4 0 (one_by_one (publisher_input [0x71] [sample_publication [0x68, 0x69]]))
      (init_broker two_subscribers [0, 0, 0]) = Inr (FINISHED, cs', b') \<and>
    tx cs' = opening_output @ [declare_ok_frame [0x71] 0, channel_close_ok_frame, connection_close_ok_frame] \<and>
    broker_abs b' [[0x71] \<mapsto> ([[0x68, 0x69]], [], - 1)]"
proof -
  let ?nm = "[0x71] :: byte list" and ?pbs = "[sample_publication [0x68, 0x69]]" and ?M = "(\<lambda>_. None) :: spec"
  have M: "spec_declare ?nm ?M = [?nm \<mapsto> ([], [], - 1)]" by (simp add: spec_declare_def)
  have rx: "rx_bytes (one_by_one (publisher_input ?nm ?pbs)) =
      opening_frames [[], [], [], []] @ method_frame 1 QUEUE QUEUE_DECLARE (name_args 0 ?nm []) @
      concat (map publication_frames ?pbs) @ method_frame 1 CHANNEL CHANNEL_CLOSE [] @
      method_frame 0 CONNECTION CONNECTION_CLOSE [] @ []"
    by (simp add: publisher_input_def)
  have args: "\<forall>i < 4. length ([[], [], [], []] ! i :: byte list) \<le> MAXLINE - 7"
    by (auto simp: less_Suc_eq numeral_eq_Suc)
  have ok: "\<forall>pb \<in> set ?pbs. publication_fits pb \<and> spec_declare (until_nul ?nm) ?M (until_nul (pub_queue pb)) \<noteq> None"
    by (simp add: M sample_publication_fits MAXLINE_def)
  have rm: "room (length ?pbs) (spec_declare (until_nul ?nm) ?M)" by (simp add: room_def M INT_MAX_def)
  have fold: "fold spec_publication ?pbs (spec_declare ?nm ?M) = [?nm \<mapsto> ([[0x68, 0x69]], [], - 1)]"
    by (simp add: M spec_publication_def spec_publish_def until_nul_def)
  show ?thesis
    using publisher_session [OF init_broker_abs rx args _ _ _ _ _ ok rm, of "[]" "([], - 1)" 4 0 two_subscribers "[0, 0, 0]"]
    unfolding until_nul_q fold by (simp add: M name_args_def MAXLINE_def) blast
qed

text \<open>C4. A session that consumes: the only consumer of a queue gets its messages in order,
  one per acknowledgement, each as a deliver method, a content header and a body, and the
  queue keeps the rest.\<close>

theorem consumer_session:
  assumes "broker_abs b M"
    and "rx_bytes input = opening_frames args @ method_frame 1 BASIC BASIC_CONSUME (name_args t nm tail) @
      concat (map (method_frame 1 BASIC BASIC_ACK) acks) @ rest"
    and "\<forall>i < 4. length (args ! i) \<le> MAXLINE - 7" "length nm < 256" "length (name_args t nm tail) \<le> MAXLINE - 7"
    and "M (until_nul nm) = Some (ms @ ms', [], c)" "\<forall>m \<in> set ms. length m + 8 \<le> MAXLINE"
    and "length acks = length ms" "\<forall>a \<in> set acks. length a \<le> MAXLINE - 7"
    and "0 \<le> thread" "thread < int MAX_CONNECTIONS" "3 \<le> length (rodata b)"
  shows "\<exists>cs' b'. machine_step\<^sup>*\<^sup>* (WAIT, init_connection fd thread input, b) (WAIT_VALUE_DEQUEUE, cs', b') \<and>
    tx cs' = opening_output @ [consume_ok_frame (rodata b)] @ concat (map deliver_frames ms) \<and>
    rx_bytes (rx cs') = rest \<and> broker_abs b' (M(until_nul nm \<mapsto> (ms', [thread], thread)))"
proof -
  let ?cs = "init_connection fd thread input" and ?nm = "until_nul nm"
  let ?acks = "concat (map (method_frame 1 BASIC BASIC_ACK) acks) @ rest"
  have "rx_bytes (rx ?cs) = rx_bytes input" by simp
  from opening_reaches [OF this [unfolded assms(2)] assms(3), of b] obtain c1 where
    1: "reaches WAIT ?cs b opening_output (method_frame 1 BASIC BASIC_CONSUME (name_args t nm tail) @ ?acks)
      WAIT_FUNCTIONAL c1 b" by blast
  from reaches_output [OF 1] assms(6,10-12)
    consume_reaches [OF assms(1,4) reaches_rest [OF 1] assms(5), of "ms @ ms'" "[]" c] obtain c3 b3 where
    3: "reaches WAIT_FUNCTIONAL c1 b [consume_ok_frame (rodata b)] ?acks WAIT_VALUE_DEQUEUE c3 b3"
    and b3: "names b3 (current_queue c3) ?nm" "broker_abs b3 (M(?nm \<mapsto> (ms @ ms', [thread], thread)))"
    by (auto simp del: fun_upd_apply)
  have t3: "tid c3 = thread" using reaches_output [OF 1] reaches_output [OF 3] by simp
  have M3: "(M(?nm \<mapsto> (ms @ ms', [thread], thread))) ?nm = Some (ms @ ms', [tid c3], tid c3)" by (simp add: t3)
  from deliveries_reach [OF b3(2,1) M3 assms(7-9) reaches_rest [OF 3]] obtain c4 b4 where
    4: "reaches WAIT_VALUE_DEQUEUE c3 b3 (concat (map deliver_frames ms)) rest WAIT_VALUE_DEQUEUE c4 b4"
    and b4: "broker_abs b4 (M(?nm \<mapsto> (ms', [thread], thread)))" by (auto simp: t3 simp del: fun_upd_apply)
  note all = reaches_trans [OF 1 reaches_trans [OF 3 4]]
  from all reaches_output [OF all] reaches_rest [OF all] b4 show ?thesis
    by (intro exI [of _ c4] exI [of _ b4]) (simp add: reaches_def del: fun_upd_apply)
qed

text \<open>A broker with two messages in one queue.\<close>

lemma two_messages:
  "\<exists>b. broker_abs b [[0x71] \<mapsto> ([[0x68], [0x69]], [], - 1)] \<and> rodata b = [0, 0, 0]"
proof -
  let ?nm = "[0x71] :: byte list"
  have 0: "broker_abs (init_broker two_subscribers [0, 0, 0]) (\<lambda>_. None)" by (rule init_broker_abs)
  have "spec_declare ?nm (\<lambda>_. None) = [?nm \<mapsto> ([], [], - 1)]" by (simp add: spec_declare_def)
  with abs_declare [OF 0, of ?nm] obtain b1 i where 1: "broker_abs b1 [?nm \<mapsto> ([], [], - 1)]"
    "trie_lookup (pool b1) ?nm = Some i" "rodata b1 = [0, 0, 0]"
    by (auto simp: names_def MAX_QUEUE_NAME_def init_broker_def simp del: fun_upd_apply)
  have v: "valid_msg [0x68]" "valid_msg [0x69]" by (simp_all add: valid_msg_def MAXLINE_def)
  from abs_publish [OF 1(1,2) _ v(1), of "[]" "[]" "- 1"] obtain q2 h2 where
    2: "broker_abs (put_queue b1 i q2 h2) [?nm \<mapsto> ([[0x68]], [], - 1)]"
    by (auto simp: INT_MAX_def simp del: fun_upd_apply) (auto simp: fun_upd_def)
  have l2: "trie_lookup (pool (put_queue b1 i q2 h2)) ?nm = Some i" using 1(2) by simp
  from abs_publish [OF 2 l2 _ v(2), of "[[0x68]]" "[]" "- 1"] obtain q3 h3 where
    "broker_abs (put_queue (put_queue b1 i q2 h2) i q3 h3) [?nm \<mapsto> ([[0x68], [0x69]], [], - 1)]"
    by (auto simp: INT_MAX_def simp del: fun_upd_apply) (auto simp: fun_upd_def)
  moreover have "rodata (put_queue (put_queue b1 i q2 h2) i q3 h3) = [0, 0, 0]" by (simp add: 1(3))
  ultimately show ?thesis by blast
qed

theorem consumer_session_witness:
  "\<exists>b cs' b'. broker_abs b [[0x71] \<mapsto> ([[0x68], [0x69]], [], - 1)] \<and>
    machine_step\<^sup>*\<^sup>* (WAIT, init_connection 4 2 (one_by_one (consumer_input [0x71] 1)), b) (WAIT_VALUE_DEQUEUE, cs', b') \<and>
    tx cs' = opening_output @ [consume_ok_frame [0, 0, 0]] @ deliver_frames [0x68] \<and>
    broker_abs b' [[0x71] \<mapsto> ([[0x69]], [2], 2)]"
proof -
  let ?nm = "[0x71] :: byte list" and ?M = "[[0x71] \<mapsto> ([[0x68], [0x69]], [], - 1)] :: spec"
  obtain b where b: "broker_abs b ?M" "rodata b = [0, 0, 0]" using two_messages by blast
  have rx: "rx_bytes (one_by_one (consumer_input ?nm 1)) =
      opening_frames [[], [], [], []] @ method_frame 1 BASIC BASIC_CONSUME (name_args 0 ?nm []) @
      concat (map (method_frame 1 BASIC BASIC_ACK) [[]]) @ []"
    by (simp add: consumer_input_def)
  have args: "\<forall>i < 4. length ([[], [], [], []] ! i :: byte list) \<le> MAXLINE - 7"
    by (auto simp: less_Suc_eq numeral_eq_Suc)
  have M: "?M (until_nul ?nm) = Some ([[0x68]] @ [[0x69]], [], - 1)" by simp
  have "?M(?nm \<mapsto> ([[0x69]], [2], 2)) = [?nm \<mapsto> ([[0x69]], [2], 2)]" by simp
  with consumer_session [OF b(1) rx args _ _ M, of 2 4] b show ?thesis
    by (simp add: name_args_def MAXLINE_def MAX_CONNECTIONS_def del: fun_upd_apply) blast
qed

lemma fold_publications:
  "M k = Some (ms, r) \<Longrightarrow> \<forall>pb \<in> set pbs. until_nul (pub_queue pb) = k \<Longrightarrow>
   fold spec_publication pbs M k = Some (ms @ map (\<lambda>pb. until_nul (pub_body pb)) pbs, r)"
  by (induction pbs arbitrary: M ms) (auto simp: spec_publication_def spec_publish_def)

lemma dom_publications: "fold spec_publication pbs M k = None \<longleftrightarrow> M k = None"
  by (induction pbs arbitrary: M) (auto simp: dom_publication)

text \<open>C5. End to end: on a fresh broker, whatever one connection publishes to a queue it
  declared is what the next connection gets when it consumes from it, in the order of publication and
  whatever the segments both arrive in: of each body the part before its first zero byte, which
  is the whole body when it has none. What follows a zero byte is lost: the queue holds C strings.\<close>

theorem published_messages_are_delivered:
  assumes "rx_bytes i1 = publisher_input nm pbs" "rx_bytes i2 = consumer_input nm (length pbs)"
    and "length nm < 256" "pbs \<noteq> []" "int (length pbs) \<le> INT_MAX"
    and "\<forall>pb \<in> set pbs. publication_fits pb \<and> pub_queue pb = nm \<and> length (pub_body pb) + 8 \<le> MAXLINE"
    and "0 \<le> thread" "thread < int MAX_CONNECTIONS" "3 \<le> length ro"
  shows "\<exists>cs1 b1 cs2 b2. state_machine_main fd1 thread1 i1 (init_broker raw ro) = Inr (FINISHED, cs1, b1) \<and>
    machine_step\<^sup>*\<^sup>* (WAIT, init_connection fd thread i2, b1) (WAIT_VALUE_DEQUEUE, cs2, b2) \<and>
    tx cs2 = opening_output @ [consume_ok_frame ro] @
      concat (map (\<lambda>pb. deliver_frames (until_nul (pub_body pb))) pbs) \<and>
    broker_abs b2 [until_nul nm \<mapsto> ([], [thread], thread)]"
proof -
  let ?nm = "until_nul nm" and ?M = "(\<lambda>_. None) :: spec"
  have M: "spec_declare ?nm ?M = [?nm \<mapsto> ([], [], - 1)]" by (simp add: spec_declare_def)
  have abs: "broker_abs (init_broker raw ro) ?M" by (rule init_broker_abs)
  have args: "\<forall>i < 4. length ([[], [], [], []] ! i :: byte list) \<le> MAXLINE - 7"
    by (auto simp: less_Suc_eq numeral_eq_Suc)
  have na: "length (name_args 0 nm []) \<le> MAXLINE - 7" using assms(3) by (simp add: name_args_def MAXLINE_def)
  have "rx_bytes i1 = opening_frames [[], [], [], []] @ method_frame 1 QUEUE QUEUE_DECLARE (name_args 0 nm []) @
      concat (map publication_frames pbs) @ method_frame 1 CHANNEL CHANNEL_CLOSE [] @
      method_frame 0 CONNECTION CONNECTION_CLOSE [] @ []"
    using assms(1) by (simp add: publisher_input_def)
  moreover have "\<forall>pb \<in> set pbs. publication_fits pb \<and> spec_declare ?nm ?M (until_nul (pub_queue pb)) \<noteq> None"
    using assms(6) by (simp add: M)
  moreover have "room (length pbs) (spec_declare ?nm ?M)" using assms(5) by (simp add: room_def M)
  moreover have "spec_declare ?nm ?M ?nm = Some ([], [], - 1)" by (simp add: M)
  ultimately obtain cs1 b1 where 1: "state_machine_main fd1 thread1 i1 (init_broker raw ro) = Inr (FINISHED, cs1, b1)"
    and b1: "broker_abs b1 (fold spec_publication pbs (spec_declare ?nm ?M))" "rodata b1 = ro"
    using publisher_session [OF abs _ args assms(3) na assms(4), of i1 "[]" "[]" "[]" "[]" "([], - 1)" fd1 thread1]
    by (auto simp: init_broker_def)
  let ?F = "fold spec_publication pbs (spec_declare ?nm ?M)" and ?ms = "map (\<lambda>pb. until_nul (pub_body pb)) pbs"
  have F: "?F ?nm = Some (?ms @ [], [], - 1)"
    using fold_publications [of "spec_declare ?nm ?M" ?nm "[]" "([], - 1)" pbs] assms(6) by (auto simp: M)
  have i2: "rx_bytes i2 = opening_frames [[], [], [], []] @ method_frame 1 BASIC BASIC_CONSUME (name_args 0 nm []) @
      concat (map (method_frame 1 BASIC BASIC_ACK) (replicate (length pbs) [])) @ []"
    using assms(2) by (simp add: consumer_input_def)
  have "\<forall>m \<in> set ?ms. length m + 8 \<le> MAXLINE"
    using assms(6) length_until_nul_le by (force intro: order_trans [OF add_right_mono])
  from consumer_session [OF b1(1) i2 args assms(3) na F this _ _ assms(7,8), of fd] b1(2) assms(9) obtain cs2 b2 where
    2: "machine_step\<^sup>*\<^sup>* (WAIT, init_connection fd thread i2, b1) (WAIT_VALUE_DEQUEUE, cs2, b2)"
    "tx cs2 = opening_output @ [consume_ok_frame ro] @ concat (map deliver_frames ?ms)"
    and b2: "broker_abs b2 (?F(?nm \<mapsto> ([], [thread], thread)))" by (auto simp del: fun_upd_apply)
  have "?F(?nm \<mapsto> ([], [thread], thread)) = [?nm \<mapsto> ([], [thread], thread)]"
    by (rule ext) (auto simp: dom_publications M)
  with 1 2 b2 show ?thesis by (auto simp: comp_def simp del: fun_upd_apply)
qed

theorem published_messages_are_delivered_witness:
  "\<exists>cs1 b1 cs2 b2.
    state_machine_main 4 0 (one_by_one (publisher_input [0x71] [sample_publication [0x68, 0x69], sample_publication [0x6f]]))
      (init_broker two_subscribers [0, 0, 0]) = Inr (FINISHED, cs1, b1) \<and>
    machine_step\<^sup>*\<^sup>* (WAIT, init_connection 4 1 (one_by_one (consumer_input [0x71] 2)), b1) (WAIT_VALUE_DEQUEUE, cs2, b2) \<and>
    tx cs2 = opening_output @ [consume_ok_frame [0, 0, 0]] @ deliver_frames [0x68, 0x69] @ deliver_frames [0x6f] \<and>
    broker_abs b2 [[0x71] \<mapsto> ([], [1], 1)]"
proof -
  let ?nm = "[0x71] :: byte list" and ?pbs = "[sample_publication [0x68, 0x69], sample_publication [0x6f]]"
  have ok: "\<forall>pb \<in> set ?pbs. publication_fits pb \<and> pub_queue pb = ?nm \<and> length (pub_body pb) + 8 \<le> MAXLINE"
    by (simp add: sample_publication_fits MAXLINE_def)
  have until: "until_nul [0x68, 0x69] = [0x68, 0x69]" "until_nul [0x6f] = [0x6f]" by (simp_all add: until_nul_def)
  show ?thesis
    using published_messages_are_delivered [of "one_by_one (publisher_input ?nm ?pbs)" ?nm ?pbs
        "one_by_one (consumer_input ?nm 2)" 1 "[0, 0, 0]" 4 0 two_subscribers 4, OF _ _ _ _ _ ok]
    by (simp add: INT_MAX_def MAX_CONNECTIONS_def until numeral_2_eq_2 del: fun_upd_apply)
qed

end
